(* ===== verification/Sephi_Prelude.thy ===== *)
theory Sephi_Prelude
  imports Main "HOL-Library.Word" "HOL-Library.Monad_Syntax"
begin

text \<open>
  Shared material of the development: the names of the machine types, the lemma
  collections, the pieces of the C++ standard library that the sources call
  (array access, \<^verbatim>\<open>std::copy\<close>, \<^verbatim>\<open>std::copy_backward\<close>, \<^verbatim>\<open>std::lower_bound\<close>,
  \<^verbatim>\<open>std::memcpy\<close>) and generic lemmas on lists, rotations, counting and runs of
  step relations.

  A computation that may run into undefined behaviour (an access outside its array,
  a failed \<^verbatim>\<open>BOOST_ASSERT\<close>) has type \<open>'a option\<close>, and \<open>None\<close> is that failure.
\<close>

section \<open>Machine types and collections\<close>

type_synonym u8 = "8 word"
type_synonym u16 = "16 word"
type_synonym u32 = "32 word"
type_synonym u64 = "64 word"
type_synonym bytes = "u8 list"

named_theorems std_simps \<open>characterisations of the standard library algorithms\<close>
named_theorems step_defs \<open>definitions that step proofs unfold\<close>

text \<open>
  Arithmetic of \<^verbatim>\<open>size_type\<close>, an unsigned 64-bit type: values are \<open>nat\<close> below
  \<open>2 ^ 64\<close> and every operation wraps around.
\<close>

definition usz_add :: "nat \<Rightarrow> nat \<Rightarrow> nat" where
  "usz_add a b = (a + b) mod 2 ^ 64"

definition usz_sub :: "nat \<Rightarrow> nat \<Rightarrow> nat" where
  "usz_sub a b = (if b \<le> a then a - b else 2 ^ 64 + a - b)"

lemma usz_add_in [simp]: "a + b < 2 ^ 64 \<Longrightarrow> usz_add a b = a + b"
  by (simp add: usz_add_def)

lemma usz_sub_in [simp]: "b \<le> a \<Longrightarrow> usz_sub a b = a - b"
  by (simp add: usz_sub_def)

lemma usz_wraps: "usz_add (2 ^ 64 - 1) 1 = 0" "usz_sub 0 1 = 2 ^ 64 - 1"
  by (simp_all add: usz_add_def usz_sub_def)

section \<open>Checked array access and assertions\<close>

definition arr_get :: "'a list \<Rightarrow> nat \<Rightarrow> 'a option" where
  "arr_get xs i = (if i < length xs then Some (xs ! i) else None)"

definition arr_set :: "'a list \<Rightarrow> nat \<Rightarrow> 'a \<Rightarrow> 'a list option" where
  "arr_set xs i v = (if i < length xs then Some (xs[i := v]) else None)"

definition check :: "bool \<Rightarrow> unit option" where
  "check b = (if b then Some () else None)"

lemma arr_get_in [simp]: "i < length xs \<Longrightarrow> arr_get xs i = Some (xs ! i)"
  by (simp add: arr_get_def)

lemma arr_get_SomeD: "arr_get xs i = Some x \<Longrightarrow> i < length xs \<and> x = xs ! i"
  by (simp add: arr_get_def split: if_splits)

lemma arr_set_in [simp]: "i < length xs \<Longrightarrow> arr_set xs i v = Some (xs[i := v])"
  by (simp add: arr_set_def)

lemma check_simps [simp]: "check True = Some ()" "check False = None"
  by (simp_all add: check_def)

lemma check_Some_iff [simp]: "check b = Some u \<longleftrightarrow> b"
  by (simp add: check_def)

section \<open>std::copy and std::copy_backward inside one array\<close>

text \<open>
  \<open>std_copy xs b e d\<close> is \<^verbatim>\<open>std::copy(&xs[b], &xs[e], &xs[d])\<close>: one element at a time,
  in ascending order, over the same array. \<open>std_copy_backward xs b e d\<close> is
  \<^verbatim>\<open>std::copy_backward(&xs[b], &xs[e], &xs[d])\<close>: descending, \<open>d\<close> one past the end of
  the destination.
\<close>

function std_copy :: "'a list \<Rightarrow> nat \<Rightarrow> nat \<Rightarrow> nat \<Rightarrow> 'a list option" where
  "std_copy xs b e d =
     (if b < e
      then Option.bind (arr_get xs b) (\<lambda>x.
           Option.bind (arr_set xs d x) (\<lambda>xs'. std_copy xs' (Suc b) e (Suc d)))
      else Some xs)"
  by pat_completeness auto
termination
  by (relation "measure (\<lambda>(xs, b, e, d). e - b)") auto

function std_copy_backward :: "'a list \<Rightarrow> nat \<Rightarrow> nat \<Rightarrow> nat \<Rightarrow> 'a list option" where
  "std_copy_backward xs b e d =
     (if b < e
      then Option.bind (arr_get xs (e - 1)) (\<lambda>x.
           Option.bind (if d = 0 then None else arr_set xs (d - 1) x)
             (\<lambda>xs'. std_copy_backward xs' b (e - 1) (d - 1)))
      else Some xs)"
  by pat_completeness auto
termination
  by (relation "measure (\<lambda>(xs, b, e, d). e - b)") auto

declare std_copy.simps [simp del] std_copy_backward.simps [simp del]

text \<open>
  The result of a copy to the left, position by position. The destination may overlap
  the source as long as it starts no later.
\<close>

definition shift_left :: "'a list \<Rightarrow> nat \<Rightarrow> nat \<Rightarrow> nat \<Rightarrow> 'a list" where
  "shift_left xs b e d =
     map (\<lambda>i. if d \<le> i \<and> i < d + (e - b) then xs ! (i - d + b) else xs ! i) [0..<length xs]"

definition shift_right :: "'a list \<Rightarrow> nat \<Rightarrow> nat \<Rightarrow> nat \<Rightarrow> 'a list" where
  "shift_right xs b e d =
     map (\<lambda>i. if d - (e - b) \<le> i \<and> i < d then xs ! (i - (d - e)) else xs ! i) [0..<length xs]"

lemma length_shift_left [simp]: "length (shift_left xs b e d) = length xs"
  by (simp add: shift_left_def)

lemma length_shift_right [simp]: "length (shift_right xs b e d) = length xs"
  by (simp add: shift_right_def)

lemma nth_shift_left:
  "i < length xs \<Longrightarrow>
   shift_left xs b e d ! i = (if d \<le> i \<and> i < d + (e - b) then xs ! (i - d + b) else xs ! i)"
  by (simp add: shift_left_def)

lemma nth_shift_right:
  "i < length xs \<Longrightarrow>
   shift_right xs b e d ! i = (if d - (e - b) \<le> i \<and> i < d then xs ! (i - (d - e)) else xs ! i)"
  by (simp add: shift_right_def)

lemma std_copy_eq [std_simps]:
  "d \<le> b \<Longrightarrow> e \<le> length xs \<Longrightarrow> std_copy xs b e d = Some (shift_left xs b e d)"
proof (induction xs b e d rule: std_copy.induct)
  case (1 xs b e d)
  show ?case
  proof (cases "b < e")
    case True
    with "1.prems" have d: "d < length xs" and b: "b < length xs" by simp_all
    with True "1.prems"
    have "std_copy xs b e d = std_copy (xs[d := xs ! b]) (Suc b) e (Suc d)"
      by (subst std_copy.simps) simp
    also have "\<dots> = Some (shift_left (xs[d := xs ! b]) (Suc b) e (Suc d))"
      using True "1.prems" b d by (intro "1.IH") auto
    also have "shift_left (xs[d := xs ! b]) (Suc b) e (Suc d) = shift_left xs b e d"
      using True "1.prems" d
      by (intro nth_equalityI) (auto simp: nth_shift_left nth_list_update Suc_diff_Suc)
    finally show ?thesis .
  next
    case False
    then have "shift_left xs b e d = xs"
      by (intro nth_equalityI) (auto simp: nth_shift_left)
    with False show ?thesis by (subst std_copy.simps) simp
  qed
qed

lemma std_copy_backward_eq [std_simps]:
  "e \<le> d \<Longrightarrow> d \<le> length xs \<Longrightarrow> std_copy_backward xs b e d = Some (shift_right xs b e d)"
proof (induction xs b e d rule: std_copy_backward.induct)
  case (1 xs b e d)
  show ?case
  proof (cases "b < e")
    case True
    with "1.prems" have d: "0 < d" "d - 1 < length xs" and e: "e - 1 < length xs" by simp_all
    with True "1.prems"
    have "std_copy_backward xs b e d
        = std_copy_backward (xs[d - 1 := xs ! (e - 1)]) b (e - 1) (d - 1)"
      by (subst std_copy_backward.simps) simp
    also have "\<dots> = Some (shift_right (xs[d - 1 := xs ! (e - 1)]) b (e - 1) (d - 1))"
      using True "1.prems" d e by (intro "1.IH") auto
    also have "shift_right (xs[d - 1 := xs ! (e - 1)]) b (e - 1) (d - 1) = shift_right xs b e d"
    proof (rule nth_equalityI)
      fix i
      assume "i < length (shift_right (xs[d - 1 := xs ! (e - 1)]) b (e - 1) (d - 1))"
      then have i: "i < length xs" by simp
      have len: "d - 1 - (e - 1 - b) = d - (e - b)" and gap: "d - 1 - (e - 1) = d - e"
        using True d "1.prems" by auto
      consider "i = d - 1" | "i < d - 1" | "d - 1 < i" by linarith
      then show "shift_right (xs[d - 1 := xs ! (e - 1)]) b (e - 1) (d - 1) ! i
          = shift_right xs b e d ! i"
      proof cases
        case 1
        then have "i - (d - e) = e - 1" using True "1.prems" d by arith
        with 1 i True d "1.prems" show ?thesis
          by (simp add: nth_shift_right len gap)
      next
        case 2
        then have "i - (d - e) \<noteq> d - 1" by arith
        with 2 i d True "1.prems" show ?thesis
          by (auto simp: nth_shift_right nth_list_update)
      next
        case 3
        with i d show ?thesis by (auto simp: nth_shift_right)
      qed
    qed simp
    finally show ?thesis .
  next
    case False
    then have "shift_right xs b e d = xs"
      using "1.prems" by (intro nth_equalityI) (auto simp: nth_shift_right)
    with False show ?thesis by (subst std_copy_backward.simps) simp
  qed
qed

section \<open>std::lower_bound\<close>

text \<open>
  \<open>std_lower_bound p b n\<close> is the binary search of \<^verbatim>\<open>std::lower_bound\<close> over the \<open>n\<close>
  positions from \<open>b\<close> on, where \<open>p i\<close> is the comparison of the element at position \<open>i\<close>
  with the searched value. A comparison that reads outside the array gives \<open>None\<close>.
\<close>

function std_lower_bound :: "(nat \<Rightarrow> bool option) \<Rightarrow> nat \<Rightarrow> nat \<Rightarrow> nat option" where
  "std_lower_bound p b n =
     (if n = 0 then Some b
      else let half = n div 2; mid = b + half
           in Option.bind (p mid) (\<lambda>less.
                if less then std_lower_bound p (Suc mid) (n - half - 1)
                else std_lower_bound p b half))"
  by pat_completeness auto
termination
  by (relation "measure (\<lambda>(p, b, n). n)") auto

declare std_lower_bound.simps [simp del]

text \<open>
  On a range whose elements that compare less come first, and whose comparisons are all
  defined, the search returns, and it returns the boundary.
\<close>

lemma std_lower_bound_eq:
  assumes "\<And>i. b \<le> i \<Longrightarrow> i < b + n \<Longrightarrow> p i = Some (i < k)"
    and "b \<le> k" and "k \<le> b + n"
  shows "std_lower_bound p b n = Some k"
  using assms
proof (induction p b n rule: std_lower_bound.induct)
  case (1 p b n)
  show ?case
  proof (cases "n = 0")
    case True
    with "1.prems" show ?thesis by (simp add: std_lower_bound.simps)
  next
    case False
    define half where "half = n div 2"
    from False have half: "half < n" by (simp add: half_def)
    with "1.prems"(1) have p: "p (b + half) = Some (b + half < k)" by simp
    show ?thesis
    proof (cases "b + half < k")
      case True
      have "std_lower_bound p (Suc (b + half)) (n - half - 1) = Some k"
        using False True half "1.prems" p
        by (intro "1.IH"(1) [OF False half_def refl p]) (simp_all add: half_def)
      with False True p show ?thesis
        by (simp add: std_lower_bound.simps [of p b n] Let_def flip: half_def)
    next
      case bound: False
      have "std_lower_bound p b half = Some k"
        using False bound half "1.prems" p
        by (intro "1.IH"(2) [OF False half_def refl p]) (simp_all add: half_def)
      with False bound p show ?thesis
        by (simp add: std_lower_bound.simps [of p b n] Let_def flip: half_def)
    qed
  qed
qed

section \<open>std::memcpy\<close>

text \<open>
  \<open>std_memcpy dst src n\<close> copies the first \<open>n\<close> bytes of \<open>src\<close> over the first \<open>n\<close> bytes
  of \<open>dst\<close>; both areas must be at least that long.
\<close>

definition std_memcpy :: "bytes \<Rightarrow> bytes \<Rightarrow> nat \<Rightarrow> bytes option" where
  "std_memcpy dst src n =
     (if n \<le> length dst \<and> n \<le> length src then Some (take n src @ drop n dst) else None)"

lemma std_memcpy_fits [simp]:
  "n \<le> length dst \<Longrightarrow> n \<le> length src \<Longrightarrow> std_memcpy dst src n = Some (take n src @ drop n dst)"
  by (simp add: std_memcpy_def)

section \<open>Lists\<close>

definition insert_nth :: "nat \<Rightarrow> 'a \<Rightarrow> 'a list \<Rightarrow> 'a list" where
  "insert_nth j x xs = take j xs @ x # drop j xs"

lemma length_insert_nth [simp]: "length (insert_nth j x xs) = Suc (length xs)"
  by (simp add: insert_nth_def)

lemma set_insert_nth [simp]: "set (insert_nth j x xs) = insert x (set xs)"
proof -
  have "set (take j xs) \<union> set (drop j xs) = set xs"
    by (metis append_take_drop_id set_append)
  then show ?thesis by (auto simp: insert_nth_def)
qed

lemma nth_insert_nth:
  "j \<le> length xs \<Longrightarrow> i \<le> length xs \<Longrightarrow>
   insert_nth j x xs ! i = (if i < j then xs ! i else if i = j then x else xs ! (i - 1))"
  by (auto simp: insert_nth_def nth_append nth_Cons' min_def)

lemma map_insert_nth: "map f (insert_nth j x xs) = insert_nth j (f x) (map f xs)"
  by (simp add: insert_nth_def take_map drop_map)

lemma insert_nth_0 [simp]: "insert_nth 0 x xs = x # xs"
  by (simp add: insert_nth_def)

lemma insert_nth_length [simp]: "insert_nth (length xs) x xs = xs @ [x]"
  by (simp add: insert_nth_def)

lemma sorted_insert_nth:
  assumes "sorted xs" and "j \<le> length xs"
    and "\<And>i. i < j \<Longrightarrow> xs ! i \<le> x" and "\<And>i. j \<le> i \<Longrightarrow> i < length xs \<Longrightarrow> x \<le> xs ! i"
  shows "sorted (insert_nth j x xs)"
proof -
  have "\<forall>y \<in> set (take j xs). y \<le> x"
    using assms(2,3) by (auto simp: set_conv_nth)
  moreover have "\<forall>z \<in> set (drop j xs). x \<le> z"
    using assms(2,4) by (auto simp: set_conv_nth)
  moreover have "sorted (take j xs)" and "sorted (drop j xs)"
    using assms(1) by (simp_all add: sorted_wrt_take sorted_wrt_drop)
  ultimately show ?thesis
    by (fastforce simp: insert_nth_def sorted_append)
qed

lemma nth_rotate_if:
  "m \<le> length xs \<Longrightarrow> n < length xs \<Longrightarrow>
   rotate m xs ! n = xs ! (if m + n < length xs then m + n else m + n - length xs)"
  by (simp add: nth_rotate mod_if)

text \<open>How one update changes the number of elements with a property.\<close>

lemma count_update:
  "i < length xs \<Longrightarrow>
   length (filter P (xs[i := y])) + (if P (xs ! i) then 1 else 0)
   = length (filter P xs) + (if P y then 1 else 0)"
proof (induction xs arbitrary: i)
  case (Cons x xs)
  then show ?case by (cases i) auto
qed simp

lemma count_disjoint:
  "(\<And>x. P x \<Longrightarrow> \<not> Q x) \<Longrightarrow> length (filter P xs) + length (filter Q xs) \<le> length xs"
  by (induction xs) auto

lemma count_disjoint_less:
  assumes "\<And>x. P x \<Longrightarrow> \<not> Q x" and "x \<in> set xs" and "\<not> P x" and "\<not> Q x"
  shows "length (filter P xs) + length (filter Q xs) < length xs"
proof -
  obtain ys zs where "xs = ys @ x # zs" using assms(2) by (meson split_list)
  then show ?thesis
    using count_disjoint [of P Q ys] count_disjoint [of P Q zs] assms(1,3,4) by fastforce
qed

section \<open>Runs of a step relation\<close>

lemma rtranclp_invariant:
  assumes "r\<^sup>*\<^sup>* s t" and "I s" and "\<And>x y. r x y \<Longrightarrow> I x \<Longrightarrow> I y"
  shows "I t"
  using assms by (induction rule: rtranclp_induct) auto

end
