(* ===== verification/Mq_Header.thy ===== *)
theory Mq_Header
  imports Sephi_Prelude
begin

text \<open>
  The control block \<^verbatim>\<open>mq_hdr_t\<close> of the message queue
  (\<^verbatim>\<open>include/sephi/ipc/mq/boost/message_queue_mod.hpp\<close>): the message headers, the index
  of message pointers, and the operations on it. The header compiles in two ways,
  with and without \<^verbatim>\<open>BOOST_INTERPROCESS_MSG_QUEUE_CIRCULAR_INDEX\<close>; both builds are modelled, and
  the argument \<open>bld\<close> of the shared code holds the operations of one of them.

  A message pointer is the offset of the message in the shared segment, and
  \<open>messages\<close> is the store the pointers lead to: \<open>None\<close> where no message lies. An iterator
  into the index is its position. \<open>None\<close> as a result is undefined behaviour (a read or write
  outside the index or through a bad pointer) or a failed \<^verbatim>\<open>BOOST_ASSERT\<close>.
\<close>

section \<open>Data\<close>

record msg_hdr =
  msg_len :: nat
  msg_priority :: u32
  msg_data :: bytes

record mq_hdr =
  mp_index :: "u64 list"
  m_max_num_msg :: nat
  m_max_msg_size :: nat
  m_cur_num_msg :: nat
  m_cur_first_msg :: nat
  m_blocked_senders :: nat
  m_blocked_receivers :: nat
  messages :: "u64 \<Rightarrow> msg_hdr option"

text \<open>The comparison of \<^verbatim>\<open>priority_functor\<close>.\<close>

definition priority_functor :: "msg_hdr \<Rightarrow> msg_hdr \<Rightarrow> bool" where
  "priority_functor msg1 msg2 \<longleftrightarrow> msg_priority msg1 < msg_priority msg2"

section \<open>Operations of both builds\<close>

definition mq_is_full :: "mq_hdr \<Rightarrow> bool" where
  "mq_is_full h \<longleftrightarrow> m_cur_num_msg h = m_max_num_msg h"

definition mq_is_empty :: "mq_hdr \<Rightarrow> bool" where
  "mq_is_empty h \<longleftrightarrow> m_cur_num_msg h = 0"

definition free_top_msg :: "mq_hdr \<Rightarrow> mq_hdr" where
  "free_top_msg h = h\<lparr>m_cur_num_msg := usz_sub (m_cur_num_msg h) 1\<rparr>"

section \<open>The circular index\<close>

definition end_pos :: "mq_hdr \<Rightarrow> nat" where
  "end_pos h =
     (let space_until_bufend = usz_sub (m_max_num_msg h) (m_cur_first_msg h)
      in if space_until_bufend > m_cur_num_msg h
         then usz_add (m_cur_first_msg h) (m_cur_num_msg h)
         else usz_sub (m_cur_num_msg h) space_until_bufend)"

definition top_msg_circ :: "mq_hdr \<Rightarrow> u64 option" where
  "top_msg_circ h =
     (let pos = end_pos h
      in arr_get (mp_index h) (if pos \<noteq> 0 then usz_sub pos 1 else usz_sub (m_max_num_msg h) 1))"

definition bottom_msg_circ :: "mq_hdr \<Rightarrow> u64 option" where
  "bottom_msg_circ h = arr_get (mp_index h) (m_cur_first_msg h)"

definition inserted_ptr_begin_circ :: "mq_hdr \<Rightarrow> nat" where
  "inserted_ptr_begin_circ h = m_cur_first_msg h"

definition inserted_ptr_end_circ :: "mq_hdr \<Rightarrow> nat" where
  "inserted_ptr_end_circ h = end_pos h"

text \<open>\<open>index_less h value i\<close> compares the message of slot \<open>i\<close> with the searched header.\<close>

definition index_less :: "mq_hdr \<Rightarrow> msg_hdr \<Rightarrow> nat \<Rightarrow> bool option" where
  "index_less h value i =
     do { a \<leftarrow> arr_get (mp_index h) i; m \<leftarrow> messages h a; Some (priority_functor m value) }"

definition lower_bound_circ :: "mq_hdr \<Rightarrow> msg_hdr \<Rightarrow> nat option" where
  "lower_bound_circ h value =
     (let b = inserted_ptr_begin_circ h; e = inserted_ptr_end_circ h
      in if e < b then
           let idx_end = m_max_num_msg h
           in do {
             ret \<leftarrow> std_lower_bound (index_less h value) b (idx_end - b);
             if idx_end = ret then
               do {
                 ret \<leftarrow> std_lower_bound (index_less h value) 0 e;
                 check (ret \<noteq> e);
                 check (ret \<noteq> b);
                 Some ret
               }
             else Some ret
           }
         else std_lower_bound (index_less h value) b (e - b))"

text \<open>
  The three ways \<^verbatim>\<open>insert_at\<close> makes room: at the front, at the back, and in the middle,
  where it moves the shorter side. \<open>insert_move_front\<close> and \<open>insert_move_back\<close> are the two
  inner branches.
\<close>

definition dec_first :: "mq_hdr \<Rightarrow> nat" where
  "dec_first h =
     usz_sub (if m_cur_first_msg h \<noteq> 0 then m_cur_first_msg h else m_max_num_msg h) 1"

definition insert_move_front :: "mq_hdr \<Rightarrow> nat \<Rightarrow> nat \<Rightarrow> (mq_hdr \<times> u64) option" where
  "insert_move_front h pos0 where0 =
     (let mx = m_max_num_msg h; first = m_cur_first_msg h;
          pos = (if pos0 = 0 then mx else pos0);
          whr = (if pos0 = 0 then usz_sub mx 1 else where0 - 1);
          unique_segment = (first \<noteq> 0 \<and> first \<le> pos);
          first_segment_beg = (if unique_segment then first else 1);
          first_segment_end = pos;
          second_segment_beg = (if unique_segment \<or> first = 0 then mx else first);
          second_segment_end = mx
      in do {
        backup \<leftarrow> arr_get (mp_index h)
          (usz_sub (if unique_segment then first_segment_beg else second_segment_beg) 1);
        idx1 \<leftarrow> (if \<not> unique_segment
                then do {
                  i1 \<leftarrow> std_copy (mp_index h) second_segment_beg second_segment_end
                         (usz_sub second_segment_beg 1);
                  x \<leftarrow> arr_get i1 0;
                  arr_set i1 (usz_sub mx 1) x
                }
                else Some (mp_index h));
        idx2 \<leftarrow> std_copy idx1 first_segment_beg first_segment_end (usz_sub first_segment_beg 1);
        idx3 \<leftarrow> arr_set idx2 whr backup;
        let h' = h\<lparr>mp_index := idx3, m_cur_first_msg := dec_first h,
                   m_cur_num_msg := usz_add (m_cur_num_msg h) 1\<rparr>;
        a \<leftarrow> arr_get idx3 whr;
        Some (h', a)
      })"

definition insert_move_back :: "mq_hdr \<Rightarrow> nat \<Rightarrow> nat \<Rightarrow> (mq_hdr \<times> u64) option" where
  "insert_move_back h pos whr =
     (let mx = m_max_num_msg h;
          pos_end = end_pos h;
          unique_segment = (pos < pos_end);
          first_segment_beg = pos;
          first_segment_end = (if unique_segment then pos_end else usz_sub mx 1);
          second_segment_beg = 0;
          second_segment_end = (if unique_segment then 0 else pos_end)
      in do {
        backup \<leftarrow> arr_get (mp_index h) (inserted_ptr_end_circ h);
        idx1 \<leftarrow> (if \<not> unique_segment
                then do {
                  i1 \<leftarrow> std_copy_backward (mp_index h) second_segment_beg second_segment_end
                         (second_segment_end + 1);
                  x \<leftarrow> arr_get i1 (usz_sub mx 1);
                  arr_set i1 0 x
                }
                else Some (mp_index h));
        idx2 \<leftarrow> std_copy_backward idx1 first_segment_beg first_segment_end (first_segment_end + 1);
        idx3 \<leftarrow> arr_set idx2 whr backup;
        let h' = h\<lparr>mp_index := idx3, m_cur_num_msg := usz_add (m_cur_num_msg h) 1\<rparr>;
        a \<leftarrow> arr_get idx3 whr;
        Some (h', a)
      })"

definition insert_at_circ :: "mq_hdr \<Rightarrow> nat \<Rightarrow> (mq_hdr \<times> u64) option" where
  "insert_at_circ h whr =
     (let it_inserted_ptr_end = inserted_ptr_end_circ h;
          it_inserted_ptr_beg = inserted_ptr_begin_circ h
      in if whr = it_inserted_ptr_beg then
           let h' = h\<lparr>m_cur_first_msg := dec_first h,
                      m_cur_num_msg := usz_add (m_cur_num_msg h) 1\<rparr>
           in do { a \<leftarrow> arr_get (mp_index h') (m_cur_first_msg h'); Some (h', a) }
         else if whr = it_inserted_ptr_end then
           do {
             a \<leftarrow> arr_get (mp_index h) it_inserted_ptr_end;
             Some (h\<lparr>m_cur_num_msg := usz_add (m_cur_num_msg h) 1\<rparr>, a)
           }
         else
           let pos = whr;
               circ_pos = (if pos \<ge> m_cur_first_msg h then usz_sub pos (m_cur_first_msg h)
                           else usz_add pos (usz_sub (m_max_num_msg h) (m_cur_first_msg h)))
           in if circ_pos < m_cur_num_msg h div 2
              then insert_move_front h pos whr
              else insert_move_back h pos whr)"

section \<open>The linear index\<close>

definition top_msg_lin :: "mq_hdr \<Rightarrow> u64 option" where
  "top_msg_lin h = arr_get (mp_index h) (usz_sub (m_cur_num_msg h) 1)"

definition bottom_msg_lin :: "mq_hdr \<Rightarrow> u64 option" where
  "bottom_msg_lin h = arr_get (mp_index h) 0"

definition inserted_ptr_begin_lin :: "mq_hdr \<Rightarrow> nat" where
  "inserted_ptr_begin_lin h = 0"

definition inserted_ptr_end_lin :: "mq_hdr \<Rightarrow> nat" where
  "inserted_ptr_end_lin h = m_cur_num_msg h"

definition lower_bound_lin :: "mq_hdr \<Rightarrow> msg_hdr \<Rightarrow> nat option" where
  "lower_bound_lin h value =
     std_lower_bound (index_less h value) (inserted_ptr_begin_lin h)
       (inserted_ptr_end_lin h - inserted_ptr_begin_lin h)"

definition insert_at_lin :: "mq_hdr \<Rightarrow> nat \<Rightarrow> (mq_hdr \<times> u64) option" where
  "insert_at_lin h pos =
     do {
       backup \<leftarrow> arr_get (mp_index h) (inserted_ptr_end_lin h);
       idx1 \<leftarrow> std_copy_backward (mp_index h) pos (inserted_ptr_end_lin h)
                (inserted_ptr_end_lin h + 1);
       idx2 \<leftarrow> arr_set idx1 pos backup;
       a \<leftarrow> arr_get idx2 pos;
       Some (h\<lparr>mp_index := idx2, m_cur_num_msg := usz_add (m_cur_num_msg h) 1\<rparr>, a)
     }"

section \<open>Selection of the build, and queue_free_msg\<close>

text \<open>
  The operations that exist once per build, as the record the shared code calls them
  through: \<open>circular_build\<close> when the macro is defined, \<open>linear_build\<close> when it is not.
\<close>

record mq_build =
  circular_index :: bool
  top_msg :: "mq_hdr \<Rightarrow> u64 option"
  bottom_msg :: "mq_hdr \<Rightarrow> u64 option"
  inserted_ptr_begin :: "mq_hdr \<Rightarrow> nat"
  inserted_ptr_end :: "mq_hdr \<Rightarrow> nat"
  lower_bound :: "mq_hdr \<Rightarrow> msg_hdr \<Rightarrow> nat option"
  insert_at :: "mq_hdr \<Rightarrow> nat \<Rightarrow> (mq_hdr \<times> u64) option"

definition circular_build :: mq_build where
  "circular_build =
     \<lparr>circular_index = True, top_msg = top_msg_circ, bottom_msg = bottom_msg_circ,
      inserted_ptr_begin = inserted_ptr_begin_circ, inserted_ptr_end = inserted_ptr_end_circ,
      lower_bound = lower_bound_circ, insert_at = insert_at_circ\<rparr>"

definition linear_build :: mq_build where
  "linear_build =
     \<lparr>circular_index = False, top_msg = top_msg_lin, bottom_msg = bottom_msg_lin,
      inserted_ptr_begin = inserted_ptr_begin_lin, inserted_ptr_end = inserted_ptr_end_lin,
      lower_bound = lower_bound_lin, insert_at = insert_at_lin\<rparr>"

text \<open>The header built on the stack for the search; only its priority is set and read.\<close>

definition dummy_hdr :: "u32 \<Rightarrow> msg_hdr" where
  "dummy_hdr p = \<lparr>msg_len = 0, msg_priority = p, msg_data = []\<rparr>"

definition deref :: "mq_hdr \<Rightarrow> u64 option \<Rightarrow> msg_hdr option" where
  "deref h p = do { a \<leftarrow> p; messages h a }"

definition insert_position :: "mq_build \<Rightarrow> u32 \<Rightarrow> mq_hdr \<Rightarrow> nat option" where
  "insert_position bld p h =
     (let it = inserted_ptr_begin bld h; it_end = inserted_ptr_end bld h
      in if m_cur_num_msg h \<noteq> 0 then
           do {
             bottom \<leftarrow> deref h (bottom_msg bld h);
             if p > msg_priority bottom then
               do {
                 top \<leftarrow> deref h (top_msg bld h);
                 if p > msg_priority top then Some it_end
                 else lower_bound bld h (dummy_hdr p)
               }
             else Some it
           }
         else Some it)"

definition queue_free_msg :: "mq_build \<Rightarrow> u32 \<Rightarrow> mq_hdr \<Rightarrow> (mq_hdr \<times> u64) option" where
  "queue_free_msg bld p h = do { it \<leftarrow> insert_position bld p h; insert_at bld h it }"

end
