(* ===== verification/Mq_Index.thy ===== *)
theory Mq_Index
  imports Mq_Header
begin

text \<open>
  The contract of the message index: what \<^verbatim>\<open>queue_free_msg\<close>, \<^verbatim>\<open>do_send\<close> and \<^verbatim>\<open>do_receive\<close>
  rely on, for either build. \<open>live h\<close> is the list of pointers to inserted messages in
  ascending order of their place in the queue, so that its last element is received next.
  The linear and the circular index are shown to keep the contract in
  \<open>Mq_Linear\<close> and \<open>Mq_Circular\<close>; the lemmas about \<open>queue_free_msg\<close> are proved here once.
\<close>

section \<open>Fields an index operation leaves alone\<close>

definition same_frame :: "mq_hdr \<Rightarrow> mq_hdr \<Rightarrow> bool" where
  "same_frame h h' \<longleftrightarrow>
     m_max_num_msg h' = m_max_num_msg h \<and> m_max_msg_size h' = m_max_msg_size h \<and>
     m_blocked_senders h' = m_blocked_senders h \<and>
     m_blocked_receivers h' = m_blocked_receivers h \<and>
     messages h' = messages h \<and> set (mp_index h') = set (mp_index h)"

definition prio_of :: "mq_hdr \<Rightarrow> u64 \<Rightarrow> u32" where
  "prio_of h a = (case messages h a of None \<Rightarrow> 0 | Some m \<Rightarrow> msg_priority m)"

text \<open>The place a message of priority \<open>p\<close> takes: after all messages of lower priority.\<close>

definition rank_of :: "(mq_hdr \<Rightarrow> u64 list) \<Rightarrow> u32 \<Rightarrow> mq_hdr \<Rightarrow> nat" where
  "rank_of live p h = length (takeWhile (\<lambda>a. prio_of h a < p) (live h))"

definition live_sorted :: "(mq_hdr \<Rightarrow> u64 list) \<Rightarrow> mq_hdr \<Rightarrow> bool" where
  "live_sorted live h \<longleftrightarrow>
     set (live h) \<subseteq> dom (messages h) \<and> sorted (map (prio_of h) (live h))"

lemma takeWhile_less_sorted:
  fixes f :: "'a \<Rightarrow> 'b::linorder"
  assumes "sorted (map f xs)" and "i < length xs"
  shows "f (xs ! i) < p \<longleftrightarrow> i < length (takeWhile (\<lambda>x. f x < p) xs)"
proof
  assume "i < length (takeWhile (\<lambda>x. f x < p) xs)"
  then show "f (xs ! i) < p"
    by (metis nth_mem set_takeWhileD takeWhile_nth)
next
  assume less: "f (xs ! i) < p"
  show "i < length (takeWhile (\<lambda>x. f x < p) xs)"
  proof (rule ccontr)
    let ?k = "length (takeWhile (\<lambda>x. f x < p) xs)"
    assume "\<not> i < ?k"
    with assms(2) have k: "?k \<le> i" "?k < length xs" by auto
    then have "\<not> f (xs ! ?k) < p" by (auto dest: nth_length_takeWhile)
    moreover have "f (xs ! ?k) \<le> f (xs ! i)"
      using assms k sorted_nth_mono [OF assms(1), of ?k i] by simp
    ultimately show False using less by simp
  qed
qed

section \<open>The contract\<close>

locale message_index =
  fixes bld :: mq_build
    and live :: "mq_hdr \<Rightarrow> u64 list"
    and wf :: "mq_hdr \<Rightarrow> bool"
    and pos :: "mq_hdr \<Rightarrow> nat \<Rightarrow> nat"
  assumes length_live: "wf h \<Longrightarrow> length (live h) = m_cur_num_msg h"
    and cur_le_max: "wf h \<Longrightarrow> m_cur_num_msg h \<le> m_max_num_msg h"
    and length_index: "wf h \<Longrightarrow> length (mp_index h) = m_max_num_msg h"
    and live_index: "wf h \<Longrightarrow> distinct (live h) \<and> set (live h) \<subseteq> set (mp_index h)"
    and top_last: "wf h \<Longrightarrow> live h \<noteq> [] \<Longrightarrow> top_msg bld h = Some (last (live h))"
    and bottom_hd: "wf h \<Longrightarrow> live h \<noteq> [] \<Longrightarrow> bottom_msg bld h = Some (hd (live h))"
    and begin_at: "wf h \<Longrightarrow> inserted_ptr_begin bld h = pos h 0"
    and end_at: "wf h \<Longrightarrow> inserted_ptr_end bld h = pos h (length (live h))"
    and search: "wf h \<Longrightarrow> m_cur_num_msg h < m_max_num_msg h \<Longrightarrow> k < length (live h) \<Longrightarrow>
      (\<And>i. i < length (live h) \<Longrightarrow>
        \<exists>m. messages h (live h ! i) = Some m \<and> (priority_functor m v \<longleftrightarrow> i < k)) \<Longrightarrow>
      lower_bound bld h v = Some (pos h k)"
    and insert: "wf h \<Longrightarrow> m_cur_num_msg h < m_max_num_msg h \<Longrightarrow> j \<le> length (live h) \<Longrightarrow>
      \<exists>h' a. insert_at bld h (pos h j) = Some (h', a) \<and> wf h' \<and> same_frame h h' \<and>
        a \<in> set (mp_index h) - set (live h) \<and> live h' = insert_nth j a (live h)"
    and free_top: "wf h \<Longrightarrow> live h \<noteq> [] \<Longrightarrow>
      wf (free_top_msg h) \<and> live (free_top_msg h) = butlast (live h)"
    and frame: "wf (h\<lparr>messages := ms, m_blocked_senders := bs, m_blocked_receivers := br\<rparr>) = wf h"
      "live (h\<lparr>messages := ms, m_blocked_senders := bs, m_blocked_receivers := br\<rparr>) = live h"
begin

lemma rank_le: "rank_of live p h \<le> length (live h)"
  by (simp add: rank_of_def length_takeWhile_le)

lemma rank_split:
  assumes "live_sorted live h" and "i < length (live h)"
  shows "prio_of h (live h ! i) < p \<longleftrightarrow> i < rank_of live p h"
  using assms takeWhile_less_sorted [of "prio_of h" "live h" i p]
  by (simp add: live_sorted_def rank_of_def)

lemma live_message:
  assumes "live_sorted live h" and "a \<in> set (live h)"
  obtains m where "messages h a = Some m" and "prio_of h a = msg_priority m"
  using assms by (force simp: live_sorted_def prio_of_def)

text \<open>The search of \<open>queue_free_msg\<close> never fails and finds the rank of the priority.\<close>

lemma search_rank:
  assumes wf: "wf h" and srt: "live_sorted live h" and room: "m_cur_num_msg h < m_max_num_msg h"
    and inside: "rank_of live p h < length (live h)"
  shows "lower_bound bld h (dummy_hdr p) = Some (pos h (rank_of live p h))"
proof (rule search [OF wf room inside])
  fix i
  assume i: "i < length (live h)"
  then obtain m where "messages h (live h ! i) = Some m" and "prio_of h (live h ! i) = msg_priority m"
    using live_message [OF srt, of "live h ! i"] by auto
  then show "\<exists>m. messages h (live h ! i) = Some m \<and>
      (priority_functor m (dummy_hdr p) \<longleftrightarrow> i < rank_of live p h)"
    using rank_split [OF srt i, of p] by (simp add: priority_functor_def dummy_hdr_def)
qed

lemma insert_position_rank:
  assumes wf: "wf h" and srt: "live_sorted live h" and room: "m_cur_num_msg h < m_max_num_msg h"
  shows "insert_position bld p h = Some (pos h (rank_of live p h))"
proof (cases "live h = []")
  case True
  then have "rank_of live p h = 0" by (simp add: rank_of_def)
  with True wf show ?thesis
    using length_live [OF wf] begin_at [OF wf] by (simp add: insert_position_def)
next
  case False
  let ?n = "length (live h)"
  have n: "0 < ?n" using False by simp
  then have "m_cur_num_msg h \<noteq> 0" using length_live [OF wf] by simp
  note n = n this
  have hd: "hd (live h) = live h ! 0" and last: "last (live h) = live h ! (?n - 1)"
    using False by (simp_all add: hd_conv_nth last_conv_nth)
  obtain mb where mb: "messages h (hd (live h)) = Some mb"
      and pb: "prio_of h (live h ! 0) = msg_priority mb"
    using live_message [OF srt, of "hd (live h)"] False hd by force
  obtain mt where mt: "messages h (last (live h)) = Some mt"
      and pt: "prio_of h (live h ! (?n - 1)) = msg_priority mt"
    using live_message [OF srt, of "last (live h)"] False last by force
  have bottom: "deref h (bottom_msg bld h) = Some mb"
    using bottom_hd [OF wf False] mb by (simp add: deref_def)
  have top: "deref h (top_msg bld h) = Some mt"
    using top_last [OF wf False] mt by (simp add: deref_def)
  have r0: "msg_priority mb < p \<longleftrightarrow> 0 < rank_of live p h"
    using rank_split [OF srt, of 0 p] n pb by simp
  have rn: "msg_priority mt < p \<longleftrightarrow> rank_of live p h = ?n"
    using rank_split [OF srt, of "?n - 1" p] n pt rank_le [of p h] by auto
  show ?thesis
  proof (cases "msg_priority mb < p")
    case low: False
    with r0 n bottom begin_at [OF wf] show ?thesis by (simp add: insert_position_def)
  next
    case above: True
    show ?thesis
    proof (cases "msg_priority mt < p")
      case True
      with above rn n bottom top end_at [OF wf] show ?thesis by (simp add: insert_position_def)
    next
      case False
      then have "rank_of live p h < ?n" using rn rank_le [of p h] by linarith
      note found = search_rank [OF wf srt room this]
      from found False above n bottom top show ?thesis by (simp add: insert_position_def)
    qed
  qed
qed

text \<open>Hence \<open>queue_free_msg\<close> inserts a free message at its rank.\<close>

lemma queue_free_msg_inserts:
  assumes wf: "wf h" and srt: "live_sorted live h" and room: "m_cur_num_msg h < m_max_num_msg h"
  obtains h' a where "queue_free_msg bld p h = Some (h', a)" and "wf h'" and "same_frame h h'"
    and "a \<in> set (mp_index h) - set (live h)"
    and "live h' = insert_nth (rank_of live p h) a (live h)"
  using insert [OF wf room rank_le [of p h]] insert_position_rank [OF wf srt room, of p]
  by (auto simp: queue_free_msg_def)

end

end
