(* ===== verification/Mq_Linear.thy ===== *)
theory Mq_Linear
  imports Mq_Index
begin

text \<open>
  The index without \<^verbatim>\<open>BOOST_INTERPROCESS_MSG_QUEUE_CIRCULAR_INDEX\<close> keeps the contract of
  \<open>Mq_Index\<close>: the first \<^verbatim>\<open>m_cur_num_msg\<close> slots hold the inserted messages.
\<close>

definition live_lin :: "mq_hdr \<Rightarrow> u64 list" where
  "live_lin h = take (m_cur_num_msg h) (mp_index h)"

definition wf_lin :: "mq_hdr \<Rightarrow> bool" where
  "wf_lin h \<longleftrightarrow>
     length (mp_index h) = m_max_num_msg h \<and> m_max_num_msg h < 2 ^ 64 \<and>
     m_cur_num_msg h \<le> m_max_num_msg h \<and> distinct (mp_index h)"

definition pos_lin :: "mq_hdr \<Rightarrow> nat \<Rightarrow> nat" where
  "pos_lin h j = j"

lemma wf_linD:
  assumes "wf_lin h"
  shows "length (mp_index h) = m_max_num_msg h" "m_max_num_msg h < 2 ^ 64"
    "m_cur_num_msg h \<le> m_max_num_msg h" "distinct (mp_index h)"
    "length (live_lin h) = m_cur_num_msg h"
  using assms by (simp_all add: wf_lin_def live_lin_def)

lemma lower_bound_lin_finds:
  assumes wf: "wf_lin h" and k: "k < length (live_lin h)"
    and part: "\<And>i. i < length (live_lin h) \<Longrightarrow>
      \<exists>m. messages h (live_lin h ! i) = Some m \<and> (priority_functor m v \<longleftrightarrow> i < k)"
  shows "lower_bound_lin h v = Some k"
proof -
  note wfD = wf_linD [OF wf]
  have "index_less h v i = Some (i < k)" if i: "i < m_cur_num_msg h" for i
  proof -
    from i part [of i] wfD obtain m where "messages h (live_lin h ! i) = Some m"
        and "priority_functor m v \<longleftrightarrow> i < k" by auto
    with i wfD show ?thesis by (simp add: index_less_def live_lin_def)
  qed
  with k wfD show ?thesis
    unfolding lower_bound_lin_def inserted_ptr_begin_lin_def inserted_ptr_end_lin_def
    by (intro std_lower_bound_eq) simp_all
qed

text \<open>
  The index after an insertion at \<open>j\<close>: the free pointer of slot \<open>n\<close> moves to slot \<open>j\<close> and the
  slots from \<open>j\<close> to \<open>n\<close> move up by one.
\<close>

lemma move_up_eq:
  assumes "j \<le> n" and "n < length xs"
  shows "(shift_right xs j n (n + 1))[j := xs ! n] = insert_nth j (xs ! n) (take n xs) @ drop (Suc n) xs"
  using assms
  by (intro nth_equalityI)
    (auto simp: nth_list_update nth_shift_right nth_append nth_insert_nth Suc_diff_le)

lemma insert_at_lin_inserts:
  assumes wf: "wf_lin h" and room: "m_cur_num_msg h < m_max_num_msg h" and j: "j \<le> m_cur_num_msg h"
  defines "a \<equiv> mp_index h ! m_cur_num_msg h"
    and "xs \<equiv> insert_nth j (mp_index h ! m_cur_num_msg h) (live_lin h) @
      drop (Suc (m_cur_num_msg h)) (mp_index h)"
  shows "insert_at_lin h j = Some (h\<lparr>mp_index := xs, m_cur_num_msg := Suc (m_cur_num_msg h)\<rparr>, a)"
proof -
  note wfD = wf_linD [OF wf]
  let ?n = "m_cur_num_msg h"
  have n: "?n < length (mp_index h)" using wfD room by simp
  have "xs ! j = a"
    using j n wfD by (simp add: xs_def a_def nth_append nth_insert_nth)
  moreover have "length xs = length (mp_index h)"
    using n wfD by (simp add: xs_def)
  ultimately show ?thesis
    using n j wfD room move_up_eq [OF j n]
    by (simp add: insert_at_lin_def inserted_ptr_end_lin_def std_simps a_def xs_def live_lin_def)
qed

lemma set_insert_lin:
  assumes "n < length xs"
  shows "set (insert_nth j (xs ! n) (take n xs) @ drop (Suc n) xs) = set xs"
    and "distinct xs \<Longrightarrow> distinct (insert_nth j (xs ! n) (take n xs) @ drop (Suc n) xs)"
proof -
  have split: "xs = take n xs @ xs ! n # drop (Suc n) xs"
    using assms by (rule id_take_nth_drop)
  have "set xs = set (take n xs) \<union> {xs ! n} \<union> set (drop (Suc n) xs)"
    by (subst split) simp
  then show set: "set (insert_nth j (xs ! n) (take n xs) @ drop (Suc n) xs) = set xs"
    by auto
  assume "distinct xs"
  moreover have "length (insert_nth j (xs ! n) (take n xs) @ drop (Suc n) xs) = length xs"
    using assms by simp
  ultimately show "distinct (insert_nth j (xs ! n) (take n xs) @ drop (Suc n) xs)"
    by (metis set card_distinct distinct_card)
qed

lemma free_slot_lin:
  assumes "distinct xs" and "n < length xs"
  shows "xs ! n \<in> set xs - set (take n xs)"
  using assms by (auto simp: in_set_conv_nth nth_eq_iff_index_eq)

interpretation lin: message_index linear_build live_lin wf_lin pos_lin
proof (unfold_locales, goal_cases)
  case (4 h)
  then show ?case by (auto simp: wf_lin_def live_lin_def dest: in_set_takeD)
next
  case (5 h)
  then show ?case
    using wf_linD [OF 5(1)]
    by (auto simp: linear_build_def top_msg_lin_def live_lin_def last_conv_nth)
next
  case (6 h)
  then show ?case
    using wf_linD [OF 6(1)]
    by (auto simp: linear_build_def bottom_msg_lin_def live_lin_def hd_conv_nth)
next
  case (9 h k v)
  then show ?case
    by (simp add: linear_build_def pos_lin_def lower_bound_lin_finds)
next
  case (10 h j)
  note wfD = wf_linD [OF 10(1)]
  from 10(2) wfD have n: "m_cur_num_msg h < length (mp_index h)" by simp
  from insert_at_lin_inserts [OF 10(1,2), of j] 10(3) wfD 
  have "insert_at linear_build h (pos_lin h j) = Some (h\<lparr>mp_index :=
      insert_nth j (mp_index h ! m_cur_num_msg h) (live_lin h) @
      drop (Suc (m_cur_num_msg h)) (mp_index h), m_cur_num_msg := Suc (m_cur_num_msg h)\<rparr>,
      mp_index h ! m_cur_num_msg h)"
    by (simp add: linear_build_def pos_lin_def)
  then show ?case
    using set_insert_lin [OF n, of j] free_slot_lin [OF _ n] wfD 10(2)
    by (auto simp: same_frame_def wf_lin_def live_lin_def)
next
  case (11 h)
  note wfD = wf_linD [OF 11(1)]
  from 11(2) have "0 < length (live_lin h)" by simp
  with wfD show ?case
    by (auto simp: wf_lin_def live_lin_def free_top_msg_def butlast_take)
qed (auto simp: wf_lin_def live_lin_def linear_build_def pos_lin_def
    inserted_ptr_begin_lin_def inserted_ptr_end_lin_def)

end
