(* ===== verification/Mq_Circular.thy ===== *)
theory Mq_Circular
  imports Mq_Linear
begin

text \<open>
  The circular index (\<^verbatim>\<open>BOOST_INTERPROCESS_MSG_QUEUE_CIRCULAR_INDEX\<close> defined) keeps the
  contract of \<open>Mq_Index\<close>. Its slots form a ring that starts at \<^verbatim>\<open>m_cur_first_msg\<close>:
  \<open>ring h\<close> is the index read from there on, its first \<^verbatim>\<open>m_cur_num_msg\<close> elements are the
  inserted messages, and \<open>pos_circ h j\<close> is the slot of its \<open>j\<close>-th element.
\<close>

definition ring :: "mq_hdr \<Rightarrow> u64 list" where
  "ring h = rotate (m_cur_first_msg h) (mp_index h)"

definition live_circ :: "mq_hdr \<Rightarrow> u64 list" where
  "live_circ h = take (m_cur_num_msg h) (ring h)"

definition wf_circ :: "mq_hdr \<Rightarrow> bool" where
  "wf_circ h \<longleftrightarrow>
     length (mp_index h) = m_max_num_msg h \<and> m_max_num_msg h < 2 ^ 64 \<and>
     m_cur_num_msg h \<le> m_max_num_msg h \<and> distinct (mp_index h) \<and>
     (m_cur_first_msg h < m_max_num_msg h \<or> m_max_num_msg h = 0 \<and> m_cur_first_msg h = 0)"

definition pos_circ :: "mq_hdr \<Rightarrow> nat \<Rightarrow> nat" where
  "pos_circ h j =
     (if m_cur_first_msg h + j < m_max_num_msg h then m_cur_first_msg h + j
      else m_cur_first_msg h + j - m_max_num_msg h)"

lemma wf_circD:
  assumes "wf_circ h"
  shows "length (mp_index h) = m_max_num_msg h" "m_max_num_msg h < 2 ^ 64"
    "m_cur_num_msg h \<le> m_max_num_msg h" "distinct (mp_index h)"
    "m_cur_first_msg h \<le> m_max_num_msg h" "0 < m_max_num_msg h \<Longrightarrow> m_cur_first_msg h < m_max_num_msg h"
    "length (ring h) = m_max_num_msg h" "length (live_circ h) = m_cur_num_msg h"
    "set (ring h) = set (mp_index h)" "distinct (ring h)"
  using assms by (auto simp: wf_circ_def live_circ_def ring_def)

lemma cur_pos_circ: "wf_circ h \<Longrightarrow> live_circ h \<noteq> [] \<Longrightarrow> 0 < m_cur_num_msg h"
  by (auto simp: live_circ_def)

lemma nth_ring:
  assumes "wf_circ h" and "k < m_max_num_msg h"
  shows "ring h ! k = mp_index h ! pos_circ h k"
  using assms wf_circD [OF assms(1)] by (simp add: ring_def pos_circ_def nth_rotate_if)

lemma nth_live_circ:
  assumes "wf_circ h" and "k < m_cur_num_msg h"
  shows "live_circ h ! k = mp_index h ! pos_circ h k"
  using assms wf_circD [OF assms(1)] by (simp add: live_circ_def nth_ring)

lemma pos_circ_less:
  assumes "wf_circ h" and "0 < m_max_num_msg h" and "k \<le> m_max_num_msg h"
  shows "pos_circ h k < m_max_num_msg h"
  using assms wf_circD [OF assms(1)] by (auto simp: pos_circ_def)

lemma pos_circ_inj:
  assumes "wf_circ h" and "j < m_max_num_msg h" and "k < m_max_num_msg h"
  shows "pos_circ h j = pos_circ h k \<longleftrightarrow> j = k"
  using assms wf_circD [OF assms(1)] by (auto simp: pos_circ_def)

lemma end_pos_eq:
  assumes "wf_circ h"
  shows "end_pos h = pos_circ h (m_cur_num_msg h)"
proof (cases "m_cur_first_msg h + m_cur_num_msg h < m_max_num_msg h")
  case True
  then have "m_cur_num_msg h < m_max_num_msg h - m_cur_first_msg h" by simp
  with True wf_circD(2,5) [OF assms] show ?thesis
    by (simp add: end_pos_def pos_circ_def)
next
  case False
  then have "\<not> m_cur_num_msg h < m_max_num_msg h - m_cur_first_msg h" by simp
  with False wf_circD(2,5) [OF assms] show ?thesis
    by (simp add: end_pos_def pos_circ_def add.commute)
qed

lemma begin_circ_eq:
  assumes "wf_circ h"
  shows "inserted_ptr_begin_circ h = pos_circ h 0"
  using assms by (auto simp: inserted_ptr_begin_circ_def pos_circ_def wf_circ_def)

section \<open>The search over two segments\<close>

lemma lower_bound_circ_finds:
  assumes wf: "wf_circ h" and room: "m_cur_num_msg h < m_max_num_msg h"
    and k: "k < length (live_circ h)"
    and part: "\<And>i. i < length (live_circ h) \<Longrightarrow>
      \<exists>m. messages h (live_circ h ! i) = Some m \<and> (priority_functor m v \<longleftrightarrow> i < k)"
  shows "lower_bound_circ h v = Some (pos_circ h k)"
proof -
  note wfD = wf_circD [OF wf]
  let ?n = "m_cur_num_msg h" and ?mx = "m_max_num_msg h" and ?f = "m_cur_first_msg h"
  have less: "index_less h v (pos_circ h i) = Some (i < k)" if i: "i < ?n" for i
  proof -
    from i part [of i] wfD obtain m where "messages h (live_circ h ! i) = Some m"
        and "priority_functor m v \<longleftrightarrow> i < k" by auto
    with i wfD room pos_circ_less [OF wf, of i] show ?thesis
      by (simp add: index_less_def nth_live_circ [OF wf])
  qed
  have k: "k < ?n" and f: "?f < ?mx" using k room wfD by auto
  have low: "index_less h v i = Some (i < ?f + k)" if "?f \<le> i" "i < ?f + ?n" "i < ?mx" for i
    using less [of "i - ?f"] that by (auto simp: pos_circ_def)
  have high: "index_less h v i = Some (i + (?mx - ?f) < k)" if "i + (?mx - ?f) < ?n" for i
    using less [of "i + (?mx - ?f)"] that f by (auto simp: pos_circ_def)
  have e: "inserted_ptr_end_circ h = pos_circ h ?n"
    by (simp add: inserted_ptr_end_circ_def end_pos_eq [OF wf])
  have b: "inserted_ptr_begin_circ h = ?f" by (simp add: inserted_ptr_begin_circ_def)
  show ?thesis
  proof (cases "?f + ?n < ?mx")
    case True
    then have "std_lower_bound (index_less h v) ?f ?n = Some (?f + k)"
      using k low by (intro std_lower_bound_eq) auto
    with True k e b show ?thesis by (simp add: lower_bound_circ_def pos_circ_def)
  next
    case wrap: False
    then have e: "inserted_ptr_end_circ h = ?f + ?n - ?mx" "?f + ?n - ?mx < ?f"
      using e room f by (auto simp: pos_circ_def)
    show ?thesis
    proof (cases "?f + k < ?mx")
      case True
      have "std_lower_bound (index_less h v) ?f (?mx - ?f) = Some (?f + k)"
        using True wrap f low by (intro std_lower_bound_eq) auto
      with True e b show ?thesis by (simp add: lower_bound_circ_def pos_circ_def)
    next
      case False
      have first: "std_lower_bound (index_less h v) ?f (?mx - ?f) = Some ?mx"
        using False wrap f low by (intro std_lower_bound_eq) auto
      have second: "std_lower_bound (index_less h v) 0 (?f + ?n - ?mx) = Some (?f + k - ?mx)"
        using False wrap f k high by (intro std_lower_bound_eq) auto
      have "?f + k - ?mx \<noteq> ?f + ?n - ?mx" and "?f + k - ?mx \<noteq> ?f"
        using False k f room by auto
      with first second False e b show ?thesis by (simp add: lower_bound_circ_def pos_circ_def)
    qed
  qed
qed

section \<open>What the segment moves do to the index\<close>

lemma back_unique:
  assumes "p < e" and "e < length xs"
  shows "std_copy_backward xs p e (e + 1) = Some (shift_right xs p e (e + 1))"
    and "i < length xs \<Longrightarrow> (shift_right xs p e (e + 1))[p := xs ! e] ! i =
      (if i < p then xs ! i else if i = p then xs ! e else if i \<le> e then xs ! (i - 1) else xs ! i)"
  using assms by (auto simp: std_simps nth_list_update nth_shift_right Suc_diff_le)

lemma back_wrap:
  assumes e: "e < p" "p < length xs"
  defines "ys \<equiv> (shift_right xs 0 e (e + 1))[0 := xs ! (length xs - 1)]"
  shows "std_copy_backward xs 0 e (e + 1) = Some (shift_right xs 0 e (e + 1))"
    and "shift_right xs 0 e (e + 1) ! (length xs - 1) = xs ! (length xs - 1)"
    and "std_copy_backward ys p (length xs - 1) (length xs - 1 + 1)
      = Some (shift_right ys p (length xs - 1) (length xs - 1 + 1))"
    and "i < length xs \<Longrightarrow> (shift_right ys p (length xs - 1) (length xs - 1 + 1))[p := xs ! e] ! i =
      (if i = 0 then xs ! (length xs - 1) else if i \<le> e then xs ! (i - 1) else if i < p then xs ! i
       else if i = p then xs ! e else xs ! (i - 1))"
proof -
  show "std_copy_backward xs 0 e (e + 1) = Some (shift_right xs 0 e (e + 1))"
    using e by (simp add: std_simps)
  show "shift_right xs 0 e (e + 1) ! (length xs - 1) = xs ! (length xs - 1)"
    using e by (auto simp: nth_shift_right)
  show "std_copy_backward ys p (length xs - 1) (length xs - 1 + 1)
      = Some (shift_right ys p (length xs - 1) (length xs - 1 + 1))"
    using e by (simp add: std_simps ys_def)
  assume i: "i < length xs"
  have ys: "ys ! k = (if k = 0 then xs ! (length xs - 1) else if k \<le> e then xs ! (k - 1) else xs ! k)"
    if "k < length xs" for k
    using that e by (auto simp: ys_def nth_list_update nth_shift_right)
  have "(shift_right ys p (length xs - 1) (length xs - 1 + 1))[p := xs ! e] ! i =
      (if i = p then xs ! e else if p < i then ys ! (i - 1) else ys ! i)"
  proof -
    from e obtain n where n: "length xs = Suc n" by (cases xs) auto
    moreover have "length ys = length xs" by (simp add: ys_def)
    ultimately show ?thesis
      using e i by (auto simp: nth_list_update nth_shift_right)
  qed
  with e i show "(shift_right ys p (length xs - 1) (length xs - 1 + 1))[p := xs ! e] ! i =
      (if i = 0 then xs ! (length xs - 1) else if i \<le> e then xs ! (i - 1) else if i < p then xs ! i
       else if i = p then xs ! e else xs ! (i - 1))"
    by (auto simp: ys)
qed

lemma front_unique:
  assumes "0 < f" and "f \<le> p" and "p \<le> length xs"
  shows "std_copy xs f p (f - 1) = Some (shift_left xs f p (f - 1))"
    and "i < length xs \<Longrightarrow> (shift_left xs f p (f - 1))[p - 1 := xs ! (f - 1)] ! i =
      (if i < f - 1 then xs ! i else if i < p - 1 then xs ! (i + 1)
       else if i = p - 1 then xs ! (f - 1) else xs ! i)"
  using assms by (auto simp: std_simps nth_list_update nth_shift_left)

lemma front_wrap:
  assumes p: "0 < p" "p < s" "s \<le> length xs"
  defines "ys \<equiv> (shift_left xs s (length xs) (s - 1))[length xs - 1 := xs ! 0]"
  shows "std_copy xs s (length xs) (s - 1) = Some (shift_left xs s (length xs) (s - 1))"
    and "shift_left xs s (length xs) (s - 1) ! 0 = xs ! 0"
    and "std_copy ys 1 p 0 = Some (shift_left ys 1 p 0)"
    and "i < length xs \<Longrightarrow> (shift_left ys 1 p 0)[p - 1 := xs ! (s - 1)] ! i =
      (if i < p - 1 then xs ! (i + 1) else if i = p - 1 then xs ! (s - 1)
       else if i < s - 1 then xs ! i else if i < length xs - 1 then xs ! (i + 1) else xs ! 0)"
proof -
  show "std_copy xs s (length xs) (s - 1) = Some (shift_left xs s (length xs) (s - 1))"
    using p by (simp add: std_simps)
  show "shift_left xs s (length xs) (s - 1) ! 0 = xs ! 0"
    using p by (subst nth_shift_left) auto
  show "std_copy ys 1 p 0 = Some (shift_left ys 1 p 0)"
    using p by (simp add: std_simps ys_def)
  assume i: "i < length xs"
  have ys: "ys ! k = (if k = length xs - 1 then xs ! 0 else if s - 1 \<le> k then xs ! (k + 1) else xs ! k)"
    if "k < length xs" for k
    using that p by (auto simp: ys_def nth_list_update nth_shift_left)
  have "(shift_left ys 1 p 0)[p - 1 := xs ! (s - 1)] ! i =
      (if i = p - 1 then xs ! (s - 1) else if i < p - 1 then ys ! (i + 1) else ys ! i)"
    using p i by (auto simp: ys_def nth_list_update nth_shift_left)
  with p i show "(shift_left ys 1 p 0)[p - 1 := xs ! (s - 1)] ! i =
      (if i < p - 1 then xs ! (i + 1) else if i = p - 1 then xs ! (s - 1)
       else if i < s - 1 then xs ! i else if i < length xs - 1 then xs ! (i + 1) else xs ! 0)"
    by (auto simp: ys)
qed

section \<open>The moves in terms of the ring\<close>

lemma ringI:
  assumes "wf_circ h" and "length idx = m_max_num_msg h" and "length zs = m_max_num_msg h"
    and "\<And>k. k < m_max_num_msg h \<Longrightarrow> idx ! pos_circ h k = zs ! k"
  shows "rotate (m_cur_first_msg h) idx = zs"
proof (rule nth_equalityI)
  fix k
  assume "k < length (rotate (m_cur_first_msg h) idx)"
  then have k: "k < m_max_num_msg h" using assms(2) by simp
  then have "rotate (m_cur_first_msg h) idx ! k = idx ! pos_circ h k"
    using assms(2) wf_circD(5) [OF assms(1)] by (simp add: nth_rotate_if pos_circ_def)
  with assms(4) [OF k] show "rotate (m_cur_first_msg h) idx ! k = zs ! k" by simp
qed (use assms in simp)

lemma pos_circ_pred:
  assumes "wf_circ h" and "0 < k" and "k < m_max_num_msg h"
  shows "pos_circ h (k - 1) = (if pos_circ h k = 0 then m_max_num_msg h - 1 else pos_circ h k - 1)"
  using assms wf_circD(5,6) [OF assms(1)] by (auto simp: pos_circ_def)

text \<open>Where the slots before and after two places \<open>j < n\<close> of the ring lie.\<close>

lemma pos_circ_order:
  assumes "wf_circ h" and "j < n" and "n < m_max_num_msg h" and "k < m_max_num_msg h"
  shows "pos_circ h j < pos_circ h n \<Longrightarrow>
      pos_circ h j < pos_circ h k \<and> pos_circ h k \<le> pos_circ h n \<longleftrightarrow> j < k \<and> k \<le> n"
    and "pos_circ h n < pos_circ h j \<Longrightarrow>
      pos_circ h n < pos_circ h k \<and> pos_circ h k \<le> pos_circ h j \<longleftrightarrow> k \<le> j \<or> n < k"
  using assms by (auto simp: pos_circ_def split: if_splits)

text \<open>The ring with \<open>x\<close> inserted at \<open>j\<close> and the free slot \<open>n\<close> taken out.\<close>

definition ring_insert :: "nat \<Rightarrow> nat \<Rightarrow> 'a list \<Rightarrow> 'a list" where
  "ring_insert j n xs = insert_nth j (xs ! n) (take n xs) @ drop (Suc n) xs"

lemma nth_ring_insert:
  "j \<le> n \<Longrightarrow> n < length xs \<Longrightarrow> k < length xs \<Longrightarrow> ring_insert j n xs ! k =
     (if k < j then xs ! k else if k = j then xs ! n else if k \<le> n then xs ! (k - 1) else xs ! k)"
  by (auto simp: ring_insert_def nth_append nth_insert_nth)

lemma length_ring_insert [simp]: "n < length xs \<Longrightarrow> length (ring_insert j n xs) = length xs"
  by (simp add: ring_insert_def)

lemma nth_ring_insert_pos:
  assumes wf: "wf_circ h" and "m_cur_num_msg h < m_max_num_msg h" and "j < m_cur_num_msg h" and "k < m_max_num_msg h"
  shows "ring_insert j (m_cur_num_msg h) (ring h) ! k = (if k < j then mp_index h ! pos_circ h k
      else if k = j then mp_index h ! pos_circ h (m_cur_num_msg h)
      else if k \<le> m_cur_num_msg h then mp_index h ! pos_circ h (k - 1) else mp_index h ! pos_circ h k)"
  using assms wf_circD [OF wf] by (simp add: nth_ring_insert nth_ring [OF wf])

text \<open>Moving the back: the end is behind the position in the index, or before it and the ring wraps between them.\<close>

lemma back_ring_unique:
  assumes wf: "wf_circ h" and room: "m_cur_num_msg h < m_max_num_msg h" and j: "j < m_cur_num_msg h"
    and pe: "p = pos_circ h j" "e = pos_circ h (m_cur_num_msg h)" "p < e"
  shows "rotate (m_cur_first_msg h) ((shift_right (mp_index h) p e (e + 1))[p := mp_index h ! e]) =
    ring_insert j (m_cur_num_msg h) (ring h)"
    (is "rotate _ ?idx = _")
proof (rule ringI [OF wf])
  note wfD = wf_circD [OF wf] and order = pos_circ_order [OF wf j room]
  have "e < m_max_num_msg h" using pos_circ_less [OF wf] room by (simp add: pe(2))
  fix k
  assume k: "k < m_max_num_msg h"
  then have "pos_circ h k < length (mp_index h)" using wfD pos_circ_less [OF wf] by auto
  with pe(3) \<open>e < m_max_num_msg h\<close> wfD back_unique(2) [of p e "mp_index h" "pos_circ h k"]
  have "?idx ! pos_circ h k = (if pos_circ h k = p then mp_index h ! e
      else if p < pos_circ h k \<and> pos_circ h k \<le> e then mp_index h ! (pos_circ h k - 1)
      else mp_index h ! pos_circ h k)"
    by auto
  with pe j room k order(1) [OF k] pos_circ_pred [OF wf, of k] pos_circ_inj [OF wf, of k j]
  show "?idx ! pos_circ h k = ring_insert j (m_cur_num_msg h) (ring h) ! k"
    by (auto simp: nth_ring_insert_pos [OF wf room j])
qed (use wf_circD [OF wf] room in simp_all)

lemma back_ring_wrap:
  assumes wf: "wf_circ h" and room: "m_cur_num_msg h < m_max_num_msg h" and j: "j < m_cur_num_msg h"
    and pe: "p = pos_circ h j" "e = pos_circ h (m_cur_num_msg h)" "e < p"
    and xs: "xs = mp_index h" "ys = (shift_right xs 0 e (e + 1))[0 := xs ! (length xs - 1)]"
  shows "rotate (m_cur_first_msg h)
      ((shift_right ys p (length xs - 1) (length xs - 1 + 1))[p := xs ! e]) =
    ring_insert j (m_cur_num_msg h) (ring h)"
    (is "rotate _ ?idx = _")
proof (rule ringI [OF wf])
  note wfD = wf_circD [OF wf] and order = pos_circ_order [OF wf j room]
  have p: "p < m_max_num_msg h" using pos_circ_less [OF wf, of j] room j by (simp add: pe(1))
  fix k
  assume k: "k < m_max_num_msg h"
  then have "pos_circ h k < length xs" using wfD pos_circ_less [OF wf] by (auto simp: xs(1))
  with pe(3) p wfD back_wrap(4) [of e p xs "pos_circ h k"]
  have "?idx ! pos_circ h k = (if pos_circ h k = p then xs ! e
      else if e < pos_circ h k \<and> pos_circ h k \<le> p then xs ! pos_circ h k
      else if pos_circ h k = 0 then xs ! (m_max_num_msg h - 1) else xs ! (pos_circ h k - 1))"
    by (auto simp: xs)
  with pe j room k order(2) [OF k] pos_circ_pred [OF wf, of k] pos_circ_inj [OF wf, of k j] xs(1)
  show "?idx ! pos_circ h k = ring_insert j (m_cur_num_msg h) (ring h) ! k"
    by (auto simp: nth_ring_insert_pos [OF wf room j])
qed (use wf_circD [OF wf] room in \<open>simp_all add: xs\<close>)

lemma insert_move_back_ring:
  assumes wf: "wf_circ h" and room: "m_cur_num_msg h < m_max_num_msg h"
    and j: "j < m_cur_num_msg h"
  shows "\<exists>idx. insert_move_back h (pos_circ h j) (pos_circ h j) =
        Some (h\<lparr>mp_index := idx, m_cur_num_msg := Suc (m_cur_num_msg h)\<rparr>, ring h ! m_cur_num_msg h) \<and>
      length idx = m_max_num_msg h \<and>
      rotate (m_cur_first_msg h) idx = ring_insert j (m_cur_num_msg h) (ring h)"
proof -
  note wfD = wf_circD [OF wf]
  let ?xs = "mp_index h" and ?n = "m_cur_num_msg h" and ?mx = "m_max_num_msg h"
    and ?p = "pos_circ h j" and ?e = "pos_circ h (m_cur_num_msg h)"
  have e: "?e < ?mx" "?p < ?mx" "?e \<noteq> ?p"
    using pos_circ_less [OF wf] pos_circ_inj [OF wf, of j ?n] room j by auto
  have ringn: "ring h ! ?n = ?xs ! ?e" using room by (rule nth_ring [OF wf])
  show ?thesis
  proof (cases "?p < ?e")
    case True
    with back_ring_unique [OF wf room j refl refl True] e wfD room show ?thesis
      using back_unique(1) [of ?p ?e ?xs]
      by (intro exI [of _ "(shift_right ?xs ?p ?e (?e + 1))[?p := ?xs ! ?e]"])
        (simp add: insert_move_back_def end_pos_eq [OF wf] inserted_ptr_end_circ_def ringn Let_def)
  next
    case False
    with e have ep: "?e < ?p" by simp
    let ?ys = "(shift_right ?xs 0 ?e (?e + 1))[0 := ?xs ! (length ?xs - 1)]"
    from back_ring_wrap [OF wf room j refl refl ep refl refl] False ep e wfD room show ?thesis
      using back_wrap(1-3) [of ?e ?p ?xs]
      by (intro exI [of _ "(shift_right ?ys ?p (length ?xs - 1) (length ?xs - 1 + 1))[?p := ?xs ! ?e]"])
        (simp add: insert_move_back_def end_pos_eq [OF wf] inserted_ptr_end_circ_def ringn Let_def)
  qed
qed

text \<open>
  Moving the front: the ring starts one slot earlier. \<open>ring_back h\<close> is the unchanged
  index read from there.
\<close>

definition first_before :: "mq_hdr \<Rightarrow> nat" where
  "first_before h = (if m_cur_first_msg h = 0 then m_max_num_msg h - 1 else m_cur_first_msg h - 1)"

lemma dec_first_eq: "wf_circ h \<Longrightarrow> 0 < m_max_num_msg h \<Longrightarrow> dec_first h = first_before h"
  by (auto simp: dec_first_def first_before_def)

text \<open>
  The index after the front has moved, slot by slot: \<open>front_moved h j i\<close> is the content of
  slot \<open>i\<close> (the three forms are the arrays left by the one-segment and two-segment moves).
\<close>

definition front_moved :: "mq_hdr \<Rightarrow> nat \<Rightarrow> nat \<Rightarrow> u64" where
  "front_moved h j k =
     (if k < j - 1 then ring h ! (k + 1) else if k = j - 1 then ring h ! (m_max_num_msg h - 1)
      else if k = m_max_num_msg h - 1 then ring h ! 0 else ring h ! k)"

lemma front_moved_unique:
  assumes wf: "wf_circ h" and mx: "m_max_num_msg h = n" "m_cur_first_msg h = f" "mp_index h = xs"
    and j: "0 < j" "j < n - 1" and f: "0 < f" "f + j \<le> n" and k: "k < n"
  shows "(if pos_circ h k < f - 1 then xs ! pos_circ h k
      else if pos_circ h k < f + j - 1 then xs ! (pos_circ h k + 1)
      else if pos_circ h k = f + j - 1 then xs ! (f - 1) else xs ! pos_circ h k) = front_moved h j k"
proof -
  have r: "ring h ! i = xs ! (if f + i < n then f + i else f + i - n)" if "i < n" for i
    using that nth_ring [OF wf, of i] mx by (simp add: pos_circ_def)
  show ?thesis
  proof (cases "f + k < n")
    case True
    then have p: "pos_circ h k = f + k" using mx by (simp add: pos_circ_def)
    consider "k < j - 1" | "k = j - 1" | "j \<le> k" using k j by linarith
    then show ?thesis
    proof cases
      case 1
      then have "f + k < f + j - 1" "\<not> f + k < f - 1" "f + (k + 1) < n" "k + 1 < n" using f j by auto
      with 1 p r [of "k + 1"] show ?thesis by (simp add: front_moved_def)
    next
      case 2
      then have "\<not> f + (n - 1) < n" "f + (n - 1) - n = f - 1" "f + k = f + j - 1"
        "\<not> f + j - 1 < f - 1" using f j by auto
      with 2 p r [of "n - 1"] f j mx show ?thesis by (simp add: front_moved_def)
    next
      case 3
      then have "\<not> k < j - 1" "k \<noteq> j - 1" "k \<noteq> n - 1"
        "\<not> f + k < f + j - 1" "f + k \<noteq> f + j - 1" using True f j by auto
      with 3 True p r [of k] f j k mx show ?thesis by (simp add: front_moved_def)
    qed
  next
    case False
    then have p: "pos_circ h k = f + k - n" using mx by (simp add: pos_circ_def)
    have jk: "\<not> k < j - 1" "k \<noteq> j - 1" using False f j by auto
    show ?thesis
    proof (cases "k = n - 1")
      case True
      then have "f + k - n = f - 1" "f - 1 < f + j - 1" "f - 1 + 1 = f" using f j k by auto
      with True p jk r [of 0] f j k mx show ?thesis by (simp add: front_moved_def)
    next
      case last: False
      then have "f + k - n < f - 1" using k False by simp
      with last False p jk r [of k] k mx show ?thesis by (simp add: front_moved_def)
    qed
  qed
qed

lemma front_moved_zero:
  assumes wf: "wf_circ h" and mx: "m_max_num_msg h = n" "m_cur_first_msg h = 0" "mp_index h = xs"
    and j: "0 < j" "j < n - 1" and k: "k < n"
  shows "(if pos_circ h k < j - 1 then xs ! (pos_circ h k + 1)
      else if pos_circ h k = j - 1 then xs ! (n - 1) else if pos_circ h k < n - 1 then xs ! pos_circ h k
      else if pos_circ h k < n - 1 then xs ! (pos_circ h k + 1) else xs ! 0) = front_moved h j k"
proof -
  have r: "ring h ! i = xs ! i" if "i < n" for i
    using that nth_ring [OF wf, of i] mx by (simp add: pos_circ_def)
  have "pos_circ h k = k" using k mx by (simp add: pos_circ_def)
  with j k mx r show ?thesis by (auto simp: front_moved_def)
qed

lemma front_moved_wrap:
  assumes wf: "wf_circ h" and mx: "m_max_num_msg h = n" "m_cur_first_msg h = f" "mp_index h = xs"
    and j: "0 < j" "j < n - 1" and f: "f < n" "n < f + j" and k: "k < n"
  shows "(if pos_circ h k < f + j - n - 1 then xs ! (pos_circ h k + 1)
      else if pos_circ h k = f + j - n - 1 then xs ! (f - 1)
      else if pos_circ h k < f - 1 then xs ! pos_circ h k
      else if pos_circ h k < n - 1 then xs ! (pos_circ h k + 1) else xs ! 0) = front_moved h j k"
proof -
  have r: "ring h ! i = xs ! (if f + i < n then f + i else f + i - n)" if "i < n" for i
    using that nth_ring [OF wf, of i] mx by (simp add: pos_circ_def)
  show ?thesis
  proof (cases "f + k < n")
    case True
    then have "k < j - 1" using f by simp
    moreover have "f + (k + 1) < n \<or> f + (k + 1) = n" using True by linarith
    ultimately show ?thesis using True j f k mx r [of "k + 1"]
      by (auto simp: front_moved_def pos_circ_def)
  next
    case False
    then have p: "pos_circ h k = f + k - n" using mx by (simp add: pos_circ_def)
    consider "k < j - 1" | "k = j - 1" | "j \<le> k" "k < n - 1" | "k = n - 1" using k j by linarith
    then show ?thesis
    proof cases
      case 1
      then have "f + k - n < f + j - n - 1" "f + (k + 1) - n = f + k - n + 1" using False f j by auto
      with 1 p r [of "k + 1"] False j show ?thesis by (simp add: front_moved_def)
    next
      case 2
      then have "f + k - n = f + j - n - 1" "\<not> f + (n - 1) < n" "f + (n - 1) - n = f - 1"
        using False f j by auto
      with 2 p r [of "n - 1"] j mx show ?thesis by (simp add: front_moved_def)
    next
      case 3
      then have "\<not> f + k - n < f + j - n - 1" "f + k - n \<noteq> f + j - n - 1" "f + k - n < f - 1"
        "k \<noteq> j - 1" "\<not> k < j - 1" "k \<noteq> n - 1"
        using False f j by auto
      with 3 p r [of k] False j k mx show ?thesis by (simp add: front_moved_def)
    next
      case 4
      then have "\<not> f + k - n < f + j - n - 1" "f + k - n \<noteq> f + j - n - 1" "f + k - n = f - 1"
        "k \<noteq> j - 1" "\<not> k < j - 1" "\<not> f - 1 < f - 1" "f - 1 < n - 1" "f - 1 + 1 = f"
        using False f j by auto
      with 4 p r [of 0] f j mx show ?thesis by (simp only: front_moved_def if_True if_False) simp
    qed
  qed
qed

text \<open>
  Moving the front, by where the first message is: the messages before the position are in one piece, the first
  message is at the start of the index, or the ring wraps among them.
\<close>

lemma front_eval_unique:
  assumes wf: "wf_circ h" and room: "m_cur_num_msg h < m_max_num_msg h"
    and j: "0 < j" "j < m_cur_num_msg h" and f: "0 < m_cur_first_msg h" "m_cur_first_msg h + j \<le> m_max_num_msg h"
  shows "\<exists>idx. insert_move_front h (pos_circ h j) (pos_circ h j) =
        Some (h\<lparr>mp_index := idx, m_cur_first_msg := first_before h,
                m_cur_num_msg := Suc (m_cur_num_msg h)\<rparr>, mp_index h ! first_before h) \<and>
      length idx = m_max_num_msg h \<and>
      (\<forall>k < m_max_num_msg h. idx ! pos_circ h k = front_moved h j k)"
proof -
  note wfD = wf_circD [OF wf]
  let ?xs = "mp_index h" and ?n = "m_cur_num_msg h" and ?mx = "m_max_num_msg h"
    and ?f = "m_cur_first_msg h" and ?p = "pos_circ h j"
  have jm: "j < ?mx - 1" using room j wfD by auto
  have dec: "dec_first h = first_before h" using dec_first_eq [OF wf] room by simp
  have lt: "pos_circ h k < length ?xs" if "k < ?mx" for k
    using that pos_circ_less [OF wf] wfD by auto
  define P where "P = ?f + j"
  have P: "0 < ?f" "?f \<le> P" "P \<le> length ?xs" and p: "?p = 0 \<longleftrightarrow> P = ?mx" "P \<noteq> ?mx \<Longrightarrow> ?p = P"
    using f wfD by (auto simp: P_def pos_circ_def)
  let ?idx = "(shift_left ?xs ?f P (?f - 1))[P - 1 := ?xs ! (?f - 1)]"
  have "insert_move_front h ?p ?p = Some (h\<lparr>mp_index := ?idx, m_cur_first_msg := first_before h,
      m_cur_num_msg := Suc ?n\<rparr>, ?xs ! first_before h)"
    using front_unique(1) [OF P] P p wfD room dec
    by (cases "P = ?mx") (simp_all add: insert_move_front_def first_before_def Let_def)
  moreover have "?idx ! pos_circ h k = front_moved h j k" if "k < ?mx" for k
    using front_unique(2) [OF P lt [OF that]]
      front_moved_unique [OF wf refl refl refl j(1) jm f that] unfolding P_def by (rule trans)
  ultimately show ?thesis using wfD by (intro exI [of _ ?idx]) simp
qed

lemma front_eval_zero:
  assumes wf: "wf_circ h" and room: "m_cur_num_msg h < m_max_num_msg h"
    and j: "0 < j" "j < m_cur_num_msg h" and f: "m_cur_first_msg h = 0"
  shows "\<exists>idx. insert_move_front h (pos_circ h j) (pos_circ h j) =
        Some (h\<lparr>mp_index := idx, m_cur_first_msg := first_before h,
                m_cur_num_msg := Suc (m_cur_num_msg h)\<rparr>, mp_index h ! first_before h) \<and>
      length idx = m_max_num_msg h \<and>
      (\<forall>k < m_max_num_msg h. idx ! pos_circ h k = front_moved h j k)"
proof -
  note wfD = wf_circD [OF wf]
  let ?xs = "mp_index h" and ?n = "m_cur_num_msg h" and ?mx = "m_max_num_msg h"
    and ?f = "m_cur_first_msg h" and ?p = "pos_circ h j"
  have jm: "j < ?mx - 1" using room j wfD by auto
  have dec: "dec_first h = first_before h" using dec_first_eq [OF wf] room by simp
  have lt: "pos_circ h k < length ?xs" if "k < ?mx" for k
    using that pos_circ_less [OF wf] wfD by auto
  have p: "?p = j" using f j room by (simp add: pos_circ_def)
  have P: "0 < j" "j < ?mx" "?mx \<le> length ?xs" using j jm wfD by auto
  let ?ys = "(shift_left ?xs ?mx (length ?xs) (?mx - 1))[length ?xs - 1 := ?xs ! 0]"
  let ?idx = "(shift_left ?ys 1 j 0)[j - 1 := ?xs ! (?mx - 1)]"
  have "insert_move_front h ?p ?p = Some (h\<lparr>mp_index := ?idx, m_cur_first_msg := first_before h,
      m_cur_num_msg := Suc ?n\<rparr>, ?xs ! first_before h)"
    using front_wrap(1-3) [OF P] f p P wfD room dec
    by (simp add: insert_move_front_def first_before_def Let_def)
  moreover have "?idx ! pos_circ h k = front_moved h j k" if "k < ?mx" for k
    using front_wrap(4) [OF P lt [OF that]]
      front_moved_zero [OF wf refl f refl j(1) jm that] unfolding wfD(1) by (rule trans)
  ultimately show ?thesis using wfD by (intro exI [of _ ?idx]) simp
qed

lemma front_eval_wrap:
  assumes wf: "wf_circ h" and room: "m_cur_num_msg h < m_max_num_msg h"
    and j: "0 < j" "j < m_cur_num_msg h" and f: "m_max_num_msg h < m_cur_first_msg h + j"
  shows "\<exists>idx. insert_move_front h (pos_circ h j) (pos_circ h j) =
        Some (h\<lparr>mp_index := idx, m_cur_first_msg := first_before h,
                m_cur_num_msg := Suc (m_cur_num_msg h)\<rparr>, mp_index h ! first_before h) \<and>
      length idx = m_max_num_msg h \<and>
      (\<forall>k < m_max_num_msg h. idx ! pos_circ h k = front_moved h j k)"
proof -
  note wfD = wf_circD [OF wf]
  let ?xs = "mp_index h" and ?n = "m_cur_num_msg h" and ?mx = "m_max_num_msg h"
    and ?f = "m_cur_first_msg h" and ?p = "pos_circ h j"
  have jm: "j < ?mx - 1" using room j wfD by auto
  have dec: "dec_first h = first_before h" using dec_first_eq [OF wf] room by simp
  have lt: "pos_circ h k < length ?xs" if "k < ?mx" for k
    using that pos_circ_less [OF wf] wfD by auto
  have first: "?f < ?mx" using room wfD by auto
  have p: "?p = ?f + j - ?mx" using f by (simp add: pos_circ_def)
  have P: "0 < ?p" "?p < ?f" "?f \<le> length ?xs" using f p jm wfD by auto
  let ?ys = "(shift_left ?xs ?f (length ?xs) (?f - 1))[length ?xs - 1 := ?xs ! 0]"
  let ?idx = "(shift_left ?ys 1 ?p 0)[?p - 1 := ?xs ! (?f - 1)]"
  have "insert_move_front h ?p ?p = Some (h\<lparr>mp_index := ?idx, m_cur_first_msg := first_before h,
      m_cur_num_msg := Suc ?n\<rparr>, ?xs ! first_before h)"
    using front_wrap(1-3) [OF P] P wfD room dec first
    by (simp add: insert_move_front_def first_before_def Let_def)
  moreover have "?idx ! pos_circ h k = front_moved h j k" if "k < ?mx" for k
    using front_wrap(4) [OF P lt [OF that]]
      front_moved_wrap [OF wf refl refl refl j(1) jm first f that] unfolding wfD(1) p by (rule trans)
  ultimately show ?thesis using wfD by (intro exI [of _ ?idx]) simp
qed

lemma insert_move_front_eval:
  assumes wf: "wf_circ h" and room: "m_cur_num_msg h < m_max_num_msg h"
    and j: "0 < j" "j < m_cur_num_msg h"
  shows "\<exists>idx. insert_move_front h (pos_circ h j) (pos_circ h j) =
        Some (h\<lparr>mp_index := idx, m_cur_first_msg := first_before h,
                m_cur_num_msg := Suc (m_cur_num_msg h)\<rparr>, mp_index h ! first_before h) \<and>
      length idx = m_max_num_msg h \<and>
      (\<forall>k < m_max_num_msg h. idx ! pos_circ h k = front_moved h j k)"
proof -
  consider "0 < m_cur_first_msg h" "m_cur_first_msg h + j \<le> m_max_num_msg h" | "m_cur_first_msg h = 0"
    | "m_max_num_msg h < m_cur_first_msg h + j" by linarith
  then show ?thesis
    by cases (rule front_eval_unique [OF assms] front_eval_zero [OF assms] front_eval_wrap [OF assms]; assumption)+
qed

section \<open>The insertion as a whole\<close>

text \<open>Read from its new start, the ring after a front move is the old one with the insertion.\<close>

lemma set_nth_permuted:
  assumes "length ys = length xs" and "distinct xs" and "set xs \<subseteq> set ys"
  shows "set ys = set xs \<and> distinct ys"
proof -
  have "card (set xs) = length xs" using assms(2) by (simp add: distinct_card)
  moreover have "card (set ys) \<le> length ys" by (rule card_length)
  ultimately have "card (set ys) \<le> card (set xs)" using assms(1) by simp
  then have "set ys = set xs" using assms(3) by (metis card_seteq finite_set)
  then show ?thesis using assms(1,2) by (metis card_distinct distinct_card)
qed

lemma front_moved_ring:
  assumes wf: "wf_circ h" and room: "m_cur_num_msg h < m_max_num_msg h"
    and j: "0 < j" "j < m_cur_num_msg h" and len: "length idx = m_max_num_msg h"
    and idx: "\<And>k. k < m_max_num_msg h \<Longrightarrow> idx ! pos_circ h k = front_moved h j k"
  shows "rotate (first_before h) idx = insert_nth j (ring h ! (m_max_num_msg h - 1)) (butlast (ring h))"
proof (rule nth_equalityI)
  note wfD = wf_circD [OF wf]
  let ?mx = "m_max_num_msg h"
  show "length (rotate (first_before h) idx) =
      length (insert_nth j (ring h ! (?mx - 1)) (butlast (ring h)))"
    using room wfD len by simp
  fix k
  assume "k < length (rotate (first_before h) idx)"
  then have k: "k < ?mx" using len by simp
  let ?k = "if k = 0 then ?mx - 1 else k - 1"
  have "first_before h \<le> length idx" using wfD(5) len by (auto simp: first_before_def)
  then have "rotate (first_before h) idx ! k = idx ! pos_circ h ?k"
    using k wfD len room by (auto simp: nth_rotate_if pos_circ_def first_before_def)
  also have "\<dots> = front_moved h j ?k" using k room by (intro idx) auto
  also have "\<dots> = insert_nth j (ring h ! (?mx - 1)) (butlast (ring h)) ! k"
    using k j room wfD
    by (cases k) (auto simp: front_moved_def nth_insert_nth nth_butlast less_diff_conv)
  finally show "rotate (first_before h) idx ! k =
      insert_nth j (ring h ! (?mx - 1)) (butlast (ring h)) ! k" .
qed

lemma first_before_ring:
  assumes wf: "wf_circ h" and room: "0 < m_max_num_msg h"
  shows "rotate (first_before h) (mp_index h) =
    insert_nth 0 (ring h ! (m_max_num_msg h - 1)) (butlast (ring h))"
proof (rule nth_equalityI)
  note wfD = wf_circD [OF wf]
  show "length (rotate (first_before h) (mp_index h)) =
      length (insert_nth 0 (ring h ! (m_max_num_msg h - 1)) (butlast (ring h)))"
    using room wfD by simp
  fix k
  assume "k < length (rotate (first_before h) (mp_index h))"
  then have k: "k < m_max_num_msg h" using wfD by simp
  have fb: "first_before h \<le> length (mp_index h)" using wfD(1,5) by (auto simp: first_before_def)
  show "rotate (first_before h) (mp_index h) ! k =
      insert_nth 0 (ring h ! (m_max_num_msg h - 1)) (butlast (ring h)) ! k"
  proof (cases k)
    case 0
    then show ?thesis
      using fb k wfD room nth_ring [OF wf, of "m_max_num_msg h - 1"]
      by (auto simp: nth_rotate_if pos_circ_def first_before_def)
  next
    case (Suc m)
    then show ?thesis
      using fb k wfD room nth_ring [OF wf, of m]
      by (auto simp: nth_rotate_if pos_circ_def first_before_def nth_butlast)
  qed
qed

text \<open>
  The two shapes of the new ring. Either way it holds the same pointers, and starts with
  the old inserted messages and the new one at \<open>j\<close>, which was a free pointer.
\<close>

definition ring_step :: "nat \<Rightarrow> nat \<Rightarrow> 'a \<Rightarrow> 'a list \<Rightarrow> 'a list \<Rightarrow> bool" where
  "ring_step j n a xs zs \<longleftrightarrow>
     set zs = set xs \<and> distinct zs \<and> a \<in> set xs - set (take n xs) \<and>
     take (Suc n) zs = insert_nth j a (take n xs)"

lemma ring_step_front:
  assumes "distinct xs" and n: "n < length xs" and j: "j \<le> n"
  shows "ring_step j n (xs ! (length xs - 1)) xs (insert_nth j (xs ! (length xs - 1)) (butlast xs))"
proof -
  let ?a = "xs ! (length xs - 1)" and ?zs = "insert_nth j (xs ! (length xs - 1)) (butlast xs)"
  have "xs \<noteq> []" using n by auto
  then have "xs = butlast xs @ [?a]" by (metis append_butlast_last_id last_conv_nth)
  then have "set xs = insert ?a (set (butlast xs))" by (metis Un_insert_right empty_set list.simps(15) set_append sup_bot.right_neutral)
  then have "set xs \<subseteq> set ?zs" by simp
  moreover have "length ?zs = length xs" using n by simp
  ultimately have same: "set ?zs = set xs \<and> distinct ?zs"
    using assms(1) by (intro set_nth_permuted) auto
  have "?a \<in> set xs" using \<open>xs \<noteq> []\<close> by simp
  then have "?a \<in> set xs - set (take n xs)"
    using assms by (auto simp: in_set_conv_nth nth_eq_iff_index_eq)
  moreover have "take (Suc n) ?zs = insert_nth j ?a (take n xs)"
    using n j by (intro nth_equalityI) (auto simp: nth_insert_nth nth_butlast)
  ultimately show ?thesis using same by (simp add: ring_step_def)
qed

lemma ring_step_back:
  assumes "distinct xs" and "n < length xs" and "j \<le> n"
  shows "ring_step j n (xs ! n) xs (ring_insert j n xs)"
  using assms set_insert_lin [of n xs j] free_slot_lin [of xs n]
  by (simp add: ring_step_def ring_insert_def)

lemma ring_insert_end: "n < length xs \<Longrightarrow> ring_insert n n xs = xs"
  using insert_nth_length [of "take n xs" "xs ! n"] by (simp add: ring_insert_def id_take_nth_drop [symmetric])

lemma insert_at_circ_ends:
  assumes wf: "wf_circ h"
  shows "inserted_ptr_begin_circ h = pos_circ h 0" and "inserted_ptr_end_circ h = pos_circ h (m_cur_num_msg h)"
  by (simp_all add: begin_circ_eq [OF wf] inserted_ptr_end_circ_def end_pos_eq [OF wf])

text \<open>The free slot before the first message, and what becomes of the ring when it is taken.\<close>

lemma front_step:
  assumes wf: "wf_circ h" and room: "m_cur_num_msg h < m_max_num_msg h" and j: "j \<le> m_cur_num_msg h"
  shows "ring h ! (m_max_num_msg h - 1) = mp_index h ! first_before h"
    and "ring_step j (m_cur_num_msg h) (ring h ! (m_max_num_msg h - 1)) (ring h)
      (insert_nth j (ring h ! (m_max_num_msg h - 1)) (butlast (ring h)))"
    and "first_before h < m_max_num_msg h"
proof -
  note wfD = wf_circD [OF wf]
  show "ring h ! (m_max_num_msg h - 1) = mp_index h ! first_before h"
    using nth_ring [OF wf, of "m_max_num_msg h - 1"] room by (auto simp: pos_circ_def first_before_def)
  have "m_cur_num_msg h < length (ring h)" "length (ring h) = m_max_num_msg h" using room wfD by auto
  with ring_step_front [OF wfD(10) _ j]
  show "ring_step j (m_cur_num_msg h) (ring h ! (m_max_num_msg h - 1)) (ring h)
      (insert_nth j (ring h ! (m_max_num_msg h - 1)) (butlast (ring h)))" by simp
  show "first_before h < m_max_num_msg h" using room wfD by (auto simp: first_before_def)
qed

text \<open>Between two messages, the shorter side is moved.\<close>

lemma insert_at_circ_moves:
  assumes wf: "wf_circ h" and room: "m_cur_num_msg h < m_max_num_msg h" and j: "0 < j" "j < m_cur_num_msg h"
  shows "insert_at_circ h (pos_circ h j) =
    (if j < m_cur_num_msg h div 2 then insert_move_front h (pos_circ h j) (pos_circ h j)
     else insert_move_back h (pos_circ h j) (pos_circ h j))"
proof -
  note wfD = wf_circD [OF wf]
  let ?f = "m_cur_first_msg h" and ?mx = "m_max_num_msg h"
  have "pos_circ h j \<noteq> pos_circ h 0" "pos_circ h j \<noteq> pos_circ h (m_cur_num_msg h)"
    using pos_circ_inj [OF wf] room j by auto
  moreover have "(if ?f \<le> pos_circ h j then usz_sub (pos_circ h j) ?f
      else usz_add (pos_circ h j) (usz_sub ?mx ?f)) = j"
    using j room wfD by (auto simp: pos_circ_def)
  ultimately show ?thesis by (simp add: insert_at_circ_def insert_at_circ_ends [OF wf] Let_def)
qed

lemma insert_at_circ_inside:
  assumes wf: "wf_circ h" and room: "m_cur_num_msg h < m_max_num_msg h" and j: "0 < j" "j < m_cur_num_msg h"
  shows "\<exists>idx f a. insert_at_circ h (pos_circ h j) =
        Some (h\<lparr>mp_index := idx, m_cur_first_msg := f, m_cur_num_msg := Suc (m_cur_num_msg h)\<rparr>, a) \<and>
      length idx = m_max_num_msg h \<and> f < m_max_num_msg h \<and>
      ring_step j (m_cur_num_msg h) a (ring h) (rotate f idx)"
proof -
  note wfD = wf_circD [OF wf]
  let ?n = "m_cur_num_msg h" and ?mx = "m_max_num_msg h" and ?f = "m_cur_first_msg h"
  note ins = insert_at_circ_moves [OF wf room j]
  show ?thesis
  proof (cases "j < ?n div 2")
    case True
    from insert_move_front_eval [OF wf room j] obtain idx where
      idx: "insert_move_front h (pos_circ h j) (pos_circ h j) =
        Some (h\<lparr>mp_index := idx, m_cur_first_msg := first_before h, m_cur_num_msg := Suc ?n\<rparr>,
          mp_index h ! first_before h)"
      and len: "length idx = ?mx"
      and nth: "\<And>k. k < ?mx \<Longrightarrow> idx ! pos_circ h k = front_moved h j k" by blast
    from front_moved_ring [OF wf room j len nth] front_step [OF wf room, of j] j ins True idx len show ?thesis
      by (intro exI [of _ idx] exI [of _ "first_before h"] exI [of _ "ring h ! (?mx - 1)"]) simp
  next
    case False
    from insert_move_back_ring [OF wf room j(2)] obtain idx where
      "insert_move_back h (pos_circ h j) (pos_circ h j) =
        Some (h\<lparr>mp_index := idx, m_cur_num_msg := Suc ?n\<rparr>, ring h ! ?n)"
      and "length idx = ?mx" and "rotate ?f idx = ring_insert j ?n (ring h)" by blast
    with ring_step_back [OF wfD(10), of ?n j] ins False room j wfD show ?thesis
      by (intro exI [of _ idx] exI [of _ ?f] exI [of _ "ring h ! ?n"]) simp
  qed
qed

lemma insert_at_circ_inserts:
  assumes wf: "wf_circ h" and room: "m_cur_num_msg h < m_max_num_msg h" and j: "j \<le> m_cur_num_msg h"
  shows "\<exists>idx f a. insert_at_circ h (pos_circ h j) =
        Some (h\<lparr>mp_index := idx, m_cur_first_msg := f, m_cur_num_msg := Suc (m_cur_num_msg h)\<rparr>, a) \<and>
      length idx = m_max_num_msg h \<and> f < m_max_num_msg h \<and>
      ring_step j (m_cur_num_msg h) a (ring h) (rotate f idx)"
proof -
  note wfD = wf_circD [OF wf] and ends = insert_at_circ_ends [OF wf] and front = front_step [OF wf room j]
  let ?n = "m_cur_num_msg h" and ?mx = "m_max_num_msg h" and ?f = "m_cur_first_msg h"
  have n: "?n < length (ring h)" and f: "?f < ?mx" using room wfD by auto
  have inc: "usz_add ?n (Suc 0) = Suc ?n" using room wfD by simp
  consider "j = 0" | "0 < j" "j = ?n" | "0 < j" "j < ?n" using j by linarith
  then show ?thesis
  proof cases
    case 1
    then have "insert_at_circ h (pos_circ h j) =
        Some (h\<lparr>m_cur_first_msg := first_before h, m_cur_num_msg := Suc ?n\<rparr>, ring h ! (?mx - 1))"
      using front wfD room inc dec_first_eq [OF wf] by (simp add: insert_at_circ_def ends)
    then show ?thesis
      using front first_before_ring [OF wf] 1 wfD room
      by (intro exI [of _ "mp_index h"] exI [of _ "first_before h"] exI [of _ "ring h ! (?mx - 1)"]) simp
  next
    case 2
    then have "pos_circ h j \<noteq> pos_circ h 0" using pos_circ_inj [OF wf, of j 0] room by simp
    then have "insert_at_circ h (pos_circ h j) = Some (h\<lparr>m_cur_num_msg := Suc ?n\<rparr>, ring h ! ?n)"
      using 2 wfD room pos_circ_less [OF wf, of ?n] inc
      by (simp add: insert_at_circ_def ends nth_ring [OF wf])
    then show ?thesis
      using ring_step_back [OF wfD(10) n j] ring_insert_end [OF n] 2 f wfD(1)
      by (intro exI [of _ "mp_index h"] exI [of _ ?f] exI [of _ "ring h ! ?n"]) (simp add: ring_def)
  next
    case 3
    then show ?thesis by (rule insert_at_circ_inside [OF wf room])
  qed
qed

interpretation circ: message_index circular_build live_circ wf_circ pos_circ
proof (unfold_locales, goal_cases)
  case (4 h)
  then show ?case using wf_circD(9,10) [OF 4] by (auto simp: live_circ_def dest: in_set_takeD)
next
  case (5 h)
  note wfD = wf_circD [OF 5(1)]
  let ?n = "m_cur_num_msg h"
  have n: "0 < ?n" using 5 by (rule cur_pos_circ)
  with wfD(3) have n: "0 < ?n" "?n - 1 < m_max_num_msg h" by auto
  have "top_msg_circ h = arr_get (mp_index h) (pos_circ h (?n - 1))"
    using n wfD by (auto simp: top_msg_circ_def end_pos_eq [OF 5(1)] pos_circ_def Let_def)
  also have "\<dots> = Some (live_circ h ! (?n - 1))"
    using n wfD pos_circ_less [OF 5(1), of "?n - 1"] by (simp add: nth_live_circ [OF 5(1)])
  finally show ?case using 5 wfD by (simp add: circular_build_def last_conv_nth)
next
  case (6 h)
  note wfD = wf_circD [OF 6(1)]
  have n: "0 < m_cur_num_msg h" using 6 by (rule cur_pos_circ)
  with wfD have "m_cur_first_msg h < m_max_num_msg h" by auto
  with 6 n wfD nth_live_circ [OF 6(1) n] show ?case
    by (simp add: circular_build_def bottom_msg_circ_def hd_conv_nth pos_circ_def)
next
  case (9 h k v)
  then show ?case by (simp add: circular_build_def lower_bound_circ_finds)
next
  case (10 h j)
  note wfD = wf_circD [OF 10(1)]
  from insert_at_circ_inserts [OF 10(1,2), of j] 10(3) wfD obtain idx f a where
    ins: "insert_at_circ h (pos_circ h j) =
        Some (h\<lparr>mp_index := idx, m_cur_first_msg := f, m_cur_num_msg := Suc (m_cur_num_msg h)\<rparr>, a)"
    and idx: "length idx = m_max_num_msg h" "f < m_max_num_msg h"
    and step: "ring_step j (m_cur_num_msg h) a (ring h) (rotate f idx)" by auto
  let ?h = "h\<lparr>mp_index := idx, m_cur_first_msg := f, m_cur_num_msg := Suc (m_cur_num_msg h)\<rparr>"
  have "wf_circ ?h" and "same_frame h ?h" and "live_circ ?h = insert_nth j a (live_circ h)"
    and "a \<in> set (mp_index h) - set (live_circ h)"
    using step idx wfD 10(2)
    by (auto simp: ring_step_def wf_circ_def same_frame_def live_circ_def ring_def)
  then show ?case using ins by (auto simp: circular_build_def)
next
  case (11 h)
  note wfD = wf_circD [OF 11(1)]
  from 11(2) have "0 < length (live_circ h)" by simp
  with wfD 11(1) show ?case
    by (auto simp: wf_circ_def live_circ_def ring_def free_top_msg_def butlast_take)
qed (auto simp: wf_circ_def live_circ_def ring_def circular_build_def
    inserted_ptr_begin_circ_def inserted_ptr_end_circ_def end_pos_eq begin_circ_eq wf_circD(8)
    pos_circ_def)

end
