(* ===== verification/Mq_Queue.thy ===== *)
theory Mq_Queue
  imports Mq_Index
begin

text \<open>
  Sending and receiving (\<^verbatim>\<open>message_queue_t\<close> in
  \<^verbatim>\<open>include/sephi/ipc/mq/boost/message_queue_mod.hpp\<close>), section by section: a section is
  what a thread does from taking \<^verbatim>\<open>m_mutex\<close> until it returns, throws or waits on a condition
  variable. \<open>do_send_enter\<close> and \<open>do_receive_enter\<close> are the first section of a call,
  \<open>do_send_wakeup\<close> and \<open>do_receive_wakeup\<close> the section after a wait has returned; how the
  sections of several threads interleave is in \<open>Mq_Concurrent\<close>.

  The contract of the queue is a priority queue over pairs of a priority and a message:
  \<open>pq_insert\<close> puts a message after those of at least its priority, and receiving takes the
  head. The lemmas about the sections are proved for any index that keeps the
  contract of \<open>Mq_Index\<close>.
\<close>

section \<open>Operations\<close>

datatype block_t = blocking | timed | non_blocking

text \<open>
  The exceptions that leave a call: \<open>size_error\<close> is thrown by the queue, \<open>wait_error\<close> stands for
  whatever a wait on a condition variable throws.
\<close>

datatype mq_exn = size_error | wait_error

datatype ptime = not_a_date_time | pos_infin | time_at int

text \<open>How a section ends: with an exception, with the result of the call, or in a wait.\<close>

datatype 'r section_end = Threw mq_exn | Done 'r | Waits

definition inc_blocked_senders :: "mq_build \<Rightarrow> mq_hdr \<Rightarrow> mq_hdr" where
  "inc_blocked_senders bld h =
     (if circular_index bld then h\<lparr>m_blocked_senders := usz_add (m_blocked_senders h) 1\<rparr> else h)"

definition dec_blocked_senders :: "mq_build \<Rightarrow> mq_hdr \<Rightarrow> mq_hdr" where
  "dec_blocked_senders bld h =
     (if circular_index bld then h\<lparr>m_blocked_senders := usz_sub (m_blocked_senders h) 1\<rparr> else h)"

definition inc_blocked_receivers :: "mq_build \<Rightarrow> mq_hdr \<Rightarrow> mq_hdr" where
  "inc_blocked_receivers bld h =
     (if circular_index bld then h\<lparr>m_blocked_receivers := usz_add (m_blocked_receivers h) 1\<rparr> else h)"

definition dec_blocked_receivers :: "mq_build \<Rightarrow> mq_hdr \<Rightarrow> mq_hdr" where
  "dec_blocked_receivers bld h =
     (if circular_index bld then h\<lparr>m_blocked_receivers := usz_sub (m_blocked_receivers h) 1\<rparr> else h)"

text \<open>
  The tail of \<^verbatim>\<open>do_send\<close> once there is room: the second component is whether a receiver
  is notified after the lock is released.
\<close>

definition send_commit ::
  "mq_build \<Rightarrow> bytes \<Rightarrow> nat \<Rightarrow> u32 \<Rightarrow> mq_hdr \<Rightarrow> (mq_hdr \<times> bool) option" where
  "send_commit bld buffer buffer_size p h =
     (let notify_blocked_receivers = (circular_index bld \<longrightarrow> 0 \<noteq> m_blocked_receivers h)
      in do {
        (h1, a) \<leftarrow> queue_free_msg bld p h;
        free_msg_hdr \<leftarrow> messages h1 a;
        check (msg_priority free_msg_hdr = 0);
        check (msg_len free_msg_hdr = 0);
        d \<leftarrow> std_memcpy (msg_data free_msg_hdr) buffer buffer_size;
        Some (h1\<lparr>messages := (messages h1)(a \<mapsto>
                 free_msg_hdr\<lparr>msg_priority := p, msg_len := buffer_size, msg_data := d\<rparr>)\<rparr>,
              notify_blocked_receivers)
      })"

definition do_send_enter ::
  "mq_build \<Rightarrow> block_t \<Rightarrow> bytes \<Rightarrow> nat \<Rightarrow> u32 \<Rightarrow> mq_hdr \<Rightarrow>
   (mq_hdr \<times> (bool \<times> bool) section_end) option" where
  "do_send_enter bld block buffer buffer_size p h =
     (if buffer_size > m_max_msg_size h then Some (h, Threw size_error)
      else if mq_is_full h then
        let h1 = inc_blocked_senders bld h
        in case block of
             non_blocking \<Rightarrow> Some (dec_blocked_senders bld h1, Done (False, False))
           | blocking \<Rightarrow> Some (h1, Waits)
           | timed \<Rightarrow> Some (h1, Waits)
      else map_option (\<lambda>(h', n). (h', Done (True, n))) (send_commit bld buffer buffer_size p h))"

text \<open>
  After \<^verbatim>\<open>m_cond_send.wait\<close> or \<^verbatim>\<open>timed_wait\<close> has returned; \<open>timed_out\<close> is a \<^verbatim>\<open>timed_wait\<close>
  that returned false.
\<close>

definition do_send_wakeup ::
  "mq_build \<Rightarrow> block_t \<Rightarrow> bool \<Rightarrow> bytes \<Rightarrow> nat \<Rightarrow> u32 \<Rightarrow> mq_hdr \<Rightarrow>
   (mq_hdr \<times> (bool \<times> bool) section_end) option" where
  "do_send_wakeup bld block timed_out buffer buffer_size p h =
     (if mq_is_full h then
        (if block = timed \<and> timed_out
         then Some (dec_blocked_senders bld h, Done (False, False))
         else Some (h, Waits))
      else map_option (\<lambda>(h', n). (h', Done (True, n)))
             (send_commit bld buffer buffer_size p (dec_blocked_senders bld h)))"

text \<open>
  The handler around the waits of \<^verbatim>\<open>do_send\<close>: an exception \<open>x\<close> of \<^verbatim>\<open>wait\<close> or \<^verbatim>\<open>timed_wait\<close>,
  which return with the mutex held also when they throw, takes the caller out of the
  counter and is thrown again.
\<close>

definition do_send_caught ::
  "mq_build \<Rightarrow> mq_exn \<Rightarrow> mq_hdr \<Rightarrow> (mq_hdr \<times> (bool \<times> bool) section_end) option" where
  "do_send_caught bld x h = Some (dec_blocked_senders bld h, Threw x)"

text \<open>
  The tail of \<^verbatim>\<open>do_receive\<close>: the new control block, the caller's buffer, \<^verbatim>\<open>recvd_size\<close>,
  \<^verbatim>\<open>priority\<close>, and whether a sender is notified.
\<close>

type_synonym received = "bytes \<times> nat \<times> u32"

definition receive_commit ::
  "mq_build \<Rightarrow> bytes \<Rightarrow> mq_hdr \<Rightarrow> (mq_hdr \<times> received \<times> bool) option" where
  "receive_commit bld buffer h =
     (let notify_blocked_senders = (circular_index bld \<longrightarrow> 0 \<noteq> m_blocked_senders h)
      in do {
        a \<leftarrow> top_msg bld h;
        top \<leftarrow> messages h a;
        let recvd_size = msg_len top;
        let p = msg_priority top;
        let h1 = h\<lparr>messages := (messages h)(a \<mapsto> top\<lparr>msg_len := 0, msg_priority := 0\<rparr>)\<rparr>;
        b \<leftarrow> std_memcpy buffer (msg_data top) recvd_size;
        Some (free_top_msg h1, (b, recvd_size, p), notify_blocked_senders)
      })"

definition do_receive_enter ::
  "mq_build \<Rightarrow> block_t \<Rightarrow> bytes \<Rightarrow> nat \<Rightarrow> mq_hdr \<Rightarrow>
   (mq_hdr \<times> (received option \<times> bool) section_end) option" where
  "do_receive_enter bld block buffer buffer_size h =
     (if buffer_size < m_max_msg_size h then Some (h, Threw size_error)
      else if mq_is_empty h then
        let h1 = inc_blocked_receivers bld h
        in case block of
             non_blocking \<Rightarrow> Some (dec_blocked_receivers bld h1, Done (None, False))
           | blocking \<Rightarrow> Some (h1, Waits)
           | timed \<Rightarrow> Some (h1, Waits)
      else map_option (\<lambda>(h', r, n). (h', Done (Some r, n))) (receive_commit bld buffer h))"

definition do_receive_wakeup ::
  "mq_build \<Rightarrow> block_t \<Rightarrow> bool \<Rightarrow> bytes \<Rightarrow> mq_hdr \<Rightarrow>
   (mq_hdr \<times> (received option \<times> bool) section_end) option" where
  "do_receive_wakeup bld block timed_out buffer h =
     (if mq_is_empty h then
        (if block = timed \<and> timed_out
         then Some (dec_blocked_receivers bld h, Done (None, False))
         else Some (h, Waits))
      else map_option (\<lambda>(h', r, n). (h', Done (Some r, n)))
             (receive_commit bld buffer (dec_blocked_receivers bld h)))"

definition do_receive_caught ::
  "mq_build \<Rightarrow> mq_exn \<Rightarrow> mq_hdr \<Rightarrow> (mq_hdr \<times> (received option \<times> bool) section_end) option" where
  "do_receive_caught bld x h = Some (dec_blocked_receivers bld h, Threw x)"

text \<open>
  The public calls choose the blocking mode; \<^verbatim>\<open>timed_send\<close> and \<^verbatim>\<open>timed_receive\<close> fall back to
  the blocking form for an infinite deadline.
\<close>

definition mq_send where
  "mq_send bld buffer buffer_size p h = do_send_enter bld blocking buffer buffer_size p h"

definition mq_try_send where
  "mq_try_send bld buffer buffer_size p h = do_send_enter bld non_blocking buffer buffer_size p h"

definition mq_timed_send where
  "mq_timed_send bld buffer buffer_size p abs_time h =
     (if abs_time = pos_infin then mq_send bld buffer buffer_size p h
      else do_send_enter bld timed buffer buffer_size p h)"

definition mq_receive where
  "mq_receive bld buffer buffer_size h = do_receive_enter bld blocking buffer buffer_size h"

definition mq_try_receive where
  "mq_try_receive bld buffer buffer_size h = do_receive_enter bld non_blocking buffer buffer_size h"

definition mq_timed_receive where
  "mq_timed_receive bld buffer buffer_size abs_time h =
     (if abs_time = pos_infin then mq_receive bld buffer buffer_size h
      else do_receive_enter bld timed buffer buffer_size h)"

text \<open>The observers; \<open>None\<close> is a null \<^verbatim>\<open>p_hdr\<close>.\<close>

definition mq_get_max_msg :: "mq_hdr option \<Rightarrow> nat" where
  "mq_get_max_msg p_hdr = (case p_hdr of None \<Rightarrow> 0 | Some h \<Rightarrow> m_max_num_msg h)"

definition mq_get_max_msg_size :: "mq_hdr option \<Rightarrow> nat" where
  "mq_get_max_msg_size p_hdr = (case p_hdr of None \<Rightarrow> 0 | Some h \<Rightarrow> m_max_msg_size h)"

definition mq_get_num_msg :: "mq_hdr option \<Rightarrow> nat" where
  "mq_get_num_msg p_hdr = (case p_hdr of None \<Rightarrow> 0 | Some h \<Rightarrow> m_cur_num_msg h)"

section \<open>The abstract priority queue\<close>

type_synonym message = "u32 \<times> bytes"

fun pq_insert :: "message \<Rightarrow> message list \<Rightarrow> message list" where
  "pq_insert x [] = [x]"
| "pq_insert x (y # ys) = (if fst x \<le> fst y then y # pq_insert x ys else x # y # ys)"

lemma pq_insert_split:
  "pq_insert x ys = takeWhile (\<lambda>y. fst x \<le> fst y) ys @ x # dropWhile (\<lambda>y. fst x \<le> fst y) ys"
  by (induction ys) auto

text \<open>On the index the messages are in reverse order, ascending by priority.\<close>

lemma pq_insert_rev:
  assumes "sorted (map fst xs)"
  shows "pq_insert x (rev xs) = rev (insert_nth (length (takeWhile (\<lambda>y. fst y < fst x) xs)) x xs)"
proof -
  let ?k = "length (takeWhile (\<lambda>y. fst y < fst x) xs)"
  have k: "takeWhile (\<lambda>y. fst y < fst x) xs = take ?k xs" by (rule takeWhile_eq_take)
  have low: "\<forall>y \<in> set (take ?k xs). fst y < fst x"
    using k set_takeWhileD by (metis (no_types, lifting))
  have high: "\<forall>y \<in> set (drop ?k xs). fst x \<le> fst y"
  proof
    fix y
    assume "y \<in> set (drop ?k xs)"
    then obtain i where "i < length xs - ?k" and "y = xs ! (?k + i)"
      by (auto simp: in_set_conv_nth)
    then show "fst x \<le> fst y"
      using takeWhile_less_sorted [OF assms, of "?k + i" "fst x"]
      by (simp add: not_less less_diff_conv add.commute)
  qed
  have rev: "rev xs = rev (drop ?k xs) @ rev (take ?k xs)"
    by (metis append_take_drop_id rev_append)
  have none: "takeWhile (\<lambda>y. fst x \<le> fst y) (rev (take ?k xs)) = []"
    "dropWhile (\<lambda>y. fst x \<le> fst y) (rev (take ?k xs)) = rev (take ?k xs)"
    using low by (cases "rev (take ?k xs)"; force)+
  have "takeWhile (\<lambda>y. fst x \<le> fst y) (rev xs) = rev (drop ?k xs)"
    "dropWhile (\<lambda>y. fst x \<le> fst y) (rev xs) = rev (take ?k xs)"
    using high none by (subst rev, simp add: takeWhile_append dropWhile_append)+
  then show ?thesis by (simp add: pq_insert_split insert_nth_def)
qed

section \<open>The invariant of the control block\<close>

text \<open>
  Over any index: the pointers lead to the messages, inserted messages are sorted and no
  longer than the maximum, every data area holds the maximum, and the header of a free
  message is clean.
\<close>

definition mq_inv :: "(mq_hdr \<Rightarrow> u64 list) \<Rightarrow> (mq_hdr \<Rightarrow> bool) \<Rightarrow> mq_hdr \<Rightarrow> bool" where
  "mq_inv live ok h \<longleftrightarrow>
     ok h \<and> live_sorted live h \<and> dom (messages h) = set (mp_index h) \<and>
     (\<forall>a m. messages h a = Some m \<longrightarrow>
        m_max_msg_size h \<le> length (msg_data m) \<and> msg_len m \<le> m_max_msg_size h \<and>
        (a \<notin> set (live h) \<longrightarrow> msg_len m = 0 \<and> msg_priority m = 0))"

definition msg_at :: "mq_hdr \<Rightarrow> u64 \<Rightarrow> message" where
  "msg_at h a = (case messages h a of None \<Rightarrow> (0, [])
     | Some m \<Rightarrow> (msg_priority m, take (msg_len m) (msg_data m)))"

text \<open>The abstraction: the queued messages in the order in which they will be received.\<close>

definition contents :: "(mq_hdr \<Rightarrow> u64 list) \<Rightarrow> mq_hdr \<Rightarrow> message list" where
  "contents live h = map (msg_at h) (rev (live h))"

lemma fst_msg_at: "fst (msg_at h a) = prio_of h a"
  by (simp add: msg_at_def prio_of_def split: option.split)

lemma msg_at_upd:
  "msg_at (h\<lparr>messages := (messages h)(a \<mapsto> m)\<rparr>) b =
     (if b = a then (msg_priority m, take (msg_len m) (msg_data m)) else msg_at h b)"
  by (simp add: msg_at_def)

lemma prio_of_upd:
  "prio_of (h\<lparr>messages := (messages h)(a \<mapsto> m)\<rparr>) b =
     (if b = a then msg_priority m else prio_of h b)"
  by (simp add: prio_of_def)

lemma at_counters [simp]:
  "prio_of (h\<lparr>m_blocked_senders := bs\<rparr>) = prio_of h"
  "prio_of (h\<lparr>m_blocked_receivers := br\<rparr>) = prio_of h"
  "msg_at (h\<lparr>m_blocked_senders := bs\<rparr>) = msg_at h"
  "msg_at (h\<lparr>m_blocked_receivers := br\<rparr>) = msg_at h"
  by (simp_all add: fun_eq_iff prio_of_def msg_at_def)

lemma takeWhile_length_map:
  "length (takeWhile P (map f xs)) = length (takeWhile (\<lambda>x. P (f x)) xs)"
  by (simp add: takeWhile_map comp_def)

context message_index
begin

lemma frame_messages: "wf (h\<lparr>messages := ms\<rparr>) = wf h" "live (h\<lparr>messages := ms\<rparr>) = live h"
  using frame [where h = h and ms = ms and bs = "m_blocked_senders h" and br = "m_blocked_receivers h"]
  by simp_all

lemma frame_counters:
  "wf (h\<lparr>m_blocked_senders := bs\<rparr>) = wf h" "live (h\<lparr>m_blocked_senders := bs\<rparr>) = live h"
  "wf (h\<lparr>m_blocked_receivers := br\<rparr>) = wf h" "live (h\<lparr>m_blocked_receivers := br\<rparr>) = live h"
  using frame [where h = h and ms = "messages h" and bs = bs and br = "m_blocked_receivers h"]
    frame [where h = h and ms = "messages h" and bs = "m_blocked_senders h" and br = br]
  by simp_all

lemma mq_inv_counters:
  "mq_inv live wf (h\<lparr>m_blocked_senders := bs\<rparr>) = mq_inv live wf h"
  "mq_inv live wf (h\<lparr>m_blocked_receivers := br\<rparr>) = mq_inv live wf h"
  "contents live (h\<lparr>m_blocked_senders := bs\<rparr>) = contents live h"
  "contents live (h\<lparr>m_blocked_receivers := br\<rparr>) = contents live h"
  by (simp_all add: mq_inv_def live_sorted_def frame_counters contents_def)

lemma length_contents: "wf h \<Longrightarrow> length (contents live h) = m_cur_num_msg h"
  by (simp add: contents_def length_live)

lemma mq_invD:
  assumes "mq_inv live wf h"
  shows "wf h" "live_sorted live h" "dom (messages h) = set (mp_index h)"
    and "messages h a = Some m \<Longrightarrow> m_max_msg_size h \<le> length (msg_data m) \<and> msg_len m \<le> m_max_msg_size h \<and>
      (a \<notin> set (live h) \<longrightarrow> msg_len m = 0 \<and> msg_priority m = 0)"
  using assms by (auto simp: mq_inv_def)

text \<open>A message put in at its rank: the order is kept, and the abstract queue inserts it.\<close>

lemma sorted_insert_rank:
  assumes "live_sorted live h"
  shows "sorted (insert_nth (rank_of live p h) p (map (prio_of h) (live h)))"
proof (rule sorted_insert_nth)
  show "sorted (map (prio_of h) (live h))" using assms by (simp add: live_sorted_def)
  show "map (prio_of h) (live h) ! i \<le> p" if "i < rank_of live p h" for i
    using that rank_split [OF assms, of i p] rank_le [of p h] by simp
  show "p \<le> map (prio_of h) (live h) ! i"
    if "rank_of live p h \<le> i" "i < length (map (prio_of h) (live h))" for i
    using that rank_split [OF assms, of i p] by (simp add: not_less [symmetric])
qed (simp add: rank_le)

lemma contents_insert_rank:
  assumes srt: "live_sorted live h" and live': "live h' = insert_nth (rank_of live (fst x) h) a (live h)"
    and msg: "\<And>b. b \<in> set (live h) \<Longrightarrow> msg_at h' b = msg_at h b" "msg_at h' a = x"
  shows "contents live h' = pq_insert x (contents live h)"
proof -
  have "sorted (map fst (map (msg_at h) (live h)))"
    using srt by (simp add: live_sorted_def fst_msg_at comp_def)
  from pq_insert_rev [OF this, of x] msg show ?thesis
    by (simp add: contents_def live' map_insert_nth rank_of_def takeWhile_length_map fst_msg_at
        cong: map_cong flip: rev_map)
qed

lemma mq_inv_insert:
  assumes inv: "mq_inv live wf h" and wf': "wf h'"
    and live': "live h' = insert_nth (rank_of live p h) a (live h)" and a: "a \<in> set (mp_index h) - set (live h)"
    and h': "messages h' = (messages h)(a \<mapsto> m)" "set (mp_index h') = set (mp_index h)"
      "m_max_msg_size h' = m_max_msg_size h"
    and m: "msg_priority m = p" "msg_len m \<le> m_max_msg_size h" "m_max_msg_size h \<le> length (msg_data m)"
  shows "mq_inv live wf h'"
    and "contents live h' = pq_insert (p, take (msg_len m) (msg_data m)) (contents live h)"
proof -
  note invD = mq_invD [OF inv]
  have prio: "prio_of h' b = (if b = a then p else prio_of h b)" for b by (simp add: prio_of_def h' m)
  have old: "map (prio_of h') (live h) = map (prio_of h) (live h)" using a prio by auto
  then have "sorted (map (prio_of h') (live h'))"
    using sorted_insert_rank [OF invD(2), of p] by (simp add: live' map_insert_nth old prio [of a])
  moreover have "dom (messages h') = set (mp_index h')" using invD(3) a h' by auto
  moreover have "set (live h') \<subseteq> dom (messages h')"
    using live' live_index [OF invD(1)] a invD(3) h' by auto
  ultimately show "mq_inv live wf h'"
    using wf' invD(4) m h' live' by (auto simp: mq_inv_def live_sorted_def split: if_splits)
  show "contents live h' = pq_insert (p, take (msg_len m) (msg_data m)) (contents live h)"
    using a live' h' m by (intro contents_insert_rank [OF invD(2)]) (auto simp: msg_at_def)
qed

text \<open>
  Sending: with room in the queue and a message that fits, the commit never fails (no
  access outside the index or a data area, no failed assertion), keeps the invariant and
  inserts the message in the priority queue.
\<close>

lemma send_commit_refines:
  assumes inv: "mq_inv live wf h" and room: "m_cur_num_msg h < m_max_num_msg h"
    and size: "n \<le> m_max_msg_size h" and buf: "n \<le> length buffer"
  shows "\<exists>h'. send_commit bld buffer n p h =
      Some (h', circular_index bld \<longrightarrow> 0 \<noteq> m_blocked_receivers h) \<and>
      mq_inv live wf h' \<and> contents live h' = pq_insert (p, take n buffer) (contents live h) \<and>
      m_cur_num_msg h' = Suc (m_cur_num_msg h) \<and> m_max_num_msg h' = m_max_num_msg h \<and>
      m_max_msg_size h' = m_max_msg_size h \<and> m_blocked_senders h' = m_blocked_senders h \<and>
      m_blocked_receivers h' = m_blocked_receivers h"
proof -
  note invD = mq_invD [OF inv]
  from queue_free_msg_inserts [OF invD(1,2) room, of p] obtain h1 a
    where q: "queue_free_msg bld p h = Some (h1, a)" and wf1: "wf h1" and same: "same_frame h h1"
      and a: "a \<in> set (mp_index h) - set (live h)"
      and live1: "live h1 = insert_nth (rank_of live p h) a (live h)" by blast
  from a invD(3) obtain m where m: "messages h a = Some m" by blast
  with a invD(4) have clean: "msg_len m = 0" "msg_priority m = 0" "n \<le> length (msg_data m)"
      "m_max_msg_size h \<le> length (msg_data m)"
    using size by (auto dest: le_trans)
  define m' where
    "m' = m\<lparr>msg_priority := p, msg_len := n, msg_data := take n buffer @ drop n (msg_data m)\<rparr>"
  define h' where "h' = h1\<lparr>messages := (messages h1)(a \<mapsto> m')\<rparr>"
  have frame: "messages h' = (messages h)(a \<mapsto> m')" "set (mp_index h') = set (mp_index h)"
      "m_max_num_msg h' = m_max_num_msg h" "m_max_msg_size h' = m_max_msg_size h"
      "m_blocked_senders h' = m_blocked_senders h" "m_blocked_receivers h' = m_blocked_receivers h"
    using same by (simp_all add: same_frame_def h'_def)
  have commit: "send_commit bld buffer n p h =
      Some (h', circular_index bld \<longrightarrow> 0 \<noteq> m_blocked_receivers h)"
    using q m clean buf same by (simp add: send_commit_def h'_def m'_def same_frame_def)
  have live': "live h' = insert_nth (rank_of live p h) a (live h)" and wf': "wf h'"
    using live1 wf1 by (simp_all add: h'_def frame_messages)
  have "mq_inv live wf h'" "contents live h' = pq_insert (p, take n buffer) (contents live h)"
    using mq_inv_insert [OF inv wf' live' a frame(1,2,4)] size buf clean by (simp_all add: m'_def)
  moreover have "m_cur_num_msg h' = Suc (m_cur_num_msg h)"
    using length_live [OF wf'] length_live [OF invD(1)] live' by simp
  ultimately show ?thesis using commit frame by blast
qed

text \<open>
  Receiving: from a non-empty queue into a buffer that can hold any message, the commit
  never fails and takes the head of the priority queue.
\<close>

lemma mq_inv_remove:
  assumes inv: "mq_inv live wf h" and wf': "wf h'" and live: "live h = live h' @ [a]"
    and h': "messages h' = (messages h)(a \<mapsto> m\<lparr>msg_len := 0, msg_priority := 0\<rparr>)" "mp_index h' = mp_index h"
      "m_max_msg_size h' = m_max_msg_size h"
    and m: "messages h a = Some m"
  shows "mq_inv live wf h'"
    and "contents live h = (msg_priority m, take (msg_len m) (msg_data m)) # contents live h'"
proof -
  note invD = mq_invD [OF inv]
  have "distinct (live h)" using live_index [OF invD(1)] by simp
  then have a: "a \<notin> set (live h')" using live by simp
  then have prio: "map (prio_of h') (live h') = map (prio_of h) (live h')"
    and msg: "map (msg_at h') (live h') = map (msg_at h) (live h')"
    by (auto simp: prio_of_def msg_at_def h')
  have "sorted (map (prio_of h') (live h'))"
    using invD(2) unfolding prio live_sorted_def live by (simp add: sorted_append)
  then have "live_sorted live h'" using invD(2) live by (auto simp: live_sorted_def h')
  moreover have "dom (messages h') = set (mp_index h')" using invD(3) m by (auto simp: h')
  ultimately show "mq_inv live wf h'"
    using wf' invD(4) invD(4) [OF m] live a unfolding mq_inv_def by (auto simp: h')
  show "contents live h = (msg_priority m, take (msg_len m) (msg_data m)) # contents live h'"
    by (simp add: contents_def live msg msg_at_def [of h a] m flip: rev_map)
qed

lemma receive_commit_refines:
  assumes inv: "mq_inv live wf h" and ne: "m_cur_num_msg h \<noteq> 0"
    and buf: "m_max_msg_size h \<le> length buffer"
  shows "\<exists>h' p d. receive_commit bld buffer h =
      Some (h', (d @ drop (length d) buffer, length d, p),
            circular_index bld \<longrightarrow> 0 \<noteq> m_blocked_senders h) \<and>
      mq_inv live wf h' \<and> contents live h = (p, d) # contents live h' \<and>
      m_cur_num_msg h = Suc (m_cur_num_msg h') \<and> m_max_num_msg h' = m_max_num_msg h \<and>
      m_max_msg_size h' = m_max_msg_size h \<and> m_blocked_senders h' = m_blocked_senders h \<and>
      m_blocked_receivers h' = m_blocked_receivers h \<and> length d \<le> m_max_msg_size h"
proof -
  note invD = mq_invD [OF inv]
  have nel: "live h \<noteq> []" using ne length_live [OF invD(1)] by auto
  define a where "a = last (live h)"
  obtain m where m: "messages h a = Some m"
    using live_message [OF invD(2), of a] nel by (auto simp: a_def)
  have len: "msg_len m \<le> length (msg_data m)" "msg_len m \<le> length buffer" "msg_len m \<le> m_max_msg_size h"
    using invD(4) [OF m] buf by linarith+
  define d where "d = take (msg_len m) (msg_data m)"
  have dlen: "length d = msg_len m" using len by (simp add: d_def)
  define h1 where "h1 = h\<lparr>messages := (messages h)(a \<mapsto> m\<lparr>msg_len := 0, msg_priority := 0\<rparr>)\<rparr>"
  define h' where "h' = free_top_msg h1"
  have "wf h1" "live h1 = live h" using invD(1) by (simp_all add: h1_def frame_messages)
  then have wf': "wf h'" and live: "live h = live h' @ [a]"
    using free_top [of h1] nel by (simp_all add: h'_def a_def)
  have flds: "messages h' = (messages h)(a \<mapsto> m\<lparr>msg_len := 0, msg_priority := 0\<rparr>)" "mp_index h' = mp_index h"
      "m_max_msg_size h' = m_max_msg_size h" "m_max_num_msg h' = m_max_num_msg h"
      "m_blocked_senders h' = m_blocked_senders h" "m_blocked_receivers h' = m_blocked_receivers h"
    by (simp_all add: h'_def h1_def free_top_msg_def)
  have commit: "receive_commit bld buffer h = Some (h', (d @ drop (length d) buffer, length d, msg_priority m),
      circular_index bld \<longrightarrow> 0 \<noteq> m_blocked_senders h)"
    using top_last [OF invD(1) nel] m len dlen
    by (simp add: receive_commit_def a_def [symmetric] h'_def h1_def d_def Let_def)
  have "m_cur_num_msg h = Suc (m_cur_num_msg h')"
    using length_live [OF wf'] length_live [OF invD(1)] live by simp
  with commit mq_inv_remove [OF inv wf' live flds(1-3) m] flds len dlen show ?thesis
    by (intro exI [of _ h'] exI [of _ "msg_priority m"] exI [of _ d]) (simp add: d_def)
qed

end

end
