(* ===== verification/Mq_Concurrent.thy ===== *)
theory Mq_Concurrent
  imports Mq_Queue
begin

text \<open>
  Threads of any number of processes that share one queue. A section of
  \<^verbatim>\<open>do_send\<close> or \<^verbatim>\<open>do_receive\<close> runs with \<^verbatim>\<open>m_mutex\<close> held from its start to its end, so the sections
  of different threads do not overlap and each is one step; the notification after a
  section runs outside the lock and is a step of its own. A condition variable wakes one
  waiting thread per \<^verbatim>\<open>notify_one\<close> if there is one, may wake a thread without a notification,
  and lets a timed wait run out at any time. A wait that has not been notified may also throw,
  with the mutex held, which is a step of its own (\<open>send_throws\<close>, \<open>receive_throws\<close>). A woken thread takes the mutex again before
  it goes on, so between the two any other step may happen.

  The invariant says that the control block and the threads agree, that the blocked
  counters count, and that no wake-up is lost: while a receiver waits, every queued
  message has a woken receiver or a pending notification to take it, and likewise for senders
  and free slots.
\<close>

section \<open>Threads and steps\<close>

text \<open>
  \<open>Waiting_send\<close> and \<open>Waiting_receive\<close> are blocked inside \<^verbatim>\<open>wait\<close> or \<^verbatim>\<open>timed_wait\<close>; the woken
  states want the mutex back, with the answer of \<^verbatim>\<open>timed_wait\<close>; the notifying states have
  released it and are about to call \<^verbatim>\<open>notify_one\<close>. \<open>Crashed\<close> is undefined behaviour or a
  failed assertion.
\<close>

datatype thread_pc =
    Idle
  | Waiting_send block_t bytes nat u32
  | Woken_send block_t bool bytes nat u32
  | Notify_receiver
  | Waiting_receive block_t bytes
  | Woken_receive block_t bool bytes
  | Notify_sender
  | Crashed

record mq_sys =
  hdr :: mq_hdr
  threads :: "thread_pc list"

datatype mq_event = Tau | Put message | Get message

definition set_thread :: "nat \<Rightarrow> thread_pc \<Rightarrow> mq_sys \<Rightarrow> mq_sys" where
  "set_thread i pc s = s\<lparr>threads := (threads s)[i := pc]\<rparr>"

text \<open>Where a thread goes when a section of a send ends, and what the section did to the queue.\<close>

definition after_send :: "block_t \<Rightarrow> bytes \<Rightarrow> nat \<Rightarrow> u32 \<Rightarrow> nat \<Rightarrow> mq_sys \<Rightarrow>
    (mq_hdr \<times> (bool \<times> bool) section_end) option \<Rightarrow> mq_event \<times> mq_sys" where
  "after_send block buffer n p i s r =
     (case r of
        None \<Rightarrow> (Tau, set_thread i Crashed s)
      | Some (h, e) \<Rightarrow>
          (case e of
             Threw x \<Rightarrow> (Tau, set_thread i Idle (s\<lparr>hdr := h\<rparr>))
           | Waits \<Rightarrow> (Tau, set_thread i (Waiting_send block buffer n p) (s\<lparr>hdr := h\<rparr>))
           | Done (sent, notify) \<Rightarrow>
               (if sent then Put (p, take n buffer) else Tau,
                set_thread i (if sent \<and> notify then Notify_receiver else Idle) (s\<lparr>hdr := h\<rparr>))))"

definition after_receive :: "block_t \<Rightarrow> bytes \<Rightarrow> nat \<Rightarrow> mq_sys \<Rightarrow>
    (mq_hdr \<times> (received option \<times> bool) section_end) option \<Rightarrow> mq_event \<times> mq_sys" where
  "after_receive block buffer i s r =
     (case r of
        None \<Rightarrow> (Tau, set_thread i Crashed s)
      | Some (h, e) \<Rightarrow>
          (case e of
             Threw x \<Rightarrow> (Tau, set_thread i Idle (s\<lparr>hdr := h\<rparr>))
           | Waits \<Rightarrow> (Tau, set_thread i (Waiting_receive block buffer) (s\<lparr>hdr := h\<rparr>))
           | Done (got, notify) \<Rightarrow>
               (case got of
                  None \<Rightarrow> (Tau, set_thread i Idle (s\<lparr>hdr := h\<rparr>))
                | Some (b, recvd_size, p) \<Rightarrow>
                    (Get (p, take recvd_size b),
                     set_thread i (if notify then Notify_sender else Idle) (s\<lparr>hdr := h\<rparr>)))))"

text \<open>
  The work of a system: what its threads still do when nobody makes a new call and no wait
  ends by itself. A woken thread goes on, and a notification reaches a waiting thread or
  nobody.
\<close>

inductive mq_work :: "mq_build \<Rightarrow> mq_sys \<Rightarrow> mq_event \<Rightarrow> mq_sys \<Rightarrow> bool" for bld where
  send_resume: "i < length (threads s) \<Longrightarrow> threads s ! i = Woken_send block timed_out buffer n p \<Longrightarrow>
     after_send block buffer n p i s (do_send_wakeup bld block timed_out buffer n p (hdr s)) = (ev, s') \<Longrightarrow>
     mq_work bld s ev s'"
| notify_receiver: "i < length (threads s) \<Longrightarrow> threads s ! i = Notify_receiver \<Longrightarrow>
     j < length (threads s) \<Longrightarrow> threads s ! j = Waiting_receive block buffer \<Longrightarrow>
     mq_work bld s Tau (set_thread j (Woken_receive block False buffer) (set_thread i Idle s))"
| notify_no_receiver: "i < length (threads s) \<Longrightarrow> threads s ! i = Notify_receiver \<Longrightarrow>
     \<not> (\<exists>block buffer. Waiting_receive block buffer \<in> set (threads s)) \<Longrightarrow>
     mq_work bld s Tau (set_thread i Idle s)"
| receive_resume: "i < length (threads s) \<Longrightarrow> threads s ! i = Woken_receive block timed_out buffer \<Longrightarrow>
     after_receive block buffer i s (do_receive_wakeup bld block timed_out buffer (hdr s)) = (ev, s') \<Longrightarrow>
     mq_work bld s ev s'"
| notify_sender: "i < length (threads s) \<Longrightarrow> threads s ! i = Notify_sender \<Longrightarrow>
     j < length (threads s) \<Longrightarrow> threads s ! j = Waiting_send block buffer n p \<Longrightarrow>
     mq_work bld s Tau (set_thread j (Woken_send block False buffer n p) (set_thread i Idle s))"
| notify_no_sender: "i < length (threads s) \<Longrightarrow> threads s ! i = Notify_sender \<Longrightarrow>
     \<not> (\<exists>block buffer n p. Waiting_send block buffer n p \<in> set (threads s)) \<Longrightarrow>
     mq_work bld s Tau (set_thread i Idle s)"

text \<open>The steps: work, new calls, and waits that end without a notification.\<close>

inductive mq_step :: "mq_build \<Rightarrow> mq_sys \<Rightarrow> mq_event \<Rightarrow> mq_sys \<Rightarrow> bool" for bld where
  work: "mq_work bld s ev s' \<Longrightarrow> mq_step bld s ev s'"
| send_call: "i < length (threads s) \<Longrightarrow> threads s ! i = Idle \<Longrightarrow> n \<le> length buffer \<Longrightarrow>
     after_send block buffer n p i s (do_send_enter bld block buffer n p (hdr s)) = (ev, s') \<Longrightarrow>
     mq_step bld s ev s'"
| send_wake: "i < length (threads s) \<Longrightarrow> threads s ! i = Waiting_send block buffer n p \<Longrightarrow>
     mq_step bld s Tau (set_thread i (Woken_send block False buffer n p) s)"
| send_timeout: "i < length (threads s) \<Longrightarrow> threads s ! i = Waiting_send timed buffer n p \<Longrightarrow>
     mq_step bld s Tau (set_thread i (Woken_send timed True buffer n p) s)"
| send_throws: "i < length (threads s) \<Longrightarrow> threads s ! i = Waiting_send block buffer n p \<Longrightarrow>
     after_send block buffer n p i s (do_send_caught bld wait_error (hdr s)) = (ev, s') \<Longrightarrow>
     mq_step bld s ev s'"
| receive_call: "i < length (threads s) \<Longrightarrow> threads s ! i = Idle \<Longrightarrow> n \<le> length buffer \<Longrightarrow>
     after_receive block buffer i s (do_receive_enter bld block buffer n (hdr s)) = (ev, s') \<Longrightarrow>
     mq_step bld s ev s'"
| receive_wake: "i < length (threads s) \<Longrightarrow> threads s ! i = Waiting_receive block buffer \<Longrightarrow>
     mq_step bld s Tau (set_thread i (Woken_receive block False buffer) s)"
| receive_timeout: "i < length (threads s) \<Longrightarrow> threads s ! i = Waiting_receive timed buffer \<Longrightarrow>
     mq_step bld s Tau (set_thread i (Woken_receive timed True buffer) s)"
| receive_throws: "i < length (threads s) \<Longrightarrow> threads s ! i = Waiting_receive block buffer \<Longrightarrow>
     after_receive block buffer i s (do_receive_caught bld wait_error (hdr s)) = (ev, s') \<Longrightarrow>
     mq_step bld s ev s'"

text \<open>Runs with the list of their events.\<close>

inductive mq_run :: "mq_build \<Rightarrow> mq_sys \<Rightarrow> mq_event list \<Rightarrow> mq_sys \<Rightarrow> bool" for bld where
  run_nil: "mq_run bld s [] s"
| run_step: "mq_run bld s evs t \<Longrightarrow> mq_step bld t ev u \<Longrightarrow> mq_run bld s (evs @ [ev]) u"

section \<open>Counting threads\<close>

fun waits_send :: "thread_pc \<Rightarrow> bool" where
  "waits_send (Waiting_send _ _ _ _) = True" | "waits_send _ = False"

fun woken_send :: "thread_pc \<Rightarrow> bool" where
  "woken_send (Woken_send _ _ _ _ _) = True" | "woken_send _ = False"

fun waits_receive :: "thread_pc \<Rightarrow> bool" where
  "waits_receive (Waiting_receive _ _) = True" | "waits_receive _ = False"

fun woken_receive :: "thread_pc \<Rightarrow> bool" where
  "woken_receive (Woken_receive _ _ _) = True" | "woken_receive _ = False"

fun notifies_sender :: "thread_pc \<Rightarrow> bool" where
  "notifies_sender Notify_sender = True" | "notifies_sender _ = False"

fun notifies_receiver :: "thread_pc \<Rightarrow> bool" where
  "notifies_receiver Notify_receiver = True" | "notifies_receiver _ = False"

definition thread_count :: "(thread_pc \<Rightarrow> bool) \<Rightarrow> mq_sys \<Rightarrow> nat" where
  "thread_count P s = length (filter P (threads s))"

abbreviation ws where "ws \<equiv> thread_count waits_send"
abbreviation ks where "ks \<equiv> thread_count woken_send"
abbreviation ps where "ps \<equiv> thread_count notifies_sender"
abbreviation wr where "wr \<equiv> thread_count waits_receive"
abbreviation kr where "kr \<equiv> thread_count woken_receive"
abbreviation pr where "pr \<equiv> thread_count notifies_receiver"

lemma thread_count_hdr [simp]: "thread_count P (s\<lparr>hdr := h\<rparr>) = thread_count P s"
  by (simp add: thread_count_def)

lemma thread_count_set_hdr [simp]:
  "thread_count P (set_thread i pc (s\<lparr>hdr := h\<rparr>)) = thread_count P (set_thread i pc s)"
  by (simp add: thread_count_def set_thread_def)

lemma set_thread_sel [simp]:
  "hdr (set_thread i pc s) = hdr s" "threads (set_thread i pc s) = (threads s)[i := pc]"
  by (simp_all add: set_thread_def)

lemma thread_count_set:
  "i < length (threads s) \<Longrightarrow>
   thread_count P (set_thread i pc s) + (if P (threads s ! i) then 1 else 0) =
   thread_count P s + (if P pc then 1 else 0)"
  unfolding thread_count_def set_thread_sel by (rule count_update)

lemma thread_count_pos: "0 < thread_count P s \<longleftrightarrow> (\<exists>t \<in> set (threads s). P t)"
  by (auto simp: thread_count_def filter_empty_conv)

lemma waits_receive_iff: "waits_receive t \<longleftrightarrow> (\<exists>block buffer. t = Waiting_receive block buffer)"
  by (cases t) auto

lemma waits_send_iff: "waits_send t \<longleftrightarrow> (\<exists>block buffer n p. t = Waiting_send block buffer n p)"
  by (cases t) auto

lemma no_waiting_receive:
  "wr s = 0 \<longleftrightarrow> \<not> (\<exists>block buffer. Waiting_receive block buffer \<in> set (threads s))"
  by (auto simp: thread_count_def filter_empty_conv waits_receive_iff)

lemma no_waiting_send:
  "ws s = 0 \<longleftrightarrow> \<not> (\<exists>block buffer n p. Waiting_send block buffer n p \<in> set (threads s))"
  by (auto simp: thread_count_def filter_empty_conv waits_send_iff)

section \<open>The invariant\<close>

fun pc_ok :: "mq_hdr \<Rightarrow> thread_pc \<Rightarrow> bool" where
  "pc_ok h (Waiting_send _ buffer n _) = (n \<le> m_max_msg_size h \<and> n \<le> length buffer)"
| "pc_ok h (Woken_send _ _ buffer n _) = (n \<le> m_max_msg_size h \<and> n \<le> length buffer)"
| "pc_ok h (Waiting_receive _ buffer) = (m_max_msg_size h \<le> length buffer)"
| "pc_ok h (Woken_receive _ _ buffer) = (m_max_msg_size h \<le> length buffer)"
| "pc_ok h Crashed = False"
| "pc_ok h _ = True"

definition wakeup_inv :: "mq_build \<Rightarrow> mq_sys \<Rightarrow> bool" where
  "wakeup_inv bld s \<longleftrightarrow>
     (circular_index bld \<longrightarrow> m_blocked_senders (hdr s) = ws s + ks s \<and>
        m_blocked_receivers (hdr s) = wr s + kr s) \<and>
     (0 < wr s \<longrightarrow> m_cur_num_msg (hdr s) \<le> kr s + pr s) \<and>
     (0 < ws s \<longrightarrow> m_max_num_msg (hdr s) - m_cur_num_msg (hdr s) \<le> ks s + ps s)"

definition sys_inv ::
  "mq_build \<Rightarrow> (mq_hdr \<Rightarrow> u64 list) \<Rightarrow> (mq_hdr \<Rightarrow> bool) \<Rightarrow> nat \<Rightarrow> mq_sys \<Rightarrow> bool" where
  "sys_inv bld live ok cap s \<longleftrightarrow>
     m_max_num_msg (hdr s) = cap \<and> mq_inv live ok (hdr s) \<and> wakeup_inv bld s \<and>
     (\<forall>t \<in> set (threads s). pc_ok (hdr s) t) \<and> length (threads s) < 2 ^ 64"

text \<open>The queue that the threads operate on, in the abstract.\<close>

inductive pq_step :: "nat \<Rightarrow> message list \<Rightarrow> mq_event \<Rightarrow> message list \<Rightarrow> bool" for cap where
  tau: "pq_step cap q Tau q"
| put: "length q < cap \<Longrightarrow> pq_step cap q (Put m) (pq_insert m q)"
| get: "pq_step cap (m # q) (Get m) q"

section \<open>Every step keeps the invariant and follows the abstract queue\<close>

lemma counts_from:
  assumes "i < length (threads s)" and "threads s ! i = old"
  shows "ws (set_thread i pc s) + of_bool (waits_send old) = ws s + of_bool (waits_send pc)"
    "ks (set_thread i pc s) + of_bool (woken_send old) = ks s + of_bool (woken_send pc)"
    "ps (set_thread i pc s) + of_bool (notifies_sender old) = ps s + of_bool (notifies_sender pc)"
    "wr (set_thread i pc s) + of_bool (waits_receive old) = wr s + of_bool (waits_receive pc)"
    "kr (set_thread i pc s) + of_bool (woken_receive old) = kr s + of_bool (woken_receive pc)"
    "pr (set_thread i pc s) + of_bool (notifies_receiver old) = pr s + of_bool (notifies_receiver pc)"
  using thread_count_set [OF assms(1), of _ pc] assms(2) by (simp_all add: of_bool_def)

lemma set_thread_same: "threads s ! i = pc \<Longrightarrow> set_thread i pc s = s"
  using list_update_id [of "threads s" i] by (simp add: set_thread_def)

lemma blocked_bounds:
  assumes "length (threads s) < 2 ^ 64" and "i < length (threads s)" and "threads s ! i = Idle"
  shows "ws s + ks s + 1 < 2 ^ 64" and "wr s + kr s + 1 < 2 ^ 64"
proof -
  have idle: "Idle \<in> set (threads s)" using assms(2,3) by (metis nth_mem)
  have "ws s + ks s < length (threads s)" unfolding thread_count_def
    by (rule count_disjoint_less [OF _ idle]) (auto elim: waits_send.elims)
  then show "ws s + ks s + 1 < 2 ^ 64" using assms(1) by simp
  have "wr s + kr s < length (threads s)" unfolding thread_count_def
    by (rule count_disjoint_less [OF _ idle]) (auto elim: waits_receive.elims)
  then show "wr s + kr s + 1 < 2 ^ 64" using assms(1) by simp
qed

lemma pc_ok_size: "m_max_msg_size h' = m_max_msg_size h \<Longrightarrow> pc_ok h' = pc_ok h"
proof
  fix t
  assume "m_max_msg_size h' = m_max_msg_size h"
  then show "pc_ok h' t = pc_ok h t" by (cases t) simp_all
qed

text \<open>Waking a thread, and a notification that finds nobody, keep the wake-up part.\<close>

lemma wake_send_inv:
  assumes "wakeup_inv bld s" and "i < length (threads s)" and "threads s ! i = Waiting_send b buf n p"
  shows "wakeup_inv bld (set_thread i (Woken_send b t buf n p) s)"
  using assms(1) counts_from [OF assms(2,3), of "Woken_send b t buf n p"]
  by (auto simp: wakeup_inv_def)

lemma wake_receive_inv:
  assumes "wakeup_inv bld s" and "i < length (threads s)" and "threads s ! i = Waiting_receive b buf"
  shows "wakeup_inv bld (set_thread i (Woken_receive b t buf) s)"
  using assms(1) counts_from [OF assms(2,3), of "Woken_receive b t buf"]
  by (auto simp: wakeup_inv_def)

text \<open>What a section does to the control block, whatever the index: the five ways it can end.\<close>

context message_index
begin

lemma sys_inv_set:
  assumes "sys_inv bld live wf cap s" and "mq_inv live wf h"
    and "m_max_msg_size h = m_max_msg_size (hdr s)" and "m_max_num_msg h = m_max_num_msg (hdr s)"
    and "pc_ok h pc"
    and "wakeup_inv bld (set_thread i pc (s\<lparr>hdr := h\<rparr>))"
  shows "sys_inv bld live wf cap (set_thread i pc (s\<lparr>hdr := h\<rparr>))"
  using assms pc_ok_size [OF assms(3)]
  by (auto simp: sys_inv_def dest!: subsetD [OF set_update_subset_insert])

lemma sys_inv_wakeup: "sys_inv bld live wf cap s \<Longrightarrow> wakeup_inv bld s"
  by (simp add: sys_inv_def)

lemma sys_inv_pc: "sys_inv bld live wf cap s \<Longrightarrow> i < length (threads s) \<Longrightarrow> pc_ok (hdr s) (threads s ! i)"
  by (simp add: sys_inv_def)

lemma cur_bound: "mq_inv live wf h \<Longrightarrow> m_cur_num_msg h \<le> m_max_num_msg h"
  by (simp add: mq_inv_def cur_le_max)

text \<open>
  The end of a section that moves a message, in a thread that enters the section or has woken up in it; \<open>k\<close> is
  what it has left of the counter of blocked threads.
\<close>

lemma sim_send_commit:
  assumes inv: "sys_inv bld live wf cap s" and i: "i < length (threads s)" and pc: "threads s ! i = old"
    and old: "old = Idle \<or> woken_send old"
    and blk: "circular_index bld \<Longrightarrow> k + of_bool (woken_send old) = ws s + ks s"
    and room: "\<not> mq_is_full (hdr s)" and n: "n \<le> m_max_msg_size (hdr s)" "n \<le> length buffer"
  defines "notify \<equiv> circular_index bld \<longrightarrow> 0 \<noteq> m_blocked_receivers (hdr s)"
  shows "\<exists>h'. send_commit bld buffer n p ((hdr s)\<lparr>m_blocked_senders := k\<rparr>) = Some (h', notify) \<and>
    sys_inv bld live wf cap (set_thread i (if notify then Notify_receiver else Idle) (s\<lparr>hdr := h'\<rparr>)) \<and>
    pq_step cap (contents live (hdr s)) (Put (p, take n buffer)) (contents live h')"
proof -
  let ?h = "hdr s" and ?pc = "if notify then Notify_receiver else Idle"
  have q: "mq_inv live wf ?h" and w: "wakeup_inv bld s" and cap: "m_max_num_msg ?h = cap"
    using inv by (simp_all add: sys_inv_def)
  have lt: "m_cur_num_msg ?h < m_max_num_msg ?h" using cur_bound [OF q] room by (simp add: mq_is_full_def)
  have "mq_inv live wf (?h\<lparr>m_blocked_senders := k\<rparr>)" using q by (simp add: mq_inv_counters)
  from send_commit_refines [OF this _ _ n(2), of p] lt n(1) obtain h'
    where c: "send_commit bld buffer n p (?h\<lparr>m_blocked_senders := k\<rparr>) = Some (h', notify)"
      and h': "mq_inv live wf h'" "contents live h' = pq_insert (p, take n buffer) (contents live ?h)"
        "m_cur_num_msg h' = Suc (m_cur_num_msg ?h)" "m_max_num_msg h' = m_max_num_msg ?h"
        "m_max_msg_size h' = m_max_msg_size ?h" "m_blocked_senders h' = k"
        "m_blocked_receivers h' = m_blocked_receivers ?h"
    by (auto simp: notify_def mq_inv_counters)
  have "\<not> waits_send old" "\<not> waits_receive old" "\<not> woken_receive old" "\<not> notifies_sender old" "\<not> notifies_receiver old"
    using old by (cases old; simp)+
  then have "wakeup_inv bld (set_thread i ?pc (s\<lparr>hdr := h'\<rparr>))"
    using w counts_from [OF i pc, of ?pc] h' lt blk unfolding notify_def
    by (cases "woken_send old") (auto simp: wakeup_inv_def split: if_splits)
  moreover have "length (contents live ?h) < m_max_num_msg ?h" using q lt by (simp add: mq_inv_def length_contents)
  ultimately show ?thesis
    using sys_inv_set [OF inv h'(1,5,4), of ?pc i] h' c cap by (auto intro: pq_step.put)
qed

lemma sim_receive_commit:
  assumes inv: "sys_inv bld live wf cap s" and i: "i < length (threads s)" and pc: "threads s ! i = old"
    and old: "old = Idle \<or> woken_receive old"
    and blk: "circular_index bld \<Longrightarrow> k + of_bool (woken_receive old) = wr s + kr s"
    and some: "\<not> mq_is_empty (hdr s)" and n: "m_max_msg_size (hdr s) \<le> length buffer"
  defines "notify \<equiv> circular_index bld \<longrightarrow> 0 \<noteq> m_blocked_senders (hdr s)"
  shows "\<exists>h' p d. receive_commit bld buffer ((hdr s)\<lparr>m_blocked_receivers := k\<rparr>) =
      Some (h', (d @ drop (length d) buffer, length d, p), notify) \<and>
    sys_inv bld live wf cap (set_thread i (if notify then Notify_sender else Idle) (s\<lparr>hdr := h'\<rparr>)) \<and>
    pq_step cap (contents live (hdr s)) (Get (p, d)) (contents live h')"
proof -
  let ?h = "hdr s" and ?pc = "if notify then Notify_sender else Idle"
  have q: "mq_inv live wf ?h" and w: "wakeup_inv bld s" using inv by (simp_all add: sys_inv_def)
  have "mq_inv live wf (?h\<lparr>m_blocked_receivers := k\<rparr>)" using q by (simp add: mq_inv_counters)
  from receive_commit_refines [OF this, of buffer] some n obtain h' p d
    where c: "receive_commit bld buffer (?h\<lparr>m_blocked_receivers := k\<rparr>) =
          Some (h', (d @ drop (length d) buffer, length d, p), notify)"
      and h': "mq_inv live wf h'" "contents live ?h = (p, d) # contents live h'"
        "m_cur_num_msg ?h = Suc (m_cur_num_msg h')" "m_max_num_msg h' = m_max_num_msg ?h"
        "m_max_msg_size h' = m_max_msg_size ?h" "m_blocked_senders h' = m_blocked_senders ?h"
        "m_blocked_receivers h' = k"
    by (auto simp: notify_def mq_is_empty_def mq_inv_counters)
  have "\<not> waits_send old" "\<not> woken_send old" "\<not> waits_receive old" "\<not> notifies_sender old" "\<not> notifies_receiver old"
    using old by (cases old; simp)+
  then have "wakeup_inv bld (set_thread i ?pc (s\<lparr>hdr := h'\<rparr>))"
    using w counts_from [OF i pc, of ?pc] h' cur_bound [OF q] blk unfolding notify_def
    by (cases "woken_receive old") (auto simp: wakeup_inv_def split: if_splits)
  then show ?thesis
    using sys_inv_set [OF inv h'(1,5,4), of ?pc i] h' c by (auto intro: pq_step.get)
qed

lemma sim_send_call:
  assumes inv: "sys_inv bld live wf cap s" and i: "i < length (threads s)" and idle: "threads s ! i = Idle"
    and n: "n \<le> length buffer"
    and step: "after_send block buffer n p i s (do_send_enter bld block buffer n p (hdr s)) = (ev, s')"
  shows "sys_inv bld live wf cap s' \<and>
    pq_step cap (contents live (hdr s)) ev (contents live (hdr s'))"
proof -
  let ?h = "hdr s"
  have q: "mq_inv live wf ?h" and w: "wakeup_inv bld s" and len: "length (threads s) < 2 ^ 64"
      and cap: "m_max_num_msg ?h = cap"
    using inv by (simp_all add: sys_inv_def)
  note cnt = counts_from [OF i idle] and bnd = blocked_bounds [OF len i idle]
  have same: "dec_blocked_senders bld (inc_blocked_senders bld ?h) = ?h"
    using w bnd by (auto simp: wakeup_inv_def dec_blocked_senders_def inc_blocked_senders_def)
  have set0: "set_thread i Idle s = s" using idle by (rule set_thread_same)
  consider (err) "m_max_msg_size ?h < n" | (try_full) "n \<le> m_max_msg_size ?h" "mq_is_full ?h" "block = non_blocking"
    | (full) "n \<le> m_max_msg_size ?h" "mq_is_full ?h" "block \<noteq> non_blocking"
    | (room) "n \<le> m_max_msg_size ?h" "\<not> mq_is_full ?h" by linarith
  then show ?thesis
  proof cases
    case err
    with step set0 have "ev = Tau" "s' = s" by (auto simp: after_send_def do_send_enter_def)
    with inv show ?thesis by (simp add: pq_step.tau)
  next
    case try_full
    with step set0 same have "ev = Tau" "s' = s"
      by (auto simp: after_send_def do_send_enter_def Let_def)
    with inv show ?thesis by (simp add: pq_step.tau)
  next
    case full
    let ?pc = "Waiting_send block buffer n p" and ?h1 = "inc_blocked_senders bld ?h"
    from full have "do_send_enter bld block buffer n p ?h = Some (?h1, Waits)"
      by (cases block) (auto simp: do_send_enter_def)
    with step have s': "ev = Tau" "s' = set_thread i ?pc (s\<lparr>hdr := ?h1\<rparr>)"
      by (auto simp: after_send_def)
    have h1: "mq_inv live wf ?h1" "contents live ?h1 = contents live ?h"
        "m_max_msg_size ?h1 = m_max_msg_size ?h" "m_max_num_msg ?h1 = m_max_num_msg ?h"
      using q by (simp_all add: inc_blocked_senders_def mq_inv_counters)
    have "wakeup_inv bld (set_thread i ?pc (s\<lparr>hdr := ?h1\<rparr>))"
      using w cnt [of ?pc] bnd full(2)
      by (auto simp: wakeup_inv_def inc_blocked_senders_def mq_is_full_def)
    then show ?thesis
      using sys_inv_set [OF inv h1(1,3,4), of ?pc i] full n h1 s' by (auto intro: pq_step.tau)
  next
    case room
    from sim_send_commit [OF inv i idle _ _ room(2,1) n, of "m_blocked_senders ?h" p] w
    show ?thesis using room step by (auto simp: after_send_def do_send_enter_def wakeup_inv_def split: if_splits)
  qed
qed

lemma sim_send_resume:
  assumes inv: "sys_inv bld live wf cap s" and i: "i < length (threads s)"
    and pc: "threads s ! i = Woken_send block timed_out buffer n p"
    and step: "after_send block buffer n p i s
      (do_send_wakeup bld block timed_out buffer n p (hdr s)) = (ev, s')"
  shows "sys_inv bld live wf cap s' \<and>
    pq_step cap (contents live (hdr s)) ev (contents live (hdr s'))"
proof -
  let ?h = "hdr s" and ?h1 = "dec_blocked_senders bld (hdr s)"
  have q: "mq_inv live wf ?h" and w: "wakeup_inv bld s"
    and n: "n \<le> m_max_msg_size ?h" "n \<le> length buffer" and cap: "m_max_num_msg ?h = cap"
    using inv i nth_mem [OF i] pc by (force simp: sys_inv_def)+
  note cnt = counts_from [OF i pc]
  have blk: "circular_index bld \<Longrightarrow> m_blocked_senders ?h1 = ws s + ks s - 1 \<and> 0 < ks s"
    using w cnt(2) [of Idle] by (auto simp: wakeup_inv_def dec_blocked_senders_def)
  have h1: "mq_inv live wf ?h1" "contents live ?h1 = contents live ?h"
      "m_max_msg_size ?h1 = m_max_msg_size ?h" "m_max_num_msg ?h1 = m_max_num_msg ?h"
      "m_cur_num_msg ?h1 = m_cur_num_msg ?h" "m_blocked_receivers ?h1 = m_blocked_receivers ?h"
    using q by (simp_all add: dec_blocked_senders_def mq_inv_counters)
  consider (out) "mq_is_full ?h" "block = timed \<and> timed_out"
    | (again) "mq_is_full ?h" "\<not> (block = timed \<and> timed_out)" | (room) "\<not> mq_is_full ?h" by blast
  then show ?thesis
  proof cases
    case out
    with step have s': "ev = Tau" "s' = set_thread i Idle (s\<lparr>hdr := ?h1\<rparr>)"
      by (auto simp: after_send_def do_send_wakeup_def)
    have "wakeup_inv bld (set_thread i Idle (s\<lparr>hdr := ?h1\<rparr>))"
      using w cnt [of Idle] blk h1 out
      by (auto simp: wakeup_inv_def mq_is_full_def)
    then show ?thesis
      using sys_inv_set [OF inv h1(1,3,4), of Idle i] h1 s' by (auto intro: pq_step.tau)
  next
    case again
    let ?pc = "Waiting_send block buffer n p"
    from again step have s': "ev = Tau" "s' = set_thread i ?pc (s\<lparr>hdr := ?h\<rparr>)"
      by (auto simp: after_send_def do_send_wakeup_def)
    have "wakeup_inv bld (set_thread i ?pc (s\<lparr>hdr := ?h\<rparr>))"
      using w cnt [of ?pc] again by (auto simp: wakeup_inv_def mq_is_full_def)
    then show ?thesis
      using sys_inv_set [OF inv q refl refl, of ?pc i] n s' by (auto intro: pq_step.tau)
  next
    case room
    have dec: "?h\<lparr>m_blocked_senders := m_blocked_senders ?h1\<rparr> = ?h1" by (simp add: dec_blocked_senders_def)
    from sim_send_commit [OF inv i pc _ _ room n, of "m_blocked_senders ?h1" p] blk
    show ?thesis using room step unfolding dec
      by (auto simp: after_send_def do_send_wakeup_def split: if_splits)
  qed
qed

lemma sim_receive_call:
  assumes inv: "sys_inv bld live wf cap s" and i: "i < length (threads s)" and idle: "threads s ! i = Idle"
    and n: "n \<le> length buffer"
    and step: "after_receive block buffer i s (do_receive_enter bld block buffer n (hdr s)) = (ev, s')"
  shows "sys_inv bld live wf cap s' \<and>
    pq_step cap (contents live (hdr s)) ev (contents live (hdr s'))"
proof -
  let ?h = "hdr s"
  have q: "mq_inv live wf ?h" and w: "wakeup_inv bld s" and len: "length (threads s) < 2 ^ 64"
      and cap: "m_max_num_msg ?h = cap"
    using inv by (simp_all add: sys_inv_def)
  note cnt = counts_from [OF i idle] and bnd = blocked_bounds [OF len i idle]
  have same: "dec_blocked_receivers bld (inc_blocked_receivers bld ?h) = ?h"
    using w bnd by (auto simp: wakeup_inv_def dec_blocked_receivers_def inc_blocked_receivers_def)
  have set0: "set_thread i Idle s = s" using idle by (rule set_thread_same)
  consider (err) "n < m_max_msg_size ?h"
    | (try_empty) "m_max_msg_size ?h \<le> n" "mq_is_empty ?h" "block = non_blocking"
    | (empty) "m_max_msg_size ?h \<le> n" "mq_is_empty ?h" "block \<noteq> non_blocking"
    | (some) "m_max_msg_size ?h \<le> n" "\<not> mq_is_empty ?h" by linarith
  then show ?thesis
  proof cases
    case err
    with step set0 have "ev = Tau" "s' = s" by (auto simp: after_receive_def do_receive_enter_def)
    with inv show ?thesis by (simp add: pq_step.tau)
  next
    case try_empty
    with step set0 same have "ev = Tau" "s' = s"
      by (auto simp: after_receive_def do_receive_enter_def Let_def)
    with inv show ?thesis by (simp add: pq_step.tau)
  next
    case empty
    let ?pc = "Waiting_receive block buffer" and ?h1 = "inc_blocked_receivers bld ?h"
    from empty have "do_receive_enter bld block buffer n ?h = Some (?h1, Waits)"
      by (cases block) (auto simp: do_receive_enter_def)
    with step have s': "ev = Tau" "s' = set_thread i ?pc (s\<lparr>hdr := ?h1\<rparr>)"
      by (auto simp: after_receive_def)
    have h1: "mq_inv live wf ?h1" "contents live ?h1 = contents live ?h"
        "m_max_msg_size ?h1 = m_max_msg_size ?h" "m_max_num_msg ?h1 = m_max_num_msg ?h"
      using q by (simp_all add: inc_blocked_receivers_def mq_inv_counters)
    have "wakeup_inv bld (set_thread i ?pc (s\<lparr>hdr := ?h1\<rparr>))"
      using w cnt [of ?pc] bnd empty(2)
      by (auto simp: wakeup_inv_def inc_blocked_receivers_def mq_is_empty_def)
    then show ?thesis
      using sys_inv_set [OF inv h1(1,3,4), of ?pc i] empty n h1 s' by (auto intro: pq_step.tau)
  next
    case some
    from sim_receive_commit [OF inv i idle _ _ some(2), of "m_blocked_receivers ?h" buffer] w n some(1)
    show ?thesis using some step
      by (auto simp: after_receive_def do_receive_enter_def wakeup_inv_def split: if_splits)
  qed
qed

lemma sim_receive_resume:
  assumes inv: "sys_inv bld live wf cap s" and i: "i < length (threads s)"
    and pc: "threads s ! i = Woken_receive block timed_out buffer"
    and step: "after_receive block buffer i s
      (do_receive_wakeup bld block timed_out buffer (hdr s)) = (ev, s')"
  shows "sys_inv bld live wf cap s' \<and>
    pq_step cap (contents live (hdr s)) ev (contents live (hdr s'))"
proof -
  let ?h = "hdr s" and ?h1 = "dec_blocked_receivers bld (hdr s)"
  have q: "mq_inv live wf ?h" and w: "wakeup_inv bld s" and n: "m_max_msg_size ?h \<le> length buffer"
    using inv i nth_mem [OF i] pc by (force simp: sys_inv_def)+
  note cnt = counts_from [OF i pc]
  have blk: "circular_index bld \<Longrightarrow> m_blocked_receivers ?h1 = wr s + kr s - 1 \<and> 0 < kr s"
    using w cnt(5) [of Idle] by (auto simp: wakeup_inv_def dec_blocked_receivers_def)
  have h1: "mq_inv live wf ?h1" "contents live ?h1 = contents live ?h"
      "m_max_msg_size ?h1 = m_max_msg_size ?h" "m_max_num_msg ?h1 = m_max_num_msg ?h"
      "m_cur_num_msg ?h1 = m_cur_num_msg ?h" "m_blocked_senders ?h1 = m_blocked_senders ?h"
    using q by (simp_all add: dec_blocked_receivers_def mq_inv_counters)
  consider (out) "mq_is_empty ?h" "block = timed \<and> timed_out"
    | (again) "mq_is_empty ?h" "\<not> (block = timed \<and> timed_out)" | (some) "\<not> mq_is_empty ?h" by blast
  then show ?thesis
  proof cases
    case out
    with step have s': "ev = Tau" "s' = set_thread i Idle (s\<lparr>hdr := ?h1\<rparr>)"
      by (auto simp: after_receive_def do_receive_wakeup_def)
    have "wakeup_inv bld (set_thread i Idle (s\<lparr>hdr := ?h1\<rparr>))"
      using w cnt [of Idle] blk h1 out
      by (auto simp: wakeup_inv_def mq_is_empty_def)
    then show ?thesis
      using sys_inv_set [OF inv h1(1,3,4), of Idle i] h1 s' by (auto intro: pq_step.tau)
  next
    case again
    let ?pc = "Waiting_receive block buffer"
    from again step have s': "ev = Tau" "s' = set_thread i ?pc (s\<lparr>hdr := ?h\<rparr>)"
      by (auto simp: after_receive_def do_receive_wakeup_def)
    have "wakeup_inv bld (set_thread i ?pc (s\<lparr>hdr := ?h\<rparr>))"
      using w cnt [of ?pc] again by (auto simp: wakeup_inv_def mq_is_empty_def)
    then show ?thesis
      using sys_inv_set [OF inv q refl refl, of ?pc i] n s' by (auto intro: pq_step.tau)
  next
    case some
    have dec: "?h\<lparr>m_blocked_receivers := m_blocked_receivers ?h1\<rparr> = ?h1" by (simp add: dec_blocked_receivers_def)
    from sim_receive_commit [OF inv i pc _ _ some n, of "m_blocked_receivers ?h1"] blk
    show ?thesis using some step unfolding dec
      by (auto simp: after_receive_def do_receive_wakeup_def split: if_splits)
  qed
qed

text \<open>A wait that throws takes its thread out of the counters and out of the call.\<close>

lemma sim_send_throws:
  assumes inv: "sys_inv bld live wf cap s" and i: "i < length (threads s)"
    and pc: "threads s ! i = Waiting_send block buffer n p"
    and step: "after_send block buffer n p i s (do_send_caught bld x (hdr s)) = (ev, s')"
  shows "sys_inv bld live wf cap s' \<and>
    pq_step cap (contents live (hdr s)) ev (contents live (hdr s'))"
proof -
  let ?h = "hdr s" and ?h1 = "dec_blocked_senders bld (hdr s)"
  have q: "mq_inv live wf ?h" and w: "wakeup_inv bld s" using inv by (simp_all add: sys_inv_def)
  have h1: "mq_inv live wf ?h1" "contents live ?h1 = contents live ?h"
      "m_max_msg_size ?h1 = m_max_msg_size ?h" "m_max_num_msg ?h1 = m_max_num_msg ?h"
    using q by (simp_all add: dec_blocked_senders_def mq_inv_counters)
  have s': "ev = Tau" "s' = set_thread i Idle (s\<lparr>hdr := ?h1\<rparr>)"
    using step by (auto simp: after_send_def do_send_caught_def)
  have "wakeup_inv bld (set_thread i Idle (s\<lparr>hdr := ?h1\<rparr>))"
    using w counts_from [OF i pc, of Idle] by (auto simp: wakeup_inv_def dec_blocked_senders_def)
  then show ?thesis
    using sys_inv_set [OF inv h1(1,3,4), of Idle i] h1 s' by (auto intro: pq_step.tau)
qed

lemma sim_receive_throws:
  assumes inv: "sys_inv bld live wf cap s" and i: "i < length (threads s)"
    and pc: "threads s ! i = Waiting_receive block buffer"
    and step: "after_receive block buffer i s (do_receive_caught bld x (hdr s)) = (ev, s')"
  shows "sys_inv bld live wf cap s' \<and>
    pq_step cap (contents live (hdr s)) ev (contents live (hdr s'))"
proof -
  let ?h = "hdr s" and ?h1 = "dec_blocked_receivers bld (hdr s)"
  have q: "mq_inv live wf ?h" and w: "wakeup_inv bld s" using inv by (simp_all add: sys_inv_def)
  have h1: "mq_inv live wf ?h1" "contents live ?h1 = contents live ?h"
      "m_max_msg_size ?h1 = m_max_msg_size ?h" "m_max_num_msg ?h1 = m_max_num_msg ?h"
    using q by (simp_all add: dec_blocked_receivers_def mq_inv_counters)
  have s': "ev = Tau" "s' = set_thread i Idle (s\<lparr>hdr := ?h1\<rparr>)"
    using step by (auto simp: after_receive_def do_receive_caught_def)
  have "wakeup_inv bld (set_thread i Idle (s\<lparr>hdr := ?h1\<rparr>))"
    using w counts_from [OF i pc, of Idle] by (auto simp: wakeup_inv_def dec_blocked_receivers_def)
  then show ?thesis
    using sys_inv_set [OF inv h1(1,3,4), of Idle i] h1 s' by (auto intro: pq_step.tau)
qed

text \<open>Steps that only move threads.\<close>

lemma sim_thread:
  assumes "sys_inv bld live wf cap s" and "pc_ok (hdr s) pc" and "wakeup_inv bld (set_thread i pc s)"
  shows "sys_inv bld live wf cap (set_thread i pc s) \<and>
    pq_step cap (contents live (hdr s)) Tau (contents live (hdr (set_thread i pc s)))"
  using sys_inv_set [of cap s "hdr s" pc i] assms by (auto simp: sys_inv_def intro: pq_step.tau)

lemma sim_threads:
  assumes inv: "sys_inv bld live wf cap s" and ij: "threads s ! i \<noteq> threads s ! j"
    and ok: "pc_ok (hdr s) pc" and w: "wakeup_inv bld (set_thread j pc (set_thread i Idle s))"
  shows "sys_inv bld live wf cap (set_thread j pc (set_thread i Idle s)) \<and>
    pq_step cap (contents live (hdr s)) Tau
      (contents live (hdr (set_thread j pc (set_thread i Idle s))))"
  using assms
  by (auto simp: sys_inv_def intro: pq_step.tau dest!: subsetD [OF set_update_subset_insert])

lemma work_simulates:
  assumes "mq_work bld s ev s'" and inv: "sys_inv bld live wf cap s"
  shows "sys_inv bld live wf cap s' \<and> pq_step cap (contents live (hdr s)) ev (contents live (hdr s'))"
  using assms(1)
proof cases
  case (send_resume i block timed_out buffer n p)
  then show ?thesis using sim_send_resume [OF inv] by blast
next
  case (receive_resume i block timed_out buffer)
  then show ?thesis using sim_receive_resume [OF inv] by blast
next
  case (notify_receiver i j block buffer)
  let ?pc = "Woken_receive block False buffer"
  note w = sys_inv_wakeup [OF inv] and ok = sys_inv_pc [OF inv notify_receiver(5)]
  have j: "threads (set_thread i Idle s) ! j = Waiting_receive block buffer"
    using notify_receiver by (cases "i = j") auto
  have "wakeup_inv bld (set_thread j ?pc (set_thread i Idle s))"
    using w counts_from [OF notify_receiver(3,4), of Idle]
      counts_from [OF _ j, of ?pc] notify_receiver(5)
    by (auto simp: wakeup_inv_def)
  then show ?thesis
    using notify_receiver ok sim_threads [OF inv, of i j ?pc] by auto
next
  case (notify_sender i j block buffer n p)
  let ?pc = "Woken_send block False buffer n p"
  note w = sys_inv_wakeup [OF inv] and ok = sys_inv_pc [OF inv notify_sender(5)]
  have j: "threads (set_thread i Idle s) ! j = Waiting_send block buffer n p"
    using notify_sender by (cases "i = j") auto
  have "wakeup_inv bld (set_thread j ?pc (set_thread i Idle s))"
    using w counts_from [OF notify_sender(3,4), of Idle]
      counts_from [OF _ j, of ?pc] notify_sender(5)
    by (auto simp: wakeup_inv_def)
  then show ?thesis
    using notify_sender ok sim_threads [OF inv, of i j ?pc] by auto
next
  case (notify_no_receiver i)
  have "wr s = 0"
    using notify_no_receiver(5) by (simp add: no_waiting_receive)
  then have "wakeup_inv bld (set_thread i Idle s)"
    using sys_inv_wakeup [OF inv] counts_from [OF notify_no_receiver(3,4), of Idle]
    by (auto simp: wakeup_inv_def)
  then show ?thesis using notify_no_receiver sim_thread [OF inv, of Idle i] by simp
next
  case (notify_no_sender i)
  have "ws s = 0"
    using notify_no_sender(5) by (simp add: no_waiting_send)
  then have "wakeup_inv bld (set_thread i Idle s)"
    using sys_inv_wakeup [OF inv] counts_from [OF notify_no_sender(3,4), of Idle]
    by (auto simp: wakeup_inv_def)
  then show ?thesis using notify_no_sender sim_thread [OF inv, of Idle i] by simp
qed

theorem step_simulates:
  assumes "mq_step bld s ev s'" and inv: "sys_inv bld live wf cap s"
  shows "sys_inv bld live wf cap s' \<and> pq_step cap (contents live (hdr s)) ev (contents live (hdr s'))"
  using assms(1)
proof cases
  case work
  then show ?thesis by (rule work_simulates [OF _ inv])
next
  case (send_call i n buffer block p)
  then show ?thesis using sim_send_call [OF inv] by blast
next
  case (receive_call i n buffer block)
  then show ?thesis using sim_receive_call [OF inv] by blast
next
  case (send_throws i block buffer n p)
  then show ?thesis using sim_send_throws [OF inv] by blast
next
  case (receive_throws i block buffer)
  then show ?thesis using sim_receive_throws [OF inv] by blast
next
  case (send_wake i block buffer n p)
  then show ?thesis
    using sim_thread [OF inv _ wake_send_inv [OF sys_inv_wakeup [OF inv] send_wake(3,4)], of False]
      sys_inv_pc [OF inv send_wake(3)] by auto
next
  case (send_timeout i buffer n p)
  then show ?thesis
    using sim_thread [OF inv _ wake_send_inv [OF sys_inv_wakeup [OF inv] send_timeout(3,4)], of True]
      sys_inv_pc [OF inv send_timeout(3)] by auto
next
  case (receive_wake i block buffer)
  then show ?thesis
    using sim_thread [OF inv _ wake_receive_inv [OF sys_inv_wakeup [OF inv] receive_wake(3,4)], of False]
      sys_inv_pc [OF inv receive_wake(3)] by auto
next
  case (receive_timeout i buffer)
  then show ?thesis
    using sim_thread [OF inv _ wake_receive_inv [OF sys_inv_wakeup [OF inv] receive_timeout(3,4)], of True]
      sys_inv_pc [OF inv receive_timeout(3)] by auto
qed

end

end
