(* ===== verification/Mq_Layout.thy ===== *)
theory Mq_Layout
  imports Mq_Header
begin

text \<open>
  The memory of a queue (\<^verbatim>\<open>mq_hdr_t::get_mem_size\<close> and \<^verbatim>\<open>mq_hdr_t::initialize_memory\<close>): the
  control block, the index and the message blocks, one after the other. All sizes are
  64-bit words, so the computations wrap around as they do in the code.

  What the compiler and Boost fix is a parameter, the record \<open>layout\<close>: the sizes and
  alignments of the three structures, \<^verbatim>\<open>ManagedOpenOrCreateUserOffset\<close>, and the rounding
  functions \<^verbatim>\<open>ct_rounded_size\<close> and \<^verbatim>\<open>get_rounded_size\<close>. \<open>layout_ok\<close> is what the code relies on:
  alignments are powers of two, and rounding goes up to a multiple of the alignment where the
  sum does not overflow. The content
  of the fresh segment is a parameter too; the constructor does not write the message
  headers, and relies on a new segment being filled with zeros.
\<close>

record layout =
  sizeof_mq_hdr :: u64
  sizeof_msg_hdr_ptr :: u64
  sizeof_msg_header :: u64
  msg_hdr_align :: u64
  index_align :: u64
  user_offset :: u64
  ct_rounded_size :: "u64 \<Rightarrow> u64 \<Rightarrow> u64"
  get_rounded_size :: "u64 \<Rightarrow> u64 \<Rightarrow> u64"

section \<open>Definitions\<close>

definition r_hdr_size :: "layout \<Rightarrow> u64" where
  "r_hdr_size L = ct_rounded_size L (sizeof_mq_hdr L) (index_align L)"

definition r_index_size :: "layout \<Rightarrow> u64 \<Rightarrow> u64" where
  "r_index_size L max_num_msg =
     get_rounded_size L (max_num_msg * sizeof_msg_hdr_ptr L) (msg_hdr_align L)"

definition r_max_msg_size :: "layout \<Rightarrow> u64 \<Rightarrow> u64" where
  "r_max_msg_size L max_msg_size =
     get_rounded_size L max_msg_size (msg_hdr_align L) + sizeof_msg_header L"

definition get_mem_size :: "layout \<Rightarrow> u64 \<Rightarrow> u64 \<Rightarrow> u64" where
  "get_mem_size L max_msg_size max_num_msg =
     r_hdr_size L + r_index_size L max_num_msg + (max_num_msg * r_max_msg_size L max_msg_size) +
     user_offset L"

text \<open>The size the initialization functor asks for (\<^verbatim>\<open>get_min_size\<close>).\<close>

definition get_min_size :: "layout \<Rightarrow> u64 \<Rightarrow> u64 \<Rightarrow> u64" where
  "get_min_size L maxmsg maxmsgsize = get_mem_size L maxmsgsize maxmsg - user_offset L"

text \<open>The loop of \<^verbatim>\<open>initialize_memory\<close>: \<open>n\<close> slots, the next message \<open>step\<close> bytes further on.\<close>

fun fill_index :: "nat \<Rightarrow> u64 \<Rightarrow> u64 \<Rightarrow> u64 list" where
  "fill_index 0 hdr step = []"
| "fill_index (Suc n) hdr step = hdr # fill_index n (hdr + step) step"

definition initialize_memory :: "layout \<Rightarrow> u64 \<Rightarrow> u64 \<Rightarrow> u64 list" where
  "initialize_memory L max_num_msg max_msg_size =
     fill_index (unat max_num_msg) (r_hdr_size L + r_index_size L max_num_msg)
       (r_max_msg_size L max_msg_size)"

text \<open>
  What a message pointer finds in the memory: \<open>raw_len\<close>, \<open>raw_prio\<close> and \<open>raw_byte\<close> are the
  content of the segment before the constructor runs. The data area of a message is the
  rest of its block.
\<close>

record raw_memory =
  raw_len :: "u64 \<Rightarrow> nat"
  raw_prio :: "u64 \<Rightarrow> u32"
  raw_byte :: "u64 \<Rightarrow> nat \<Rightarrow> u8"

definition block_at :: "layout \<Rightarrow> raw_memory \<Rightarrow> u64 \<Rightarrow> u64 \<Rightarrow> msg_hdr" where
  "block_at L mem max_msg_size a =
     \<lparr>msg_len = raw_len mem a, msg_priority = raw_prio mem a,
      msg_data = map (raw_byte mem a)
        [0..<unat (r_max_msg_size L max_msg_size - sizeof_msg_header L)]\<rparr>"

text \<open>The constructor \<^verbatim>\<open>mq_hdr_t(max_num_msg, max_msg_size)\<close>.\<close>

definition mq_hdr_new :: "layout \<Rightarrow> raw_memory \<Rightarrow> u64 \<Rightarrow> u64 \<Rightarrow> mq_hdr" where
  "mq_hdr_new L mem max_num_msg max_msg_size =
     (let index = initialize_memory L max_num_msg max_msg_size
      in \<lparr>mp_index = index,
          m_max_num_msg = unat max_num_msg, m_max_msg_size = unat max_msg_size,
          m_cur_num_msg = 0, m_cur_first_msg = 0, m_blocked_senders = 0, m_blocked_receivers = 0,
          messages = (\<lambda>a. if a \<in> set index then Some (block_at L mem max_msg_size a) else None)\<rparr>)"

section \<open>What the layout relies on\<close>

definition rounds_up :: "(u64 \<Rightarrow> u64 \<Rightarrow> u64) \<Rightarrow> bool" where
  "rounds_up f \<longleftrightarrow>
     (\<forall>x a k. unat a = 2 ^ k \<longrightarrow> unat x + unat a < 2 ^ 64 \<longrightarrow>
        unat (f x a) = (unat x + unat a - 1) div unat a * unat a)"

definition power_of_two :: "u64 \<Rightarrow> bool" where
  "power_of_two a \<longleftrightarrow> (\<exists>k. unat a = 2 ^ k)"

definition layout_ok :: "layout \<Rightarrow> bool" where
  "layout_ok L \<longleftrightarrow>
     rounds_up (ct_rounded_size L) \<and> rounds_up (get_rounded_size L) \<and>
     power_of_two (msg_hdr_align L) \<and> power_of_two (index_align L) \<and>
     0 < unat (sizeof_msg_header L) \<and> unat (msg_hdr_align L) dvd unat (sizeof_msg_header L) \<and>
     unat (sizeof_mq_hdr L) + unat (index_align L) < 2 ^ 64"

text \<open>No step of the size computation wraps around.\<close>

definition layout_fits :: "layout \<Rightarrow> u64 \<Rightarrow> u64 \<Rightarrow> bool" where
  "layout_fits L n s \<longleftrightarrow>
     unat n * unat (sizeof_msg_hdr_ptr L) + unat (msg_hdr_align L) < 2 ^ 64 \<and>
     unat s + unat (msg_hdr_align L) + unat (sizeof_msg_header L) < 2 ^ 64 \<and>
     unat (r_hdr_size L) + unat (r_index_size L n) + unat n * unat (r_max_msg_size L s) +
       unat (user_offset L) < 2 ^ 64"

lemma round_up_bounds:
  assumes "rounds_up f" and "power_of_two a" and "unat x + unat a < 2 ^ 64"
  shows "unat x \<le> unat (f x a)" and "unat (f x a) < unat x + unat a" and "unat a dvd unat (f x a)"
proof -
  let ?y = "unat x + unat a - 1"
  have pos: "0 < unat a" using assms(2) by (auto simp: power_of_two_def)
  have eq: "unat (f x a) = ?y div unat a * unat a"
    using assms unfolding rounds_up_def power_of_two_def by blast
  have "?y div unat a * unat a + ?y mod unat a = ?y" by simp
  moreover have "?y mod unat a < unat a" using pos by simp
  ultimately show "unat x \<le> unat (f x a)" "unat (f x a) < unat x + unat a"
    unfolding eq using pos by linarith+
  show "unat a dvd unat (f x a)" by (simp add: eq)
qed

lemma length_fill_index [simp]: "length (fill_index n hdr step) = n"
  by (induction n arbitrary: hdr) auto

lemma nth_fill_index: "i < n \<Longrightarrow> fill_index n hdr step ! i = hdr + of_nat i * step"
proof (induction n arbitrary: hdr i)
  case (Suc n)
  then show ?case by (cases i) (simp_all add: algebra_simps)
qed simp

section \<open>The layout is sound where it fits\<close>

lemma r_max_msg_size_eq:
  assumes "layout_ok L" and "layout_fits L n s"
  shows "unat (r_max_msg_size L s) =
      unat (get_rounded_size L s (msg_hdr_align L)) + unat (sizeof_msg_header L)"
    and "unat s \<le> unat (r_max_msg_size L s - sizeof_msg_header L)"
proof -
  have fits: "unat s + unat (msg_hdr_align L) < 2 ^ 64"
      "unat s + unat (msg_hdr_align L) + unat (sizeof_msg_header L) < 2 ^ 64"
    using assms(2) by (simp_all add: layout_fits_def)
  note r = round_up_bounds [of "get_rounded_size L" "msg_hdr_align L" s]
  have r: "unat s \<le> unat (get_rounded_size L s (msg_hdr_align L))"
      "unat (get_rounded_size L s (msg_hdr_align L)) < unat s + unat (msg_hdr_align L)"
    using r fits assms(1) by (simp_all add: layout_ok_def)
  then show eq: "unat (r_max_msg_size L s) =
      unat (get_rounded_size L s (msg_hdr_align L)) + unat (sizeof_msg_header L)"
    using fits by (simp add: r_max_msg_size_def unat_word_ariths)
  have "r_max_msg_size L s - sizeof_msg_header L = get_rounded_size L s (msg_hdr_align L)"
    by (simp add: r_max_msg_size_def)
  with r show "unat s \<le> unat (r_max_msg_size L s - sizeof_msg_header L)" by simp
qed

lemma get_mem_size_eq:
  assumes "layout_fits L n s"
  shows "unat (get_mem_size L s n) = unat (r_hdr_size L) + unat (r_index_size L n) +
      unat n * unat (r_max_msg_size L s) + unat (user_offset L)"
  using assms by (simp add: layout_fits_def get_mem_size_def unat_word_ariths mod_simps)

lemma index_address:
  assumes fits: "layout_fits L n s" and i: "i < unat n"
  shows "unat (initialize_memory L n s ! i) =
    unat (r_hdr_size L) + unat (r_index_size L n) + i * unat (r_max_msg_size L s)"
proof -
  let ?b = "unat (r_hdr_size L) + unat (r_index_size L n)" and ?r = "unat (r_max_msg_size L s)"
  have "i * ?r \<le> unat n * ?r" using i by simp
  moreover have "?b + unat n * ?r < 2 ^ 64" using fits by (simp add: layout_fits_def)
  ultimately have less: "?b + i * ?r < 2 ^ 64" by linarith
  have "unat n < 2 ^ LENGTH(64)" by (rule unsigned_less)
  then have il: "i < 2 ^ 64" using i by simp
  have "initialize_memory L n s ! i = r_hdr_size L + r_index_size L n + of_nat i * r_max_msg_size L s"
    using i by (simp add: initialize_memory_def nth_fill_index)
  with less il show ?thesis by (simp add: unat_word_ariths unat_of_nat mod_simps)
qed

lemma block_positive:
  assumes "layout_ok L" and "layout_fits L n s"
  shows "0 < unat (r_max_msg_size L s)"
  using r_max_msg_size_eq(1) [OF assms] assms(1) by (simp add: layout_ok_def)

lemma distinct_initialize_memory:
  assumes ok: "layout_ok L" and fits: "layout_fits L n s"
  shows "distinct (initialize_memory L n s)"
proof -
  have "initialize_memory L n s ! i \<noteq> initialize_memory L n s ! j"
    if "i < unat n" "j < unat n" "i \<noteq> j" for i j
  proof
    assume "initialize_memory L n s ! i = initialize_memory L n s ! j"
    then have "unat (initialize_memory L n s ! i) = unat (initialize_memory L n s ! j)" by simp
    then have "i * unat (r_max_msg_size L s) = j * unat (r_max_msg_size L s)"
      using that index_address [OF fits] by simp
    then show False using that block_positive [OF ok fits] by simp
  qed
  then show ?thesis
    by (simp add: distinct_conv_nth initialize_memory_def)
qed

section \<open>The layout of a 64-bit build\<close>

text \<open>
  A concrete instance, for evaluation: pointers of 8 bytes, a message header of a 64-bit
  length and a 32-bit priority padded to 16 bytes, and Boost's rounding formula.
\<close>

definition boost_round :: "u64 \<Rightarrow> u64 \<Rightarrow> u64" where
  "boost_round x a = ((x - 1) div a + 1) * a"

definition x64_layout :: layout where
  "x64_layout =
     \<lparr>sizeof_mq_hdr = 192, sizeof_msg_hdr_ptr = 8, sizeof_msg_header = 16, msg_hdr_align = 8,
      index_align = 8, user_offset = 16, ct_rounded_size = boost_round,
      get_rounded_size = boost_round\<rparr>"

lemma pred_div_mult:
  assumes "0 < (c::nat)" and "0 < d"
  shows "(c * d - 1) div d = c - 1"
proof -
  obtain c' d' where c: "c = Suc c'" and d: "d = Suc d'"
    using assms gr0_implies_Suc by blast
  have "c * d - 1 = d' + c' * Suc d'" by (simp add: c d)
  also have "\<dots> div Suc d' = c'" by (subst div_mult_self1) simp_all
  finally show ?thesis by (simp add: c d)
qed

lemma unat_minus_1: "unat (- 1 :: u64) = 2 ^ 64 - 1"
  by (simp add: unsigned_minus_1_eq_mask mask_eq_exp_minus_1)

lemma unat_boost_round:
  "unat (boost_round x a) = (unat (x - 1) div unat a + 1) * unat a mod 2 ^ 64"
  by (simp add: boost_round_def unat_word_ariths unat_div mod_simps)

lemma boost_round_zero:
  assumes "unat a = 2 ^ k" and "unat a < 2 ^ 64"
  shows "boost_round 0 a = 0"
proof -
  have k: "k < 64"
    using assms by (metis one_less_numeral_iff power_less_imp_less_exp semiring_norm(76))
  then have split: "(2::nat) ^ 64 = 2 ^ (64 - k) * 2 ^ k" by (simp flip: power_add)
  have "unat (boost_round 0 a) = ((2 ^ 64 - 1) div 2 ^ k + 1) * 2 ^ k mod 2 ^ 64"
    using assms(1) by (simp only: unat_boost_round diff_0 unat_minus_1)
  also have "\<dots> = 0"
    using pred_div_mult [of "2 ^ (64 - k)" "2 ^ k"] unfolding split by simp
  finally show ?thesis by (simp add: unat_eq_zero)
qed

lemma boost_round_rounds_up: "rounds_up boost_round"
  unfolding rounds_up_def
proof (intro allI impI)
  fix x a :: u64 and k
  assume a: "unat a = 2 ^ k" and fits: "unat x + unat a < 2 ^ 64"
  then have pos: "0 < unat a" by simp
  show "unat (boost_round x a) = (unat x + unat a - 1) div unat a * unat a"
  proof (cases "x = 0")
    case True
    with a fits boost_round_zero [of a k] show ?thesis by simp
  next
    case False
    then have x: "unat x \<noteq> 0" by (simp add: unat_eq_zero)
    have x1: "unat (x - 1) = unat x - 1" using False by (rule unat_minus_one)
    have "unat x + unat a - 1 = unat x - 1 + unat a" using x by simp
    then have div: "(unat x + unat a - 1) div unat a = (unat x - 1) div unat a + 1"
      using pos by (simp only: div_add_self2)
    have "(unat x + unat a - 1) div unat a * unat a \<le> unat x + unat a - 1"
      by (rule div_times_less_eq_dividend)
    then have "(unat x + unat a - 1) div unat a * unat a < 2 ^ 64"
      using fits by linarith
    then show ?thesis
      unfolding unat_boost_round x1 div by (rule mod_less)
  qed
qed

section \<open>The size where it does not fit\<close>

text \<open>
  The size the queue needs, over natural numbers. Boost's rounding computes modulo \<open>2 ^ 64\<close> (\<open>rounds_wrapping\<close>), and so do
  the sums and products of \<^verbatim>\<open>get_mem_size\<close>.
\<close>

definition nat_round_up :: "nat \<Rightarrow> nat \<Rightarrow> nat" where
  "nat_round_up x a = (x + a - 1) div a * a"

definition mem_size_needed :: "layout \<Rightarrow> nat \<Rightarrow> nat \<Rightarrow> nat" where
  "mem_size_needed L s n =
     nat_round_up (unat (sizeof_mq_hdr L)) (unat (index_align L)) +
     nat_round_up (n * unat (sizeof_msg_hdr_ptr L)) (unat (msg_hdr_align L)) +
     n * (nat_round_up s (unat (msg_hdr_align L)) + unat (sizeof_msg_header L)) + unat (user_offset L)"

definition rounds_wrapping :: "(u64 \<Rightarrow> u64 \<Rightarrow> u64) \<Rightarrow> bool" where
  "rounds_wrapping f \<longleftrightarrow>
     (\<forall>x a k. unat a = 2 ^ k \<longrightarrow> unat (f x a) = nat_round_up (unat x) (unat a) mod 2 ^ 64)"

lemma power_of_two_dvd:
  assumes "power_of_two a"
  shows "unat a dvd 2 ^ 64" and "0 < unat a"
proof -
  obtain k where k: "unat a = 2 ^ k" using assms by (auto simp: power_of_two_def)
  have "unat a < 2 ^ LENGTH(64)" by (rule unsigned_less)
  then have "unat a < 2 ^ 64" by simp
  with k have "k < 64" by (metis one_less_numeral_iff power_less_imp_less_exp semiring_norm(76))
  then show "unat a dvd 2 ^ 64" unfolding k by (intro le_imp_power_dvd) simp
  show "0 < unat a" using k by simp
qed

text \<open>Rounding up to a divisor of \<open>N\<close> and reducing modulo \<open>N\<close> can change places.\<close>

lemma nat_round_up_mod:
  assumes "a dvd N" and "0 < a" and "0 < N"
  shows "nat_round_up (x mod N) a mod N = nat_round_up x a mod N"
proof -
  obtain c where c: "N = a * c" using assms(1) by blast
  let ?q = "x div N"
  have "x + a - 1 = (x mod N + a - 1) + a * (c * ?q)"
    using assms(2) mult_div_mod_eq [of N x] by (simp add: c algebra_simps)
  then have "(x + a - 1) div a = (x mod N + a - 1) div a + c * ?q"
    using assms(2) by (simp only: div_mult_self2)
  then have "nat_round_up x a = nat_round_up (x mod N) a + N * ?q"
    by (simp add: nat_round_up_def c algebra_simps)
  then show ?thesis by simp
qed

lemma boost_round_wraps: "rounds_wrapping boost_round"
  unfolding rounds_wrapping_def
proof (intro allI impI)
  fix x a :: u64 and k
  assume a: "unat a = 2 ^ k"
  then have pos: "0 < unat a" by simp
  show "unat (boost_round x a) = nat_round_up (unat x) (unat a) mod 2 ^ 64"
  proof (cases "x = 0")
    case True
    have "unat a < 2 ^ LENGTH(64)" by (rule unsigned_less)
    with True a pos boost_round_zero [of a k] show ?thesis by (simp add: nat_round_up_def)
  next
    case False
    then have "unat x \<noteq> 0" by (simp add: unat_eq_zero)
    then have "unat x + unat a - 1 = unat x - 1 + unat a" by simp
    then have "(unat x + unat a - 1) div unat a = (unat x - 1) div unat a + 1"
      using pos by (simp only: div_add_self2)
    then show ?thesis
      unfolding unat_boost_round nat_round_up_def unat_minus_one [OF False] by simp
  qed
qed

lemma get_mem_size_mod:
  assumes "rounds_wrapping (ct_rounded_size L)" and "rounds_wrapping (get_rounded_size L)"
    and "power_of_two (msg_hdr_align L)" and "power_of_two (index_align L)"
  shows "unat (get_mem_size L s n) = mem_size_needed L (unat s) (unat n) mod 2 ^ 64"
proof -
  have r: "unat (f x a) = nat_round_up (unat x) (unat a) mod 2 ^ 64" if "rounds_wrapping f" "power_of_two a" for f x a
    using that unfolding rounds_wrapping_def power_of_two_def by blast
  have index: "nat_round_up (unat (n * sizeof_msg_hdr_ptr L)) (unat (msg_hdr_align L)) mod 2 ^ 64 =
      nat_round_up (unat n * unat (sizeof_msg_hdr_ptr L)) (unat (msg_hdr_align L)) mod 2 ^ 64"
    using nat_round_up_mod [OF power_of_two_dvd [OF assms(3)]] by (simp add: unat_word_ariths)
  show ?thesis
    using index
    by (simp add: get_mem_size_def mem_size_needed_def r_hdr_size_def r_index_size_def r_max_msg_size_def
        unat_word_ariths r assms mod_simps)
qed

lemma x64_layout_ok: "layout_ok x64_layout"
proof -
  have "power_of_two 8" unfolding power_of_two_def by (rule exI [of _ 3]) simp
  then show ?thesis by (simp add: layout_ok_def x64_layout_def boost_round_rounds_up)
qed

end
