(* ===== verification/Mq_Properties.thy ===== *)
theory Mq_Properties
  imports Mq_Circular Mq_Concurrent Mq_Layout "HOL-Library.Multiset"
begin

text \<open>
  What the message queue promises, for both builds of the header and any number of
  threads. \<open>mq_build_of c\<close> is the build with (\<open>c\<close>) or without the circular index; the one
  interpretation \<open>idx\<close> brings the lemmas of \<open>Mq_Index\<close>, \<open>Mq_Queue\<close> and \<open>Mq_Concurrent\<close> to both.
\<close>

section \<open>Both builds\<close>

definition mq_build_of :: "bool \<Rightarrow> mq_build" where
  "mq_build_of c = (if c then circular_build else linear_build)"

definition live_of :: "bool \<Rightarrow> mq_hdr \<Rightarrow> u64 list" where
  "live_of c = (if c then live_circ else live_lin)"

definition wf_of :: "bool \<Rightarrow> mq_hdr \<Rightarrow> bool" where
  "wf_of c = (if c then wf_circ else wf_lin)"

definition pos_of :: "bool \<Rightarrow> mq_hdr \<Rightarrow> nat \<Rightarrow> nat" where
  "pos_of c = (if c then pos_circ else pos_lin)"

interpretation idx: message_index "mq_build_of c" "live_of c" "wf_of c" "pos_of c" for c
  using lin.message_index_axioms circ.message_index_axioms
  by (cases c) (simp_all add: mq_build_of_def live_of_def wf_of_def pos_of_def)

definition queue_inv :: "bool \<Rightarrow> mq_hdr \<Rightarrow> bool" where
  "queue_inv c = mq_inv (live_of c) (wf_of c)"

text \<open>The queued messages, next one first.\<close>

definition queued :: "bool \<Rightarrow> mq_hdr \<Rightarrow> message list" where
  "queued c = contents (live_of c)"

section \<open>A new queue\<close>

definition zero_filled :: "raw_memory \<Rightarrow> u64 list \<Rightarrow> bool" where
  "zero_filled mem as \<longleftrightarrow> (\<forall>a \<in> set as. raw_len mem a = 0 \<and> raw_prio mem a = 0)"

definition new_system :: "layout \<Rightarrow> raw_memory \<Rightarrow> u64 \<Rightarrow> u64 \<Rightarrow> nat \<Rightarrow> mq_sys" where
  "new_system L mem max_num_msg max_msg_size k =
     \<lparr>hdr = mq_hdr_new L mem max_num_msg max_msg_size, threads = replicate k Idle\<rparr>"

lemma wf_of_new:
  assumes "layout_ok L" and "layout_fits L n s"
  shows "wf_of c (mq_hdr_new L mem n s)"
proof -
  have "unat n < 2 ^ LENGTH(64)" by (rule unsigned_less)
  moreover have "length (initialize_memory L n s) = unat n" by (simp add: initialize_memory_def)
  ultimately show ?thesis
    using distinct_initialize_memory [OF assms]
    by (auto simp: wf_of_def wf_circ_def wf_lin_def mq_hdr_new_def Let_def)
qed

lemma live_of_new: "live_of c (mq_hdr_new L mem n s) = []"
  by (simp add: live_of_def live_circ_def live_lin_def mq_hdr_new_def Let_def)

lemma queue_inv_new:
  assumes "layout_ok L" and "layout_fits L n s" and "zero_filled mem (initialize_memory L n s)"
  shows "queue_inv c (mq_hdr_new L mem n s)" and "queued c (mq_hdr_new L mem n s) = []"
proof -
  have "wf_of c (mq_hdr_new L mem n s)" by (rule wf_of_new [OF assms(1,2)])
  moreover have "live_of c (mq_hdr_new L mem n s) = []" by (rule live_of_new)
  ultimately show "queue_inv c (mq_hdr_new L mem n s)"
    using r_max_msg_size_eq(2) [OF assms(1,2)] assms(3)
    by (auto simp: queue_inv_def mq_inv_def live_sorted_def mq_hdr_new_def Let_def block_at_def
        zero_filled_def dom_def split: if_splits)
  show "queued c (mq_hdr_new L mem n s) = []"
    by (simp add: queued_def contents_def live_of_new)
qed

lemma sys_inv_new:
  assumes "layout_ok L" and "layout_fits L n s" and "zero_filled mem (initialize_memory L n s)"
    and "k < 2 ^ 64"
  shows "sys_inv (mq_build_of c) (live_of c) (wf_of c) (unat n) (new_system L mem n s k)"
proof -
  have "thread_count P (new_system L mem n s k) = 0" if "\<not> P Idle" for P
    using that by (simp add: thread_count_def new_system_def)
  then have "wakeup_inv (mq_build_of c) (new_system L mem n s k)"
    by (simp add: wakeup_inv_def new_system_def mq_hdr_new_def Let_def)
  with queue_inv_new(1) [OF assms(1-3), of c] assms(4) show ?thesis
    by (auto simp: sys_inv_def queue_inv_def new_system_def mq_hdr_new_def Let_def)
qed

section \<open>Runs\<close>

inductive pq_run :: "nat \<Rightarrow> message list \<Rightarrow> mq_event list \<Rightarrow> message list \<Rightarrow> bool" for cap where
  pq_nil: "pq_run cap q [] q"
| pq_snoc: "pq_run cap q evs q' \<Longrightarrow> pq_step cap q' ev q'' \<Longrightarrow> pq_run cap q (evs @ [ev]) q''"

inductive_cases pq_getE: "pq_step cap q (Get m) q'"

lemma run_invariant:
  assumes "mq_run (mq_build_of c) s evs t"
    and "sys_inv (mq_build_of c) (live_of c) (wf_of c) cap s"
  shows "sys_inv (mq_build_of c) (live_of c) (wf_of c) cap t \<and>
    pq_run cap (queued c (hdr s)) evs (queued c (hdr t))"
  using assms
proof (induction rule: mq_run.induct)
  case (run_nil s)
  then show ?case by (simp add: pq_run.pq_nil)
next
  case (run_step s evs t ev u)
  then show ?case
    using idx.step_simulates [of c t ev u cap] by (auto simp: queued_def intro: pq_run.pq_snoc)
qed

lemma run_of_new:
  assumes "layout_ok L" and "layout_fits L n s" and "zero_filled mem (initialize_memory L n s)"
    and "k < 2 ^ 64" and "mq_run (mq_build_of c) (new_system L mem n s k) evs t"
  shows "sys_inv (mq_build_of c) (live_of c) (wf_of c) (unat n) t"
    and "pq_run (unat n) [] evs (queued c (hdr t))"
  using run_invariant [OF assms(5) sys_inv_new [OF assms(1-4)]] queue_inv_new(2) [OF assms(1-3)]
  by (simp_all add: new_system_def)

text \<open>A concrete small queue for the witnesses: three messages of up to four bytes.\<close>

definition zero_memory :: raw_memory where
  "zero_memory = \<lparr>raw_len = (\<lambda>_. 0), raw_prio = (\<lambda>_. 0), raw_byte = (\<lambda>_ _. 0)\<rparr>"

lemma zero_memory_filled: "zero_filled zero_memory as"
  by (simp add: zero_filled_def zero_memory_def)

lemma x64_fits: "layout_fits x64_layout 3 4" "layout_fits x64_layout 1 4"
  by (simp_all add: layout_fits_def x64_layout_def r_hdr_size_def r_index_size_def r_max_msg_size_def
      boost_round_def)

section \<open>Steps that can be taken\<close>

text \<open>
  Progress: what a call of an idle thread leads to. \<open>can_put\<close> and \<open>can_get\<close> are the
  calls that go through, the other two those that have to wait.
\<close>

lemma can_put:
  assumes inv: "sys_inv (mq_build_of c) (live_of c) (wf_of c) cap s" and i: "i < length (threads s)"
    and idle: "threads s ! i = Idle" and room: "m_cur_num_msg (hdr s) < cap"
    and n: "length m \<le> m_max_msg_size (hdr s)"
  shows "\<exists>h pc. mq_step (mq_build_of c) s (Put (p, m)) (set_thread i pc (s\<lparr>hdr := h\<rparr>)) \<and>
    m_cur_num_msg h = Suc (m_cur_num_msg (hdr s)) \<and> m_max_num_msg h = cap \<and>
    m_max_msg_size h = m_max_msg_size (hdr s) \<and> queued c h = pq_insert (p, m) (queued c (hdr s)) \<and>
    (pc = Idle \<or> pc = Notify_receiver)"
proof -
  let ?h = "hdr s" and ?pc = "\<lambda>r. if r then Notify_receiver else Idle"
  have q: "mq_inv (live_of c) (wf_of c) ?h" and cap: "m_max_num_msg ?h = cap"
    using inv by (simp_all add: sys_inv_def)
  from idx.send_commit_refines [OF q _ n order_refl, of p] room cap obtain h notify
    where c: "send_commit (mq_build_of c) m (length m) p ?h = Some (h, notify)"
      and h: "m_cur_num_msg h = Suc (m_cur_num_msg ?h)" "m_max_num_msg h = cap"
        "m_max_msg_size h = m_max_msg_size ?h" "queued c h = pq_insert (p, m) (queued c ?h)"
    by (auto simp: queued_def)
  have "after_send blocking m (length m) p i s
      (do_send_enter (mq_build_of c) blocking m (length m) p ?h) =
      (Put (p, m), set_thread i (?pc notify) (s\<lparr>hdr := h\<rparr>))"
    using c n room cap by (simp add: after_send_def do_send_enter_def mq_is_full_def)
  then have "mq_step (mq_build_of c) s (Put (p, m)) (set_thread i (?pc notify) (s\<lparr>hdr := h\<rparr>))"
    by (rule mq_step.send_call [OF i idle order_refl])
  with h show ?thesis by (intro exI [of _ h] exI [of _ "?pc notify"]) auto
qed

lemma can_get:
  assumes inv: "sys_inv (mq_build_of c) (live_of c) (wf_of c) cap s" and i: "i < length (threads s)"
    and idle: "threads s ! i = Idle" and ne: "queued c (hdr s) = m # q"
  shows "\<exists>h pc. mq_step (mq_build_of c) s (Get m) (set_thread i pc (s\<lparr>hdr := h\<rparr>)) \<and>
    m_cur_num_msg (hdr s) = Suc (m_cur_num_msg h) \<and> m_max_num_msg h = cap \<and>
    queued c h = q \<and> (pc = Idle \<or> pc = Notify_sender)"
proof -
  let ?h = "hdr s" and ?pc = "\<lambda>r. if r then Notify_sender else Idle"
  define buffer :: bytes where "buffer = replicate (m_max_msg_size ?h) 0"
  have q: "mq_inv (live_of c) (wf_of c) ?h" and cap: "m_max_num_msg ?h = cap"
    using inv by (simp_all add: sys_inv_def)
  have cur: "m_cur_num_msg ?h \<noteq> 0"
    using ne q idx.length_contents [of c ?h] by (auto simp: queued_def mq_inv_def)
  have buf: "m_max_msg_size ?h \<le> length buffer" by (simp add: buffer_def)
  from idx.receive_commit_refines [OF q cur buf] ne obtain h notify
    where c: "receive_commit (mq_build_of c) buffer ?h =
        Some (h, (snd m @ drop (length (snd m)) buffer, length (snd m), fst m), notify)"
      and h: "m_cur_num_msg ?h = Suc (m_cur_num_msg h)" "m_max_num_msg h = cap" "queued c h = q"
    using cap by (auto simp: queued_def)
  have "after_receive blocking buffer i s
      (do_receive_enter (mq_build_of c) blocking buffer (length buffer) ?h) =
      (Get m, set_thread i (?pc notify) (s\<lparr>hdr := h\<rparr>))"
    using c cur buf by (simp add: after_receive_def do_receive_enter_def mq_is_empty_def)
  then have "mq_step (mq_build_of c) s (Get m) (set_thread i (?pc notify) (s\<lparr>hdr := h\<rparr>))"
    by (rule mq_step.receive_call [OF i idle order_refl])
  with h show ?thesis by (intro exI [of _ h] exI [of _ "?pc notify"]) auto
qed

lemma must_wait_receive:
  assumes "i < length (threads s)" and "threads s ! i = Idle" and "m_cur_num_msg (hdr s) = 0"
    and "m_max_msg_size (hdr s) \<le> length buffer"
  shows "mq_step bld s Tau (set_thread i (Waiting_receive blocking buffer)
           (s\<lparr>hdr := inc_blocked_receivers bld (hdr s)\<rparr>))"
  using assms(3,4)
  by (intro mq_step.receive_call [OF assms(1,2), where buffer = buffer and block = blocking, OF order_refl])
    (simp add: after_receive_def do_receive_enter_def mq_is_empty_def)

lemma must_wait_send:
  assumes "i < length (threads s)" and "threads s ! i = Idle"
    and "m_cur_num_msg (hdr s) = m_max_num_msg (hdr s)" and "length m \<le> m_max_msg_size (hdr s)"
  shows "mq_step bld s Tau (set_thread i (Waiting_send blocking m (length m) p)
           (s\<lparr>hdr := inc_blocked_senders bld (hdr s)\<rparr>))"
  using assms(3,4)
  by (intro mq_step.send_call [OF assms(1,2), where buffer = m and block = blocking and p = p,
        OF order_refl])
    (simp add: after_send_def do_send_enter_def mq_is_full_def)

lemma run_two: "mq_step bld s a t \<Longrightarrow> mq_step bld t b u \<Longrightarrow> mq_run bld s [a, b] u"
  using mq_run.run_step [OF mq_run.run_step [OF mq_run.run_nil]] by force

lemma run_three:
  "mq_step bld s a t \<Longrightarrow> mq_step bld t b u \<Longrightarrow> mq_step bld u d v \<Longrightarrow> mq_run bld s [a, b, d] v"
  using mq_run.run_step [OF run_two] by force

text \<open>
  A concrete run for the witnesses: three threads on a queue of three messages of four bytes;
  two of them send, and the third receives the message of the higher priority.
\<close>

abbreviation demo_system :: mq_sys where
  "demo_system \<equiv> new_system x64_layout zero_memory 3 4 3"

lemmas demo_hyps = x64_layout_ok x64_fits(1) zero_memory_filled [of "initialize_memory x64_layout 3 4"]

lemma demo_run:
  "\<exists>t u. mq_run (mq_build_of c) demo_system [Put (7, [1, 2]), Put (9, [3])] t \<and>
     queued c (hdr t) = [(9, [3]), (7, [1, 2])] \<and> mq_step (mq_build_of c) t (Get (9, [3])) u"
proof -
  let ?inv = "sys_inv (mq_build_of c) (live_of c) (wf_of c) 3"
  let ?s = "demo_system"
  have thr: "threads ?s = [Idle, Idle, Idle]" and cur: "m_cur_num_msg (hdr ?s) = 0"
      and size: "m_max_msg_size (hdr ?s) = 4"
    by (simp_all add: new_system_def mq_hdr_new_def Let_def numeral_3_eq_3)
  have inv: "?inv ?s" and q: "queued c (hdr ?s) = []"
    using sys_inv_new [OF demo_hyps, of 3 c] queue_inv_new(2) [OF demo_hyps, of c]
    by (simp_all add: new_system_def)
  from can_put [OF inv, of 0 "[1, 2]" 7] thr cur size q obtain h pc
    where 1: "mq_step (mq_build_of c) ?s (Put (7, [1, 2])) (set_thread 0 pc (?s\<lparr>hdr := h\<rparr>))"
        (is "mq_step _ _ _ ?t")
      and h: "m_cur_num_msg h = 1" "m_max_msg_size h = 4" "queued c h = [(7, [1, 2])]" by auto
  have inv1: "?inv ?t" using idx.step_simulates [OF 1 inv] by blast
  from can_put [OF inv1, of 1 "[3]" 9] thr h obtain h' pc'
    where 2: "mq_step (mq_build_of c) ?t (Put (9, [3])) (set_thread 1 pc' (?t\<lparr>hdr := h'\<rparr>))"
        (is "mq_step _ _ _ ?u")
      and h': "queued c h' = [(9, [3]), (7, [1, 2])]" by auto
  have inv2: "?inv ?u" using idx.step_simulates [OF 2 inv1] by blast
  from can_get [OF inv2, of 2] thr h' have "\<exists>u. mq_step (mq_build_of c) ?u (Get (9, [3])) u" by auto
  moreover have "queued c (hdr ?u) = [(9, [3]), (7, [1, 2])]" using h' by simp
  ultimately show ?thesis using run_two [OF 1 2] by blast
qed

text \<open>
  And a run to a state in which both sides wait: one receiver waits on the empty queue of one
  message, a send fills it, and a second sender waits, before the receiver has been notified.
\<close>

abbreviation tiny_system :: mq_sys where
  "tiny_system \<equiv> new_system x64_layout zero_memory 1 4 3"

lemmas tiny_hyps = x64_layout_ok x64_fits(2) zero_memory_filled [of "initialize_memory x64_layout 1 4"]

lemma tiny_run:
  "\<exists>t. mq_run (mq_build_of c) tiny_system [Tau, Put (7, [1]), Tau] t \<and> 0 < ws t \<and> 0 < wr t"
proof -
  let ?inv = "sys_inv (mq_build_of c) (live_of c) (wf_of c) 1"
  let ?s = "tiny_system" and ?buf = "[0, 0, 0, 0] :: bytes"
  have thr: "threads ?s = [Idle, Idle, Idle]" and cur: "m_cur_num_msg (hdr ?s) = 0"
      and size: "m_max_msg_size (hdr ?s) = 4"
    by (simp_all add: new_system_def mq_hdr_new_def Let_def numeral_3_eq_3)
  have inv: "?inv ?s"
    using sys_inv_new [OF tiny_hyps, of 3 c] by simp
  define t where "t = set_thread 0 (Waiting_receive blocking ?buf)
    (?s\<lparr>hdr := inc_blocked_receivers (mq_build_of c) (hdr ?s)\<rparr>)"
  have 1: "mq_step (mq_build_of c) ?s Tau t"
    unfolding t_def by (rule must_wait_receive) (simp_all add: thr cur size)
  have t: "threads t = [Waiting_receive blocking ?buf, Idle, Idle]" "m_cur_num_msg (hdr t) = 0"
      "m_max_msg_size (hdr t) = 4"
    using cur size by (simp_all add: t_def thr inc_blocked_receivers_def)
  have inv1: "?inv t" using idx.step_simulates [OF 1 inv] by blast
  from can_put [OF inv1, of 1 "[1]" 7] t obtain h pc
    where 2: "mq_step (mq_build_of c) t (Put (7, [1])) (set_thread 1 pc (t\<lparr>hdr := h\<rparr>))"
        (is "mq_step _ _ _ ?u")
      and h: "m_cur_num_msg h = 1" "m_max_num_msg h = 1" "m_max_msg_size h = 4" by auto
  let ?v = "set_thread 2 (Waiting_send blocking [2] (length ([2] :: bytes)) 5)
    (?u\<lparr>hdr := inc_blocked_senders (mq_build_of c) (hdr ?u)\<rparr>)"
  have 3: "mq_step (mq_build_of c) ?u Tau ?v"
    by (rule must_wait_send) (simp_all add: t h)
  have "0 < ws ?v" "0 < wr ?v" using t by (simp_all add: thread_count_pos)
  with run_three [OF 1 2 3] show ?thesis by blast
qed

section \<open>Properties of runs\<close>

fun puts :: "mq_event list \<Rightarrow> message list" where
  "puts [] = []" | "puts (Put m # evs) = m # puts evs" | "puts (_ # evs) = puts evs"

fun gets :: "mq_event list \<Rightarrow> message list" where
  "gets [] = []" | "gets (Get m # evs) = m # gets evs" | "gets (_ # evs) = gets evs"

lemma puts_append [simp]: "puts (xs @ ys) = puts xs @ puts ys"
  by (induction xs rule: puts.induct) simp_all

lemma gets_append [simp]: "gets (xs @ ys) = gets xs @ gets ys"
  by (induction xs rule: gets.induct) simp_all

abbreviation of_priority :: "u32 \<Rightarrow> message list \<Rightarrow> message list" where
  "of_priority p \<equiv> filter (\<lambda>m. fst m = p)"

definition descending :: "message list \<Rightarrow> bool" where
  "descending q \<longleftrightarrow> sorted_wrt (\<lambda>a b. fst b \<le> fst a) q"

lemma set_pq_insert [simp]: "set (pq_insert m q) = insert m (set q)"
  by (induction q) auto

lemma descending_pq_insert: "descending q \<Longrightarrow> descending (pq_insert m q)"
  by (induction q) (auto simp: descending_def)

lemma of_priority_pq_insert:
  "descending q \<Longrightarrow> of_priority p (pq_insert m q) = of_priority p q @ of_priority p [m]"
proof (induction q)
  case (Cons y q)
  have "of_priority p q = []" if "p = fst m" "\<not> fst m \<le> fst y"
    using Cons.prems that by (fastforce simp: descending_def filter_empty_conv)
  with Cons show ?case by (auto simp: descending_def)
qed simp

lemma pq_run_order:
  assumes "pq_run cap q evs q'" and "descending q"
  shows "descending q' \<and>
    of_priority p q @ of_priority p (puts evs) = of_priority p (gets evs) @ of_priority p q'"
  using assms
proof (induction rule: pq_run.induct)
  case (pq_snoc q evs q' ev q'')
  from pq_snoc.hyps(2) pq_snoc.IH [OF pq_snoc.prems] show ?case
    by cases (auto simp: descending_pq_insert of_priority_pq_insert, auto simp: descending_def)
qed simp

text \<open>C1: Every run of any number of threads on a new queue, in either build of the header, is a run
  of the abstract bounded priority queue: a send takes effect only with fewer than the maximum
  of messages queued and puts its message behind those of its priority and above, and a receive
  hands out the first message, unchanged.\<close>

theorem runs_refine_priority_queue:
  assumes "layout_ok L" and "layout_fits L n s" and "zero_filled mem (initialize_memory L n s)"
    and "k < 2 ^ 64" and "mq_run (mq_build_of c) (new_system L mem n s k) evs t"
  shows "pq_run (unat n) [] evs (queued c (hdr t))"
  by (rule run_of_new(2) [OF assms])

theorem runs_refine_priority_queue_witness:
  "\<exists>t. mq_run circular_build demo_system [Put (7, [1, 2]), Put (9, [3])] t \<and>
     pq_run 3 [] [Put (7, [1, 2]), Put (9, [3])] (queued True (hdr t)) \<and>
     queued True (hdr t) = [(9, [3]), (7, [1, 2])]"
proof -
  obtain t where run: "mq_run (mq_build_of True) demo_system [Put (7, [1, 2]), Put (9, [3])] t"
      and q: "queued True (hdr t) = [(9, [3]), (7, [1, 2])]"
    using demo_run by blast
  then show ?thesis
    using runs_refine_priority_queue [OF demo_hyps _ run]
    by (intro exI [of _ t]) (simp add: mq_build_of_def)
qed

text \<open>C2: No run of a new queue reaches undefined behaviour: no access outside the index or a
  message, no failed assertion; and the control block is well formed at every moment.\<close>

theorem runs_never_crash:
  assumes "layout_ok L" and "layout_fits L n s" and "zero_filled mem (initialize_memory L n s)"
    and "k < 2 ^ 64" and "mq_run (mq_build_of c) (new_system L mem n s k) evs t"
  shows "Crashed \<notin> set (threads t) \<and> queue_inv c (hdr t) \<and> m_max_num_msg (hdr t) = unat n"
  using run_of_new(1) [OF assms] by (auto simp: sys_inv_def queue_inv_def)

theorem runs_never_crash_witness:
  "\<exists>t. mq_run circular_build demo_system [Put (7, [1, 2]), Put (9, [3])] t \<and>
     Crashed \<notin> set (threads t) \<and> queue_inv True (hdr t)"
proof -
  obtain t where run: "mq_run (mq_build_of True) demo_system [Put (7, [1, 2]), Put (9, [3])] t"
    using demo_run by blast
  then show ?thesis
    using runs_never_crash [OF demo_hyps _ run] by (auto simp: mq_build_of_def)
qed

text \<open>C3: No wake-up is lost, with notifications sent after the lock is released and, in the
  circular build, only when the counters of blocked threads say so: while a receiver
  waits, there are at least as many woken receivers and pending notifications as queued
  messages, and while a sender waits, at least as many as free slots.\<close>

theorem no_lost_wakeup:
  assumes "layout_ok L" and "layout_fits L n s" and "zero_filled mem (initialize_memory L n s)"
    and "k < 2 ^ 64" and "mq_run (mq_build_of c) (new_system L mem n s k) evs t"
  shows "(0 < wr t \<longrightarrow> length (queued c (hdr t)) \<le> kr t + pr t) \<and>
    (0 < ws t \<longrightarrow> unat n - length (queued c (hdr t)) \<le> ks t + ps t)"
proof -
  have inv: "sys_inv (mq_build_of c) (live_of c) (wf_of c) (unat n) t"
    by (rule run_of_new(1) [OF assms])
  then have "length (queued c (hdr t)) = m_cur_num_msg (hdr t)"
    using idx.length_contents [of c "hdr t"] by (simp add: sys_inv_def mq_inv_def queued_def)
  with inv show ?thesis by (auto simp: sys_inv_def wakeup_inv_def)
qed

theorem no_lost_wakeup_witness:
  "\<exists>t. mq_run circular_build tiny_system [Tau, Put (7, [1]), Tau] t \<and> 0 < wr t \<and>
     length (queued True (hdr t)) \<le> kr t + pr t"
proof -
  obtain t where run: "mq_run (mq_build_of True) tiny_system [Tau, Put (7, [1]), Tau] t"
      and "0 < wr t"
    using tiny_run by blast
  then show ?thesis
    using no_lost_wakeup [OF tiny_hyps _ run] by (auto simp: mq_build_of_def)
qed

text \<open>A queue with room for at least one message cannot deadlock: as long as both a sender and a
  receiver wait, some thread has been woken or is about to notify another.\<close>

lemma no_deadlock:
  assumes "layout_ok L" and "layout_fits L n s" and "zero_filled mem (initialize_memory L n s)"
    and "k < 2 ^ 64" and "mq_run (mq_build_of c) (new_system L mem n s k) evs t"
    and "0 < unat n" and "0 < ws t" and "0 < wr t"
  shows "\<exists>pc \<in> set (threads t).
    woken_send pc \<or> woken_receive pc \<or> notifies_sender pc \<or> notifies_receiver pc"
proof -
  have "wakeup_inv (mq_build_of c) t" "m_max_num_msg (hdr t) = unat n"
    using run_of_new(1) [OF assms(1-5)] by (simp_all add: sys_inv_def)
  then have "0 < kr t \<or> 0 < pr t \<or> 0 < ks t \<or> 0 < ps t"
    using assms(6-8) by (auto simp: wakeup_inv_def)
  then show ?thesis by (auto simp: thread_count_pos)
qed

text \<open>C5: Order of delivery: of each priority, the messages received so far followed by those still
  queued are exactly the messages sent so far, in the order they were sent. Nothing is lost,
  duplicated or altered, and one priority is first in, first out. And a receive takes the first message of
  the queue, which no queued message exceeds in priority.\<close>

theorem delivery_order:
  assumes "layout_ok L" and "layout_fits L n s" and "zero_filled mem (initialize_memory L n s)"
    and "k < 2 ^ 64" and "mq_run (mq_build_of c) (new_system L mem n s k) evs t"
  shows "(\<forall>p. of_priority p (puts evs) = of_priority p (gets evs) @ of_priority p (queued c (hdr t))) \<and>
    (\<forall>m u. mq_step (mq_build_of c) t (Get m) u \<longrightarrow>
      queued c (hdr t) = m # queued c (hdr u) \<and> (\<forall>m' \<in> set (queued c (hdr t)). fst m' \<le> fst m))"
proof (intro conjI allI impI)
  note order = pq_run_order [OF run_of_new(2) [OF assms]]
  show "of_priority p (puts evs) = of_priority p (gets evs) @ of_priority p (queued c (hdr t))" for p
    using order by (simp add: descending_def)
  fix m u
  assume step: "mq_step (mq_build_of c) t (Get m) u"
  show q: "queued c (hdr t) = m # queued c (hdr u)"
    using idx.step_simulates [OF step run_of_new(1) [OF assms]] by (auto simp: queued_def elim: pq_getE)
  show "\<forall>m' \<in> set (queued c (hdr t)). fst m' \<le> fst m"
    using order q by (auto simp: descending_def)
qed

theorem delivery_order_witness:
  "\<exists>t u. mq_run circular_build demo_system [Put (7, [1, 2]), Put (9, [3])] t \<and>
     mq_step circular_build t (Get (9, [3])) u \<and> queued True (hdr t) = (9, [3]) # queued True (hdr u) \<and>
     (\<forall>m' \<in> set (queued True (hdr t)). fst m' \<le> 9) \<and> of_priority 9 (queued True (hdr t)) = [(9, [3])]"
proof -
  obtain t u where run: "mq_run (mq_build_of True) demo_system [Put (7, [1, 2]), Put (9, [3])] t"
      and step: "mq_step (mq_build_of True) t (Get (9, [3])) u"
    using demo_run by blast
  have "of_priority 9 (queued True (hdr t)) = [(9, [3])]"
    using delivery_order [OF demo_hyps _ run, THEN conjunct1, rule_format, of 9] by simp
  moreover have "queued True (hdr t) = (9, [3]) # queued True (hdr u)"
      "\<forall>m' \<in> set (queued True (hdr t)). fst m' \<le> 9"
    using delivery_order [OF demo_hyps _ run, THEN conjunct2, rule_format, OF _ step] by simp_all
  ultimately show ?thesis
    using run step unfolding mq_build_of_def if_True by blast
qed

end
