(* ===== verification/Mq_Calls.thy ===== *)
theory Mq_Calls
  imports Mq_Properties
begin

text \<open>
  Single calls and sequences of calls of one thread: the result of \<^verbatim>\<open>try_send\<close> and
  \<^verbatim>\<open>try_receive\<close> on every path, the equivalence of the two builds of the header with a
  reference queue, and the soundness of the memory layout.
\<close>

section \<open>Sequences of calls\<close>

datatype mq_op = Op_send bytes u32 | Op_receive bytes

datatype mq_result = Sent bool | Received "message option" | Refused mq_exn

text \<open>What the caller of one non-blocking call sees.\<close>

definition call_op :: "mq_build \<Rightarrow> mq_op \<Rightarrow> mq_hdr \<Rightarrow> (mq_hdr \<times> mq_result) option" where
  "call_op bld op h =
     (case op of
        Op_send m p \<Rightarrow>
          (case mq_try_send bld m (length m) p h of
             Some (h', Threw x) \<Rightarrow> Some (h', Refused x)
           | Some (h', Done (sent, _)) \<Rightarrow> Some (h', Sent sent)
           | _ \<Rightarrow> None)
      | Op_receive buffer \<Rightarrow>
          (case mq_try_receive bld buffer (length buffer) h of
             Some (h', Threw x) \<Rightarrow> Some (h', Refused x)
           | Some (h', Done (got, _)) \<Rightarrow>
               Some (h', Received (map_option (\<lambda>(b, recvd_size, p). (p, take recvd_size b)) got))
           | _ \<Rightarrow> None))"

fun run_ops :: "mq_build \<Rightarrow> mq_op list \<Rightarrow> mq_hdr \<Rightarrow> mq_result list option" where
  "run_ops bld [] h = Some []"
| "run_ops bld (op # ops) h =
     do { (h', r) \<leftarrow> call_op bld op h; rs \<leftarrow> run_ops bld ops h'; Some (r # rs) }"

text \<open>The reference queue: a list of messages, at most \<open>cap\<close> of at most \<open>msz\<close> bytes.\<close>

fun spec_op :: "nat \<Rightarrow> nat \<Rightarrow> mq_op \<Rightarrow> message list \<Rightarrow> message list \<times> mq_result" where
  "spec_op cap msz (Op_send m p) q =
     (if length m > msz then (q, Refused size_error)
      else if length q = cap then (q, Sent False)
      else (pq_insert (p, m) q, Sent True))"
| "spec_op cap msz (Op_receive buffer) q =
     (if length buffer < msz then (q, Refused size_error)
      else case q of [] \<Rightarrow> (q, Received None) | m # q' \<Rightarrow> (q', Received (Some m)))"

fun spec_ops :: "nat \<Rightarrow> nat \<Rightarrow> mq_op list \<Rightarrow> message list \<Rightarrow> mq_result list" where
  "spec_ops cap msz [] q = []"
| "spec_ops cap msz (op # ops) q =
     (let (q', r) = spec_op cap msz op q in r # spec_ops cap msz ops q')"

section \<open>The calls\<close>

lemma queue_length: "queue_inv c h \<Longrightarrow> length (queued c h) = m_cur_num_msg h"
  using idx.length_contents [of c h] by (simp add: queue_inv_def queued_def mq_inv_def)

lemma queue_length_le: "queue_inv c h \<Longrightarrow> length (queued c h) \<le> m_max_num_msg h"
  using idx.cur_bound [of c h] by (simp add: queue_length queue_inv_def)

text \<open>A commit seen from outside: what it returns and what it leaves.\<close>

definition unblocked :: "mq_hdr \<Rightarrow> mq_hdr \<Rightarrow> bool" where
  "unblocked h h' \<longleftrightarrow>
     m_blocked_senders h' = m_blocked_senders h \<and> m_blocked_receivers h' = m_blocked_receivers h \<and>
     m_max_num_msg h' = m_max_num_msg h \<and> m_max_msg_size h' = m_max_msg_size h"

lemma try_send_too_long:
  "m_max_msg_size h < n \<Longrightarrow> mq_try_send bld buffer n p h = Some (h, Threw size_error)"
  by (simp add: mq_try_send_def do_send_enter_def)

lemma try_send_full:
  "n \<le> m_max_msg_size h \<Longrightarrow> m_cur_num_msg h = m_max_num_msg h \<Longrightarrow> m_blocked_senders h < 2 ^ 64 - 1 \<Longrightarrow>
   mq_try_send bld buffer n p h = Some (h, Done (False, False))"
  by (simp add: mq_try_send_def do_send_enter_def mq_is_full_def inc_blocked_senders_def
      dec_blocked_senders_def)

lemma try_send_room:
  assumes "queue_inv c h" and "n \<le> m_max_msg_size h" and "length (queued c h) < m_max_num_msg h"
    and "n \<le> length buffer"
  shows "\<exists>h' notify. mq_try_send (mq_build_of c) buffer n p h = Some (h', Done (True, notify)) \<and>
    queue_inv c h' \<and> unblocked h h' \<and> queued c h' = pq_insert (p, take n buffer) (queued c h)"
proof -
  have "m_cur_num_msg h < m_max_num_msg h" using assms(1,3) by (simp add: queue_length)
  with idx.send_commit_refines [of c h n buffer p] assms show ?thesis
    by (force simp: mq_try_send_def do_send_enter_def mq_is_full_def queue_inv_def queued_def
        unblocked_def)
qed

lemma try_receive_too_short:
  "n < m_max_msg_size h \<Longrightarrow> mq_try_receive bld buffer n h = Some (h, Threw size_error)"
  by (simp add: mq_try_receive_def do_receive_enter_def)

lemma try_receive_empty:
  "m_max_msg_size h \<le> n \<Longrightarrow> m_cur_num_msg h = 0 \<Longrightarrow> m_blocked_receivers h < 2 ^ 64 - 1 \<Longrightarrow>
   mq_try_receive bld buffer n h = Some (h, Done (None, False))"
  by (simp add: mq_try_receive_def do_receive_enter_def mq_is_empty_def inc_blocked_receivers_def
      dec_blocked_receivers_def)

lemma try_receive_some:
  assumes "queue_inv c h" and "m_max_msg_size h \<le> n" and "n \<le> length buffer"
    and "queued c h = (p, d) # q"
  shows "\<exists>h' notify. mq_try_receive (mq_build_of c) buffer n h =
      Some (h', Done (Some (d @ drop (length d) buffer, length d, p), notify)) \<and>
    queue_inv c h' \<and> unblocked h h' \<and> queued c h' = q \<and> length d \<le> n"
proof -
  have "m_cur_num_msg h \<noteq> 0" using queue_length [OF assms(1)] assms(4) by auto
  with idx.receive_commit_refines [of c h buffer] assms show ?thesis
    by (force simp: mq_try_receive_def do_receive_enter_def mq_is_empty_def queue_inv_def queued_def
        unblocked_def)
qed

text \<open>C7: A non-blocking send, on every path: a message longer than the maximum throws
  and leaves the queue unchanged; a full queue returns false and leaves it unchanged; otherwise
  the call returns true, nothing goes wrong on the way (no access out of bounds, no failed
  assertion), the invariant holds again and the message has taken its place in the priority
  queue.\<close>

theorem try_send_correct:
  assumes "queue_inv c h" and "n \<le> length buffer" and "m_blocked_senders h < 2 ^ 64 - 1"
  shows "if m_max_msg_size h < n
      then mq_try_send (mq_build_of c) buffer n p h = Some (h, Threw size_error)
      else if length (queued c h) = m_max_num_msg h
      then mq_try_send (mq_build_of c) buffer n p h = Some (h, Done (False, False))
      else \<exists>h' notify. mq_try_send (mq_build_of c) buffer n p h = Some (h', Done (True, notify)) \<and>
        queue_inv c h' \<and> queued c h' = pq_insert (p, take n buffer) (queued c h)"
  using try_send_too_long [of h n] try_send_full [of n h] try_send_room [OF assms(1), of n buffer p]
    queue_length_le [OF assms(1)] queue_length [OF assms(1)] assms(2,3)
  by (auto simp: not_less)

theorem try_send_correct_witness:
  "\<exists>h' notify. mq_try_send circular_build [1, 2] 2 7 (mq_hdr_new x64_layout zero_memory 3 4) =
      Some (h', Done (True, notify)) \<and> queued True h' = [(7, [1, 2])]"
  using try_send_correct [OF queue_inv_new(1) [OF demo_hyps], of 2 "[1, 2]" True 7]
    queue_inv_new(2) [OF demo_hyps, of True]
  by (simp add: mq_build_of_def mq_hdr_new_def Let_def) blast

text \<open>C8: A non-blocking receive, on every path: a buffer shorter than the maximum message throws
  and leaves the queue unchanged; an empty queue returns false and leaves it unchanged; otherwise the
  first message is removed and handed out with its length and priority, only its own bytes of
  the caller's buffer are overwritten, and the invariant holds again.\<close>

theorem try_receive_correct:
  assumes "queue_inv c h" and "n \<le> length buffer" and "m_blocked_receivers h < 2 ^ 64 - 1"
  shows "if n < m_max_msg_size h
      then mq_try_receive (mq_build_of c) buffer n h = Some (h, Threw size_error)
      else case queued c h of
        [] \<Rightarrow> mq_try_receive (mq_build_of c) buffer n h = Some (h, Done (None, False))
      | (p, d) # q \<Rightarrow> \<exists>h' notify. mq_try_receive (mq_build_of c) buffer n h =
            Some (h', Done (Some (d @ drop (length d) buffer, length d, p), notify)) \<and>
          queue_inv c h' \<and> queued c h' = q"
  using try_receive_too_short [of n h] try_receive_empty [of h n] assms(2,3)
    try_receive_some [OF assms(1) _ assms(2)] queue_length [OF assms(1)]
  by (auto simp: not_less split: list.split)

theorem try_receive_correct_witness:
  "\<exists>h h' n1 n2.
     mq_try_send circular_build [1, 2] 2 7 (mq_hdr_new x64_layout zero_memory 3 4) =
       Some (h, Done (True, n1)) \<and>
     mq_try_receive circular_build [0, 0, 0, 0] 4 h =
       Some (h', Done (Some ([1, 2, 0, 0], 2, 7), n2)) \<and> queued True h' = []"
proof -
  let ?h = "mq_hdr_new x64_layout zero_memory 3 4"
  have new: "m_max_msg_size ?h = 4" "m_max_num_msg ?h = 3" "m_blocked_receivers ?h = 0"
    by (simp_all add: mq_hdr_new_def Let_def)
  obtain h n1 where send: "mq_try_send circular_build [1, 2] 2 7 ?h = Some (h, Done (True, n1))"
      and h: "queue_inv True h" "unblocked ?h h" "queued True h = [(7, [1, 2])]"
    using try_send_room [OF queue_inv_new(1) [OF demo_hyps], of 2 True "[1, 2]" 7]
      queue_inv_new(2) [OF demo_hyps, of True] new by (auto simp: mq_build_of_def)
  then show ?thesis
    using try_receive_correct [OF h(1), of 4 "[0, 0, 0, 0]"] new
    by (fastforce simp: mq_build_of_def unblocked_def)
qed

section \<open>Both builds implement the reference queue\<close>

definition quiet :: "mq_hdr \<Rightarrow> bool" where
  "quiet h \<longleftrightarrow> m_blocked_senders h = 0 \<and> m_blocked_receivers h = 0"

lemma unblocked_refl: "unblocked h h"
  by (simp add: unblocked_def)

lemma call_op_spec:
  assumes inv: "queue_inv c h" and quiet: "quiet h"
    and spec: "spec_op (m_max_num_msg h) (m_max_msg_size h) op (queued c h) = (q, r)"
  shows "\<exists>h'. call_op (mq_build_of c) op h = Some (h', r) \<and> queue_inv c h' \<and> queued c h' = q \<and>
    unblocked h h'"
proof (cases op)
  case (Op_send m p)
  consider (long) "m_max_msg_size h < length m"
    | (full) "length m \<le> m_max_msg_size h" "length (queued c h) = m_max_num_msg h"
    | (room) "length m \<le> m_max_msg_size h" "length (queued c h) < m_max_num_msg h"
    using queue_length_le [OF inv] by linarith
  then show ?thesis
  proof cases
    case long
    with spec inv try_send_too_long [OF long] show ?thesis
      by (auto simp: Op_send call_op_def unblocked_refl)
  next
    case full
    with spec inv quiet queue_length [OF inv] try_send_full [OF full(1)] show ?thesis
      by (auto simp: Op_send call_op_def unblocked_refl quiet_def)
  next
    case room
    with spec try_send_room [OF inv room order_refl, of p] show ?thesis
      by (auto simp: Op_send call_op_def)
  qed
next
  case (Op_receive buffer)
  consider (short) "length buffer < m_max_msg_size h"
    | (empty) "m_max_msg_size h \<le> length buffer" "queued c h = []"
    | (some) p d q' where "m_max_msg_size h \<le> length buffer" "queued c h = (p, d) # q'"
    by (cases "queued c h") (auto simp: not_less [symmetric])
  then show ?thesis
  proof cases
    case short
    with spec inv try_receive_too_short [OF short] show ?thesis
      by (auto simp: Op_receive call_op_def unblocked_refl)
  next
    case empty
    with spec inv quiet queue_length [OF inv] try_receive_empty [OF empty(1)] show ?thesis
      by (auto simp: Op_receive call_op_def unblocked_refl quiet_def)
  next
    case some
    with spec try_receive_some [OF inv some(1) order_refl some(2)] show ?thesis
      by (auto simp: Op_receive call_op_def)
  qed
qed

lemma run_ops_spec:
  "queue_inv c h \<Longrightarrow> quiet h \<Longrightarrow> run_ops (mq_build_of c) ops h =
   Some (spec_ops (m_max_num_msg h) (m_max_msg_size h) ops (queued c h))"
proof (induction ops arbitrary: h)
  case (Cons op ops)
  obtain q r where spec: "spec_op (m_max_num_msg h) (m_max_msg_size h) op (queued c h) = (q, r)"
    by fastforce
  from call_op_spec [OF Cons.prems this] obtain h'
    where h': "call_op (mq_build_of c) op h = Some (h', r)" "queue_inv c h'" "queued c h' = q"
      "unblocked h h'" by blast
  with Cons.prems have "quiet h'" by (simp add: quiet_def unblocked_def)
  from Cons.IH [OF h'(2) this] h' spec show ?case by (simp add: unblocked_def)
qed simp

text \<open>C6: The circular index is an optimisation the caller cannot see: on a new queue of any size,
  any sequence of non-blocking sends and receives gives the same results in both builds, and
  they are the results of the reference queue.\<close>

theorem builds_equivalent:
  assumes "layout_ok L" and "layout_fits L n s" and "zero_filled mem (initialize_memory L n s)"
  shows "run_ops circular_build ops (mq_hdr_new L mem n s) =
      Some (spec_ops (unat n) (unat s) ops []) \<and>
    run_ops linear_build ops (mq_hdr_new L mem n s) = Some (spec_ops (unat n) (unat s) ops [])"
proof -
  have "run_ops (mq_build_of c) ops (mq_hdr_new L mem n s) = Some (spec_ops (unat n) (unat s) ops [])"
    for c
    using run_ops_spec [OF queue_inv_new(1) [OF assms], of c ops] queue_inv_new(2) [OF assms, of c]
    by (simp add: quiet_def mq_hdr_new_def Let_def)
  from this [of True] this [of False] show ?thesis by (simp add: mq_build_of_def)
qed

theorem builds_equivalent_witness:
  "run_ops circular_build [Op_send [1] 5, Op_send [2] 9, Op_receive [0, 0, 0, 0]]
     (mq_hdr_new x64_layout zero_memory 3 4) = Some [Sent True, Sent True, Received (Some (9, [2]))]"
  using builds_equivalent [OF demo_hyps, of "[Op_send [1] 5, Op_send [2] 9, Op_receive [0, 0, 0, 0]]"]
  by simp

section \<open>The memory of a queue\<close>

text \<open>C22: The constructor builds a well-formed empty queue in memory filled with zeros.\<close>

theorem constructor_establishes_invariant:
  assumes "layout_ok L" and "layout_fits L n s" and "zero_filled mem (initialize_memory L n s)"
  shows "queue_inv c (mq_hdr_new L mem n s) \<and> queued c (mq_hdr_new L mem n s) = [] \<and>
    mq_get_num_msg (Some (mq_hdr_new L mem n s)) = 0 \<and>
    mq_get_max_msg (Some (mq_hdr_new L mem n s)) = unat n \<and>
    mq_get_max_msg_size (Some (mq_hdr_new L mem n s)) = unat s"
  using queue_inv_new [OF assms, of c]
  by (simp add: mq_get_num_msg_def mq_get_max_msg_def mq_get_max_msg_size_def mq_hdr_new_def Let_def)

theorem constructor_establishes_invariant_witness:
  "queue_inv True (mq_hdr_new x64_layout zero_memory 3 4) \<and>
   mq_get_max_msg (Some (mq_hdr_new x64_layout zero_memory 3 4)) = 3"
  using constructor_establishes_invariant [OF demo_hyps, of True] by simp

text \<open>Blocks further on in the index lie behind the ones before, and the last one ends with the segment.\<close>

lemma blocks_apart:
  assumes "layout_fits L n s" and "i < j" and "j < unat n"
  shows "unat (initialize_memory L n s ! i) + unat (r_max_msg_size L s) \<le> unat (initialize_memory L n s ! j)"
proof -
  have "Suc i * unat (r_max_msg_size L s) \<le> j * unat (r_max_msg_size L s)"
    using assms(2) by (intro mult_le_mono1) simp
  with index_address [OF assms(1), of i] index_address [OF assms(1), of j] assms(2,3) show ?thesis by simp
qed

lemma blocks_inside:
  assumes "layout_fits L n s" and "i < unat n"
  shows "unat (initialize_memory L n s ! i) + unat (r_max_msg_size L s) \<le> unat (get_min_size L n s)"
proof -
  have "Suc i * unat (r_max_msg_size L s) \<le> unat n * unat (r_max_msg_size L s)"
    using assms(2) by (intro mult_le_mono1) simp
  moreover have "unat (get_min_size L n s) =
      unat (r_hdr_size L) + unat (r_index_size L n) + unat n * unat (r_max_msg_size L s)"
    unfolding get_min_size_def
    by (subst unat_sub) (simp_all add: get_mem_size_eq [OF assms(1)] word_le_nat_alt)
  ultimately show ?thesis using index_address [OF assms] by simp
qed

text \<open>C21: The layout is sound where the size computation does not overflow: the message blocks lie
  behind the control block and the index, do not overlap, end inside the memory that
  the queue asks for, are aligned, and have room for a header and a message of the maximum size.\<close>

theorem layout_sound:
  assumes "layout_ok L" and "layout_fits L n s" and "i < unat n"
    and "unat (msg_hdr_align L) dvd unat (index_align L)"
  shows "unat (r_hdr_size L) + unat (r_index_size L n) \<le> unat (initialize_memory L n s ! i) \<and>
    unat (sizeof_mq_hdr L) \<le> unat (r_hdr_size L) \<and>
    unat n * unat (sizeof_msg_hdr_ptr L) \<le> unat (r_index_size L n) \<and>
    (\<forall>j. i < j \<and> j < unat n \<longrightarrow>
       unat (initialize_memory L n s ! i) + unat (r_max_msg_size L s) \<le> unat (initialize_memory L n s ! j)) \<and>
    unat (initialize_memory L n s ! i) + unat (r_max_msg_size L s) \<le> unat (get_min_size L n s) \<and>
    unat (msg_hdr_align L) dvd unat (initialize_memory L n s ! i) \<and>
    unat (sizeof_msg_header L) + unat s \<le> unat (r_max_msg_size L s)"
  (is "?behind \<and> ?hdr \<and> ?index \<and> ?apart \<and> ?inside \<and> ?aligned \<and> ?room")
proof -
  note ok = assms(1)[unfolded layout_ok_def] and fits = assms(2)[unfolded layout_fits_def]
  let ?r = "unat (r_max_msg_size L s)"
  note addr = index_address [OF assms(2)]
  have index_eq: "unat (n * sizeof_msg_hdr_ptr L) = unat n * unat (sizeof_msg_hdr_ptr L)"
    using fits by (simp add: unat_word_ariths)
  note rh = round_up_bounds [of "ct_rounded_size L" "index_align L" "sizeof_mq_hdr L"]
    and ri = round_up_bounds [of "get_rounded_size L" "msg_hdr_align L" "n * sizeof_msg_hdr_ptr L"]
    and rm = round_up_bounds [of "get_rounded_size L" "msg_hdr_align L" s]
  have ?behind using addr [OF assms(3)] by simp
  moreover have ?hdr using rh ok by (simp add: r_hdr_size_def)
  moreover have ?index using ri ok fits index_eq by (simp add: r_index_size_def)
  moreover have ?apart using blocks_apart [OF assms(2)] by blast
  moreover have ?inside by (rule blocks_inside [OF assms(2,3)])
  moreover have ?aligned
  proof -
    have "unat (msg_hdr_align L) dvd unat (r_hdr_size L)"
      using rh(3) ok assms(4) by (auto simp: r_hdr_size_def intro: dvd_trans)
    moreover have "unat (msg_hdr_align L) dvd unat (r_index_size L n)"
      using ri(3) ok fits index_eq by (simp add: r_index_size_def)
    moreover have "unat (msg_hdr_align L) dvd ?r"
      using rm(3) ok fits r_max_msg_size_eq(1) [OF assms(1,2)] by simp
    ultimately show ?thesis using addr [OF assms(3)] by simp
  qed
  moreover have ?room
    using r_max_msg_size_eq(1) [OF assms(1,2)] rm(1) ok fits by simp
  ultimately show ?thesis by blast
qed

theorem layout_sound_witness:
  "unat (initialize_memory x64_layout 3 4 ! 0) + unat (r_max_msg_size x64_layout 4)
     \<le> unat (initialize_memory x64_layout 3 4 ! 1) \<and>
   unat (initialize_memory x64_layout 3 4 ! 0) + unat (r_max_msg_size x64_layout 4)
     \<le> unat (get_min_size x64_layout 3 4)"
  using layout_sound [OF demo_hyps(1,2), of 0] by (simp add: x64_layout_def)

text \<open>C23: The size computation is unchecked, and what it gives is the size needed modulo 2^64, for every number and size
  of messages: it is right exactly as long as the size needed is below 2^64, and from there on the segment asked for is
  too small. (The witness is a queue of 2^32 messages of 2^32 - 24 bytes on a 64-bit build, for which it
  asks for 208 bytes.)\<close>

theorem get_mem_size_wraps:
  assumes "rounds_wrapping (ct_rounded_size L)" and "rounds_wrapping (get_rounded_size L)"
    and "power_of_two (msg_hdr_align L)" and "power_of_two (index_align L)"
  shows "unat (get_mem_size L s n) = mem_size_needed L (unat s) (unat n) mod 2 ^ 64 \<and>
    (unat (get_mem_size L s n) = mem_size_needed L (unat s) (unat n) \<longleftrightarrow> mem_size_needed L (unat s) (unat n) < 2 ^ 64) \<and>
    (unat (get_mem_size L s n) < mem_size_needed L (unat s) (unat n) \<longleftrightarrow> 2 ^ 64 \<le> mem_size_needed L (unat s) (unat n))"
proof -
  note size = get_mem_size_mod [OF assms, of s n]
  have "x mod 2 ^ 64 < (2::nat) ^ 64" for x by simp
  moreover have "x mod 2 ^ 64 \<le> (x::nat)" for x by simp
  moreover have "x mod 2 ^ 64 = (x::nat)" if "x < 2 ^ 64" for x using that by simp
  ultimately show ?thesis unfolding size by (metis le_neq_implies_less not_less)
qed

theorem get_mem_size_wraps_witness:
  "unat (get_mem_size x64_layout (2 ^ 32 - 24) (2 ^ 32)) = 208 \<and>
   unat (get_mem_size x64_layout (2 ^ 32 - 24) (2 ^ 32)) <
     mem_size_needed x64_layout (unat (2 ^ 32 - 24 :: u64)) (unat (2 ^ 32 :: u64))"
proof -
  have "power_of_two 8" unfolding power_of_two_def by (rule exI [of _ 3]) simp
  then have x64: "rounds_wrapping (ct_rounded_size x64_layout)" "rounds_wrapping (get_rounded_size x64_layout)"
      "power_of_two (msg_hdr_align x64_layout)" "power_of_two (index_align x64_layout)"
    by (simp_all add: x64_layout_def boost_round_wraps)
  have "mem_size_needed x64_layout (2 ^ 32 - 24) (2 ^ 32) = 2 ^ 64 + 208"
    by (simp add: mem_size_needed_def x64_layout_def nat_round_up_def)
  moreover have "unat (2 ^ 32 - 24 :: u64) = 2 ^ 32 - 24" "unat (2 ^ 32 :: u64) = 2 ^ 32" by simp_all
  ultimately show ?thesis using get_mem_size_wraps [OF x64, of "2 ^ 32 - 24" "2 ^ 32"] by simp
qed

end
