(* ===== verification/Mq_Progress.thy ===== *)
theory Mq_Progress
  imports Mq_Properties
begin

text \<open>
  Progress of the message queue. Work (\<open>mq_work\<close>) is what the threads of a system still do when
  nobody makes a new call and no wait ends by itself: woken threads go on and pending
  notifications are delivered. Work comes to an end, after at most \<open>work_left\<close> steps, and when
  it has, nobody waits for something that is there: with a waiting receiver the queue is empty,
  and with a waiting sender it is full.
\<close>

section \<open>Work ends\<close>

text \<open>
  The measure: a woken thread may wait again or notify, and a notification turns a waiting thread
  into a woken one and an idle one.
\<close>

fun pc_work :: "thread_pc \<Rightarrow> nat" where
  "pc_work (Waiting_send _ _ _ _) = 2"
| "pc_work (Waiting_receive _ _) = 2"
| "pc_work (Woken_send _ _ _ _ _) = 3"
| "pc_work (Woken_receive _ _ _) = 3"
| "pc_work Notify_sender = 2"
| "pc_work Notify_receiver = 2"
| "pc_work Idle = 0"
| "pc_work Crashed = 0"

definition work_left :: "mq_sys \<Rightarrow> nat" where
  "work_left s = sum_list (map pc_work (threads s))"

definition settled :: "mq_build \<Rightarrow> mq_sys \<Rightarrow> bool" where
  "settled bld s \<longleftrightarrow> \<not> (\<exists>ev s'. mq_work bld s ev s')"

inductive mq_works :: "mq_build \<Rightarrow> mq_sys \<Rightarrow> mq_event list \<Rightarrow> mq_sys \<Rightarrow> bool" for bld where
  works_nil: "mq_works bld s [] s"
| works_cons: "mq_work bld s ev t \<Longrightarrow> mq_works bld t evs u \<Longrightarrow> mq_works bld s (ev # evs) u"

lemma work_left_set:
  "i < length (threads s) \<Longrightarrow>
   work_left (set_thread i pc s) + pc_work (threads s ! i) = work_left s + pc_work pc"
proof -
  assume i: "i < length (threads s)"
  have "pc_work (threads s ! i) \<le> sum_list (map pc_work (threads s))"
    using i by (intro member_le_sum_list) auto
  with i show ?thesis
    by (simp add: work_left_def map_update sum_list_update)
qed

lemma work_left_hdr [simp]: "work_left (s\<lparr>hdr := h\<rparr>) = work_left s"
  by (simp add: work_left_def)

text \<open>A section leaves its thread with less work than a woken one has.\<close>

lemma after_send_thread:
  "after_send block buffer n p i s r = (ev, s') \<Longrightarrow>
   \<exists>pc h. s' = set_thread i pc (s\<lparr>hdr := h\<rparr>) \<and> pc_work pc \<le> 2"
  by (auto simp: after_send_def set_thread_def split: option.splits section_end.splits if_splits)
    (metis mq_sys.surjective mq_sys.update_convs(1) pc_work.simps le0 order_refl)+

lemma after_receive_thread:
  "after_receive block buffer i s r = (ev, s') \<Longrightarrow>
   \<exists>pc h. s' = set_thread i pc (s\<lparr>hdr := h\<rparr>) \<and> pc_work pc \<le> 2"
  by (auto simp: after_receive_def set_thread_def split: option.splits section_end.splits if_splits)
    (metis mq_sys.surjective mq_sys.update_convs(1) pc_work.simps le0 order_refl)+

lemma section_work:
  assumes "i < length (threads s)" and "pc_work (threads s ! i) = 3"
    and "\<exists>pc h. s' = set_thread i pc (s\<lparr>hdr := h\<rparr>) \<and> pc_work pc \<le> 2"
  shows "work_left s' < work_left s"
proof -
  obtain pc h where "s' = set_thread i pc (s\<lparr>hdr := h\<rparr>)" and "pc_work pc \<le> 2"
    using assms(3) by blast
  with assms(1,2) work_left_set [of i "s\<lparr>hdr := h\<rparr>" pc] show ?thesis by simp
qed

lemma notification_work:
  assumes "i < length (threads s)" and "pc_work (threads s ! i) = 2"
    and "j < length (threads s)" and "pc_work (threads s ! j) = 2" and "i \<noteq> j" and "pc_work pc = 3"
  shows "work_left (set_thread j pc (set_thread i Idle s)) < work_left s"
  using work_left_set [of i s Idle] work_left_set [of j "set_thread i Idle s" pc] assms by simp

lemma work_decreases: "mq_work bld s ev s' \<Longrightarrow> work_left s' < work_left s"
proof (induction rule: mq_work.induct)
  case (send_resume i s block timed_out buffer n p ev s')
  then show ?case using section_work [OF send_resume(1) _ after_send_thread] by simp
next
  case (receive_resume i s block timed_out buffer ev s')
  then show ?case using section_work [OF receive_resume(1) _ after_receive_thread] by simp
next
  case (notify_receiver i s j block buffer)
  then have "i \<noteq> j" by auto
  with notify_receiver show ?case by (simp add: notification_work)
next
  case (notify_sender i s j block buffer n p)
  then have "i \<noteq> j" by auto
  with notify_sender show ?case by (simp add: notification_work)
next
  case (notify_no_receiver i s)
  then show ?case using work_left_set [of i s Idle] by simp
next
  case (notify_no_sender i s)
  then show ?case using work_left_set [of i s Idle] by simp
qed

lemma works_bounded: "mq_works bld s evs t \<Longrightarrow> length evs + work_left t \<le> work_left s"
  by (induction rule: mq_works.induct) (use work_decreases in \<open>force+\<close>)

lemma works_settle: "\<exists>evs t. mq_works bld s evs t \<and> settled bld t"
proof (induction "work_left s" arbitrary: s rule: less_induct)
  case less
  show ?case
  proof (cases "settled bld s")
    case True
    then show ?thesis using mq_works.works_nil by blast
  next
    case False
    then obtain ev s' where step: "mq_work bld s ev s'" by (auto simp: settled_def)
    from less [OF work_decreases [OF step]] show ?thesis
      using mq_works.works_cons [OF step] by blast
  qed
qed

lemma works_run: "mq_works bld s evs t \<Longrightarrow> mq_run bld r evs0 s \<Longrightarrow> mq_run bld r (evs0 @ evs) t"
proof (induction arbitrary: evs0 rule: mq_works.induct)
  case (works_cons s ev t evs u)
  then show ?case using mq_run.run_step mq_step.work by fastforce
qed simp

section \<open>At rest, nobody waits in vain\<close>

lemma thread_ex: "thread_count P s \<noteq> 0 \<longleftrightarrow> (\<exists>i < length (threads s). P (threads s ! i))"
  by (auto simp: thread_count_def filter_empty_conv set_conv_nth)

lemma pc_iff:
  "woken_send t \<longleftrightarrow> (\<exists>block timed_out buffer n p. t = Woken_send block timed_out buffer n p)"
  "woken_receive t \<longleftrightarrow> (\<exists>block timed_out buffer. t = Woken_receive block timed_out buffer)"
  "notifies_sender t \<longleftrightarrow> t = Notify_sender" "notifies_receiver t \<longleftrightarrow> t = Notify_receiver"
  by (cases t; simp)+

lemma settled_threads:
  assumes "settled bld s"
  shows "ks s = 0" and "kr s = 0" and "wr s = 0 \<or> pr s = 0" and "ws s = 0 \<or> ps s = 0"
proof -
  have stuck: "\<not> mq_work bld s ev s'" for ev s' using assms by (auto simp: settled_def)
  show "ks s = 0"
    using stuck mq_work.send_resume [of _ s] thread_ex [of woken_send s]
    by (metis (no_types) pc_iff(1) surj_pair)
  show "kr s = 0"
    using stuck mq_work.receive_resume [of _ s] thread_ex [of woken_receive s]
    by (metis (no_types) pc_iff(2) surj_pair)
  show "wr s = 0 \<or> pr s = 0"
    using stuck mq_work.notify_receiver [of _ s]
      thread_ex [of waits_receive s] thread_ex [of notifies_receiver s]
    by (metis (no_types) pc_iff(4) waits_receive_iff)
  show "ws s = 0 \<or> ps s = 0"
    using stuck mq_work.notify_sender [of _ s]
      thread_ex [of waits_send s] thread_ex [of notifies_sender s]
    by (metis (no_types) pc_iff(3) waits_send_iff)
qed

text \<open>C4: Whoever waits is served: from every state a new queue can reach, the threads that are woken
  or about to notify finish after at most \<open>work_left\<close> steps, whatever the order of these steps,
  without any new call; they can finish; and when they have, a receiver still waits only if
  the queue is empty, and a sender only if it is full.\<close>

theorem waiting_threads_are_served:
  assumes "layout_ok L" and "layout_fits L n s" and "zero_filled mem (initialize_memory L n s)"
    and "k < 2 ^ 64" and "mq_run (mq_build_of c) (new_system L mem n s k) evs t"
  shows "(\<exists>evs' u. mq_works (mq_build_of c) t evs' u \<and> settled (mq_build_of c) u) \<and>
    (\<forall>evs' u. mq_works (mq_build_of c) t evs' u \<longrightarrow>
       length evs' \<le> work_left t \<and>
       (settled (mq_build_of c) u \<longrightarrow>
          (0 < wr u \<longrightarrow> queued c (hdr u) = []) \<and>
          (0 < ws u \<longrightarrow> length (queued c (hdr u)) = unat n)))"
proof (intro conjI allI impI)
  fix evs' u
  assume works: "mq_works (mq_build_of c) t evs' u"
  then show "length evs' \<le> work_left t" using works_bounded by fastforce
  assume rest: "settled (mq_build_of c) u"
  have "sys_inv (mq_build_of c) (live_of c) (wf_of c) (unat n) u"
    by (rule run_of_new(1) [OF assms(1-4) works_run [OF works assms(5)]])
  then have "length (queued c (hdr u)) = m_cur_num_msg (hdr u)" "m_max_num_msg (hdr u) = unat n"
      "m_cur_num_msg (hdr u) \<le> m_max_num_msg (hdr u)" "wakeup_inv (mq_build_of c) u"
    using idx.length_contents [of c "hdr u"] idx.cur_bound [of c "hdr u"]
    by (auto simp: sys_inv_def mq_inv_def queued_def)
  then show "0 < wr u \<Longrightarrow> queued c (hdr u) = []"
    and "0 < ws u \<Longrightarrow> length (queued c (hdr u)) = unat n"
    using settled_threads [OF rest] by (auto simp: wakeup_inv_def)
qed (rule works_settle)

theorem waiting_threads_are_served_witness:
  "\<exists>t evs u. mq_run circular_build tiny_system [Tau, Put (7, [1]), Tau] t \<and> 0 < ws t \<and> 0 < wr t \<and>
     mq_works circular_build t evs u \<and> length evs \<le> work_left t \<and> settled circular_build u \<and>
     (wr u = 0 \<or> queued True (hdr u) = []) \<and> (ws u = 0 \<or> length (queued True (hdr u)) = 1)"
proof -
  obtain t where run: "mq_run (mq_build_of True) tiny_system [Tau, Put (7, [1]), Tau] t"
      and w: "0 < ws t" "0 < wr t"
    using tiny_run by blast
  note served = waiting_threads_are_served [OF tiny_hyps _ run]
  from served obtain evs u where u: "mq_works (mq_build_of True) t evs u" "settled (mq_build_of True) u"
    by auto
  with served have "length evs \<le> work_left t" "wr u = 0 \<or> queued True (hdr u) = []"
      "ws u = 0 \<or> length (queued True (hdr u)) = 1"
    by fastforce+
  with run w u show ?thesis by (auto simp: mq_build_of_def)
qed

end
