(* ===== verification/Ipc_Named.thy ===== *)
theory Ipc_Named
  imports Mq_Calls
begin

text \<open>
  The named objects: \<^verbatim>\<open>sephi::ipc::MessageQueue\<close> (\<^verbatim>\<open>src/ipc/mq/message_queue.cpp\<close>), the
  constructors of \<^verbatim>\<open>message_queue_t\<close> it calls, and the names of \<^verbatim>\<open>NamedEvent\<close>.

  What the system does with names is not in the sources: \<open>named_api\<close> holds its operations on a state
  of the system, and \<open>named_laws\<close> their documented behaviour: a created object can be opened
  under its name and is a new one; removing a name makes it unknown and leaves the
  objects and the other names alone; \<^verbatim>\<open>open_or_create\<close> opens what the name stands for, or creates.
  \<open>nm_resources\<close> is whether a mutex and two conditions can be built, the members of the control block of a queue,
  and \<open>nm_refusal_throws\<close> what Boost does with a segment in which the block could not be built: it throws, or goes on without. A segment
  that holds a queue is known by its number, and \<open>w_queue\<close> is what the segments hold.
\<close>

section \<open>Names\<close>

record 'o named_api =
  nm_create :: "string \<Rightarrow> u64 \<Rightarrow> 'o \<Rightarrow> ('o \<times> nat) option"
  nm_open :: "string \<Rightarrow> 'o \<Rightarrow> nat option"
  nm_open_or_create :: "string \<Rightarrow> u64 \<Rightarrow> 'o \<Rightarrow> ('o \<times> nat \<times> bool) option"
  nm_remove :: "string \<Rightarrow> 'o \<Rightarrow> 'o"
  nm_segments :: "'o \<Rightarrow> nat set"
  nm_resources :: "'o \<Rightarrow> bool"
  nm_refusal_throws :: bool

definition named_laws :: "'o named_api \<Rightarrow> bool" where
  "named_laws api \<longleftrightarrow>
     (\<forall>name sz os os' seg. nm_create api name sz os = Some (os', seg) \<longrightarrow>
        nm_open api name os' = Some seg \<and> seg \<notin> nm_segments api os \<and>
        nm_segments api os' = insert seg (nm_segments api os) \<and>
        (\<forall>other. other \<noteq> name \<longrightarrow> nm_open api other os' = nm_open api other os)) \<and>
     (\<forall>name os. nm_open api name (nm_remove api name os) = None \<and>
        nm_segments api (nm_remove api name os) = nm_segments api os \<and>
        (\<forall>other. other \<noteq> name \<longrightarrow> nm_open api other (nm_remove api name os) = nm_open api other os)) \<and>
     (\<forall>name sz os. nm_open_or_create api name sz os =
        (case nm_open api name os of
           Some seg \<Rightarrow> Some (os, seg, False)
         | None \<Rightarrow> map_option (\<lambda>(os', seg). (os', seg, True)) (nm_create api name sz os)))"

record 'o world =
  w_os :: 'o
  w_queue :: "nat \<Rightarrow> mq_hdr option"

section \<open>MessageQueue\<close>

record message_queue =
  mqw_segment :: nat
  mqw_name :: string

definition priority_none :: u32 where
  "priority_none = 0"

text \<open>
  The functor that runs when the segment has been created or opened, with the sizes it was made
  with; both default to 0.
\<close>

record mq_initialization_func =
  mif_maxmsg :: u64
  mif_maxmsgsize :: u64

definition mq_initialization_func_new :: "u64 \<Rightarrow> u64 \<Rightarrow> mq_initialization_func" where
  "mq_initialization_func_new maxmsg maxmsgsize = \<lparr>mif_maxmsg = maxmsg, mif_maxmsgsize = maxmsgsize\<rparr>"

definition mq_initialization_func_default :: mq_initialization_func where
  "mq_initialization_func_default = mq_initialization_func_new 0 0"

text \<open>
  Its call operator builds the control block in a segment that is new; \<open>made\<close> is whether the constructor
  of the block returned. It throws when its mutex or a condition cannot be built: the exception is
  caught and the result is false, which Boost gets to see.
\<close>

definition mq_initialize :: "layout \<Rightarrow> raw_memory \<Rightarrow> mq_initialization_func \<Rightarrow> bool \<Rightarrow> bool \<Rightarrow> nat \<Rightarrow> 'o world \<Rightarrow>
    'o world \<times> bool" where
  "mq_initialize L mem func made created seg w =
     (if created then
        if made
        then (w\<lparr>w_queue := (w_queue w)(seg \<mapsto> mq_hdr_new L mem (mif_maxmsg func) (mif_maxmsgsize func))\<rparr>, True)
        else (w, False)
      else (w, True))"

definition unless_refused :: "'o named_api \<Rightarrow> nat \<Rightarrow> 'o world \<times> bool \<Rightarrow> ('o world \<times> nat) option" where
  "unless_refused api seg r = (if \<not> snd r \<and> nm_refusal_throws api then None else Some (fst r, seg))"

text \<open>
  The three constructors of \<^verbatim>\<open>message_queue_t\<close>: the segment it works on. \<open>None\<close> is an exception of Boost.
  \<^verbatim>\<open>open_only\<close> gives the functor no sizes, since it is not going to create anything.
\<close>

definition mq_get_mem_size :: "layout \<Rightarrow> u64 \<Rightarrow> u64 \<Rightarrow> u64" where
  "mq_get_mem_size L max_msg_size max_num_msg = get_mem_size L max_msg_size max_num_msg"

definition mq_create_only :: "'o named_api \<Rightarrow> layout \<Rightarrow> raw_memory \<Rightarrow> string \<Rightarrow> u64 \<Rightarrow> u64 \<Rightarrow> 'o world \<Rightarrow>
    ('o world \<times> nat) option" where
  "mq_create_only api L mem name max_num_msg max_msg_size w =
     do {
       (os, seg) \<leftarrow> nm_create api name (mq_get_mem_size L max_msg_size max_num_msg) (w_os w);
       unless_refused api seg (mq_initialize L mem (mq_initialization_func_new max_num_msg max_msg_size)
         (nm_resources api os) True seg (w\<lparr>w_os := os\<rparr>))
     }"

definition mq_open_or_create :: "'o named_api \<Rightarrow> layout \<Rightarrow> raw_memory \<Rightarrow> string \<Rightarrow> u64 \<Rightarrow> u64 \<Rightarrow> 'o world \<Rightarrow>
    ('o world \<times> nat) option" where
  "mq_open_or_create api L mem name max_num_msg max_msg_size w =
     do {
       (os, seg, created) \<leftarrow>
         nm_open_or_create api name (mq_get_mem_size L max_msg_size max_num_msg) (w_os w);
       unless_refused api seg (mq_initialize L mem (mq_initialization_func_new max_num_msg max_msg_size)
         (nm_resources api os) created seg (w\<lparr>w_os := os\<rparr>))
     }"

definition mq_open_only :: "'o named_api \<Rightarrow> layout \<Rightarrow> raw_memory \<Rightarrow> string \<Rightarrow> 'o world \<Rightarrow>
    ('o world \<times> nat) option" where
  "mq_open_only api L mem name w =
     do {
       seg \<leftarrow> nm_open api name (w_os w);
       unless_refused api seg (mq_initialize L mem mq_initialization_func_default (nm_resources api (w_os w)) False seg w)
     }"

text \<open>The constructors of \<^verbatim>\<open>MessageQueue\<close>, which keep the name.\<close>

definition mqw_create_only :: "'o named_api \<Rightarrow> layout \<Rightarrow> raw_memory \<Rightarrow> string \<Rightarrow> u64 \<Rightarrow> u64 \<Rightarrow> 'o world \<Rightarrow>
    ('o world \<times> message_queue) option" where
  "mqw_create_only api L mem name max_msg_count max_msg_size w =
     do {
       (w, seg) \<leftarrow> mq_create_only api L mem name max_msg_count max_msg_size w;
       Some (w, \<lparr>mqw_segment = seg, mqw_name = name\<rparr>)
     }"

definition mqw_open_only :: "'o named_api \<Rightarrow> layout \<Rightarrow> raw_memory \<Rightarrow> string \<Rightarrow> 'o world \<Rightarrow>
    ('o world \<times> message_queue) option" where
  "mqw_open_only api L mem name w =
     do {
       (w, seg) \<leftarrow> mq_open_only api L mem name w;
       Some (w, \<lparr>mqw_segment = seg, mqw_name = name\<rparr>)
     }"

definition mqw_open_or_create :: "'o named_api \<Rightarrow> layout \<Rightarrow> raw_memory \<Rightarrow> string \<Rightarrow> u64 \<Rightarrow> u64 \<Rightarrow> 'o world \<Rightarrow>
    ('o world \<times> message_queue) option" where
  "mqw_open_or_create api L mem name max_msg_count max_msg_size w =
     do {
       (w, seg) \<leftarrow> mq_open_or_create api L mem name max_msg_count max_msg_size w;
       Some (w, \<lparr>mqw_segment = seg, mqw_name = name\<rparr>)
     }"

lemmas mqw_ctor_defs = mqw_create_only_def mqw_open_only_def mqw_open_or_create_def mq_create_only_def
  mq_open_only_def mq_open_or_create_def mq_get_mem_size_def mq_initialize_def unless_refused_def
  mq_initialization_func_new_def mq_initialization_func_default_def

text \<open>\<^verbatim>\<open>message_queue_t::remove\<close>, \<^verbatim>\<open>destroy\<close> and the destructor; \<open>windows\<close> is the macro.\<close>

definition mq_remove :: "bool \<Rightarrow> 'o named_api \<Rightarrow> string \<Rightarrow> 'o world \<Rightarrow> 'o world" where
  "mq_remove windows api name w = (if windows then w else w\<lparr>w_os := nm_remove api name (w_os w)\<rparr>)"

definition mqw_destroy :: "bool \<Rightarrow> 'o named_api \<Rightarrow> message_queue \<Rightarrow> 'o world \<Rightarrow> 'o world" where
  "mqw_destroy windows api q w = (if windows then w else mq_remove windows api (mqw_name q) w)"

definition mqw_delete :: "bool \<Rightarrow> 'o named_api \<Rightarrow> message_queue \<Rightarrow> 'o world \<Rightarrow> 'o world" where
  "mqw_delete windows api q w = mqw_destroy windows api q w"

text \<open>The calls, each on the queue in the segment of the handle.\<close>

definition on_queue :: "message_queue \<Rightarrow> (mq_hdr \<Rightarrow> (mq_hdr \<times> 'r) option) \<Rightarrow> 'o world \<Rightarrow>
    ('o world \<times> 'r) option" where
  "on_queue q f w =
     do {
       h \<leftarrow> w_queue w (mqw_segment q);
       (h', r) \<leftarrow> f h;
       Some (w\<lparr>w_queue := (w_queue w)(mqw_segment q \<mapsto> h')\<rparr>, r)
     }"

text \<open>\<open>now\<close> is the clock, in microseconds.\<close>

definition posix_time_from :: "int \<Rightarrow> u32 \<Rightarrow> ptime" where
  "posix_time_from now sec = time_at (now + 1000000 * uint sec)"

definition mqw_send where
  "mqw_send bld q buffer buffer_size p w = on_queue q (mq_send bld buffer buffer_size p) w"

definition mqw_try_send where
  "mqw_try_send bld q buffer buffer_size p w = on_queue q (mq_try_send bld buffer buffer_size p) w"

definition mqw_timed_send where
  "mqw_timed_send bld q buffer buffer_size sec p now w =
     on_queue q (mq_timed_send bld buffer buffer_size p (posix_time_from now sec)) w"

text \<open>The calls that leave out the priority.\<close>

definition mqw_send_default where
  "mqw_send_default bld q buffer buffer_size w = mqw_send bld q buffer buffer_size priority_none w"

definition mqw_try_send_default where
  "mqw_try_send_default bld q buffer buffer_size w = mqw_try_send bld q buffer buffer_size priority_none w"

definition mqw_timed_send_default where
  "mqw_timed_send_default bld q buffer buffer_size sec now w =
     mqw_timed_send bld q buffer buffer_size sec priority_none now w"

definition mqw_receive where
  "mqw_receive bld q buffer buffer_size w = on_queue q (mq_receive bld buffer buffer_size) w"

definition mqw_try_receive where
  "mqw_try_receive bld q buffer buffer_size w = on_queue q (mq_try_receive bld buffer buffer_size) w"

definition mqw_timed_receive where
  "mqw_timed_receive bld q buffer buffer_size sec now w =
     on_queue q (mq_timed_receive bld buffer buffer_size (posix_time_from now sec)) w"

definition mqw_get_max_msg :: "message_queue \<Rightarrow> 'o world \<Rightarrow> nat" where
  "mqw_get_max_msg q w = mq_get_max_msg (w_queue w (mqw_segment q))"

definition mqw_get_max_msg_size :: "message_queue \<Rightarrow> 'o world \<Rightarrow> nat" where
  "mqw_get_max_msg_size q w = mq_get_max_msg_size (w_queue w (mqw_segment q))"

definition mqw_get_num_msg :: "message_queue \<Rightarrow> 'o world \<Rightarrow> nat" where
  "mqw_get_num_msg q w = mq_get_num_msg (w_queue w (mqw_segment q))"

section \<open>NamedEvent\<close>

definition cv_prefix :: string where
  "cv_prefix = ''_cv_prefix_''"

definition mtx_prefix :: string where
  "mtx_prefix = ''_mtx_prefix_''"

record named_event_names =
  cv_name :: string
  mtx_name :: string

definition named_event_new where
  "named_event_new api cv_size mtx_size name os =
     (let names = \<lparr>cv_name = cv_prefix @ name, mtx_name = mtx_prefix @ name\<rparr>
      in do {
        (os1, cv, _) \<leftarrow> nm_open_or_create api (cv_name names) cv_size os;
        (os2, mtx, _) \<leftarrow> nm_open_or_create api (mtx_name names) mtx_size os1;
        Some (os2, names, cv, mtx)
      })"

definition named_event_destroy :: "'o named_api \<Rightarrow> named_event_names \<Rightarrow> 'o \<Rightarrow> 'o" where
  "named_event_destroy api names os = nm_remove api (mtx_name names) (nm_remove api (cv_name names) os)"

section \<open>A concrete system\<close>

text \<open>For the witnesses: a table of names and a counter of segments.\<close>

type_synonym name_table = "(string \<Rightarrow> nat option) \<times> nat"

definition table_create :: "string \<Rightarrow> u64 \<Rightarrow> name_table \<Rightarrow> (name_table \<times> nat) option" where
  "table_create name sz os =
     (case os of (t, k) \<Rightarrow> if t name = None then Some ((t(name \<mapsto> k), Suc k), k) else None)"

definition table_api :: "name_table named_api" where
  "table_api =
     \<lparr>nm_create = table_create,
      nm_open = (\<lambda>name os. fst os name),
      nm_open_or_create = (\<lambda>name sz os.
        case fst os name of
          Some seg \<Rightarrow> Some (os, seg, False)
        | None \<Rightarrow> map_option (\<lambda>(os', seg). (os', seg, True)) (table_create name sz os)),
      nm_remove = (\<lambda>name os. ((fst os)(name := None), snd os)),
      nm_segments = (\<lambda>os. {..<snd os}), nm_resources = (\<lambda>_. True), nm_refusal_throws = True\<rparr>"

lemma table_resources: "nm_resources table_api os"
  by (simp add: table_api_def)

lemma table_laws: "named_laws table_api"
  by (auto simp: named_laws_def table_api_def table_create_def split: if_splits prod.splits option.splits)

definition empty_world :: "name_table world" where
  "empty_world = \<lparr>w_os = (\<lambda>_. None, 0), w_queue = (\<lambda>_. None)\<rparr>"

section \<open>Properties\<close>

lemma create_fresh:
  "named_laws api \<Longrightarrow> nm_create api name sz os = Some (os', seg) \<Longrightarrow> seg \<notin> nm_segments api os"
  by (simp add: named_laws_def)

lemma new_sizes:
  "m_max_msg_size (mq_hdr_new L mem n s) = unat s" "m_max_num_msg (mq_hdr_new L mem n s) = unat n"
  by (simp_all add: mq_hdr_new_def Let_def)

text \<open>Without a priority a message goes behind all others, and the queue is first in, first out.\<close>

lemma pq_insert_none: "pq_insert (priority_none, m) q = q @ [(priority_none, m)]"
  by (induction q) (simp_all add: priority_none_def)

lemma default_priority_last:
  assumes "w_queue w (mqw_segment q) = Some h" and "queue_inv c h" and "length m \<le> m_max_msg_size h"
    and "length (queued c h) < m_max_num_msg h"
  shows "\<exists>h' notify. mqw_try_send_default (mq_build_of c) q m (length m) w =
      Some (w\<lparr>w_queue := (w_queue w)(mqw_segment q \<mapsto> h')\<rparr>, Done (True, notify)) \<and>
    queue_inv c h' \<and> queued c h' = queued c h @ [(priority_none, m)]"
  using try_send_room [OF assms(2), of "length m" m priority_none] assms(1,3,4) queue_length [OF assms(2)]
  by (auto simp: mqw_try_send_default_def mqw_try_send_def on_queue_def pq_insert_none)

text \<open>C9: A message sent through one handle is received, unchanged and with its priority, through another that
  was opened under the same name, in either build of the queue, unless the system had no resources for the queue.\<close>

theorem message_queue_round_trip:
  assumes "named_laws api" and "layout_ok L" and "layout_fits L n s"
    and "zero_filled mem (initialize_memory L n s)" and "0 < unat n"
    and "mqw_create_only api L mem name n s w = Some (w1, a)" and "mqw_open_only api L mem name w1 = Some (w2, b)"
    and "nm_resources api (w_os w1)" and "length m \<le> unat s" and "length buffer = unat s"
  shows "\<exists>w3 w4 n1 n2. mqw_try_send (mq_build_of c) a m (length m) p w2 = Some (w3, Done (True, n1)) \<and>
    mqw_try_receive (mq_build_of c) b buffer (length buffer) w3 =
      Some (w4, Done (Some (m @ drop (length m) buffer, length m, p), n2)) \<and>
    mqw_get_num_msg a w3 = 1 \<and> mqw_get_num_msg b w4 = 0"
proof -
  let ?h = "mq_hdr_new L mem n s"
  have same: "w2 = w1" "mqw_segment b = mqw_segment a" "w_queue w1 (mqw_segment a) = Some ?h"
    using assms(1,6-8)
    by (auto simp: mqw_ctor_defs named_laws_def split: bind_splits if_splits)
  note new = queue_inv_new [OF assms(2-4), of c]
  obtain h1 n1 where h1: "mq_try_send (mq_build_of c) m (length m) p ?h = Some (h1, Done (True, n1))"
      "queue_inv c h1" "unblocked ?h h1" "queued c h1 = [(p, m)]"
    using try_send_room [OF new(1), of "length m" m p] assms(5,9) new(2) by (auto simp: new_sizes)
  obtain h2 n2 where h2: "mq_try_receive (mq_build_of c) buffer (length buffer) h1 =
        Some (h2, Done (Some (m @ drop (length m) buffer, length m, p), n2))"
      "queue_inv c h2" "queued c h2 = []"
    using try_receive_some [OF h1(2) _ order_refl h1(4), of buffer] h1(3) assms(10)
    by (auto simp: unblocked_def new_sizes)
  have "m_cur_num_msg h1 = 1" "m_cur_num_msg h2 = 0"
    using queue_length [OF h1(2)] queue_length [OF h2(2)] h1(4) h2(3) by simp_all
  with same h1(1) h2(1) show ?thesis
    by (simp add: mqw_try_send_def mqw_try_receive_def on_queue_def mqw_get_num_msg_def mq_get_num_msg_def)
qed

theorem message_queue_round_trip_witness:
  "\<exists>w1 a w2 b w3 w4 n1 n2.
     mqw_create_only table_api x64_layout zero_memory ''q'' 3 4 empty_world = Some (w1, a) \<and>
     mqw_open_only table_api x64_layout zero_memory ''q'' w1 = Some (w2, b) \<and>
     mqw_try_send circular_build a [1, 2] 2 7 w2 = Some (w3, Done (True, n1)) \<and>
     mqw_try_receive circular_build b [0, 0, 0, 0] 4 w3 = Some (w4, Done (Some ([1, 2, 0, 0], 2, 7), n2))"
proof -
  obtain w1 a w2 b where a: "mqw_create_only table_api x64_layout zero_memory ''q'' 3 4 empty_world = Some (w1, a)"
      and b: "mqw_open_only table_api x64_layout zero_memory ''q'' w1 = Some (w2, b)"
    by (simp add: mqw_ctor_defs table_api_def table_create_def empty_world_def)
  have "\<exists>w3 w4 n1 n2. mqw_try_send circular_build a [1, 2] 2 7 w2 = Some (w3, Done (True, n1)) \<and>
     mqw_try_receive circular_build b [0, 0, 0, 0] 4 w3 = Some (w4, Done (Some ([1, 2, 0, 0], 2, 7), n2))"
    using message_queue_round_trip [OF table_laws demo_hyps _ a b table_resources, of "[1, 2]" "[0, 0, 0, 0]" True 7]
    by (simp add: mq_build_of_def) (simp add: numeral_eq_Suc, blast)
  with a b show ?thesis by blast
qed

text \<open>C24: Destroying any handle of a message queue removes its name, also while others use the queue: whoever
  opens or creates the name after that gets another queue, and what is sent through the old handle
  does not reach it. (Not on Windows, where the destructor does nothing.)\<close>

theorem message_queue_destructor_splits:
  assumes "named_laws api"
    and "mqw_create_only api L mem name n s w = Some (w1, a)" and "mqw_open_only api L mem name w1 = Some (w2, b)"
    and "mqw_open_or_create api L mem name n s (mqw_delete False api b w2) = Some (w3, d)"
    and "nm_resources api (w_os w3)"
  shows "mqw_name d = mqw_name a \<and> mqw_segment d \<noteq> mqw_segment a \<and>
    w_queue w3 (mqw_segment d) = Some (mq_hdr_new L mem n s) \<and>
    w_queue w3 (mqw_segment a) = w_queue w2 (mqw_segment a) \<and>
    (\<forall>w4 r. mqw_try_send bld a buffer k p w3 = Some (w4, r) \<longrightarrow>
       w_queue w4 (mqw_segment d) = w_queue w3 (mqw_segment d))"
proof -
  obtain os1 where a: "nm_create api name (get_mem_size L s n) (w_os w) = Some (os1, mqw_segment a)"
      "w_os w1 = os1" "mqw_name a = name"
    using assms(2) by (auto simp: mqw_ctor_defs split: bind_splits if_splits)
  have b: "w2 = w1" "mqw_name b = name" using assms(3) by (auto simp: mqw_ctor_defs split: bind_splits if_splits)
  let ?os = "nm_remove api name os1"
  have none: "nm_open api name ?os = None" and seen: "mqw_segment a \<in> nm_segments api ?os"
    using assms(1) a(1) by (auto simp: named_laws_def)
  then obtain os2 where d: "nm_create api name (get_mem_size L s n) ?os = Some (os2, mqw_segment d)"
      "w3 = fst (mq_initialize L mem (mq_initialization_func_new n s) True True (mqw_segment d) (w2\<lparr>w_os := os2\<rparr>))"
      "mqw_name d = name"
    using assms(1,4,5) a(2) b by (auto simp: mqw_ctor_defs mqw_delete_def mqw_destroy_def mq_remove_def
        named_laws_def split: bind_splits if_splits)
  then have "mqw_segment d \<noteq> mqw_segment a" using create_fresh [OF assms(1) d(1)] seen by auto
  then show ?thesis
    using d a(3) by (auto simp: mqw_ctor_defs mqw_try_send_def on_queue_def split: bind_splits if_splits)
qed

theorem message_queue_destructor_splits_witness:
  "\<exists>w1 a w2 b w3 d.
     mqw_create_only table_api x64_layout zero_memory ''q'' 3 4 empty_world = Some (w1, a) \<and>
     mqw_open_only table_api x64_layout zero_memory ''q'' w1 = Some (w2, b) \<and>
     mqw_open_or_create table_api x64_layout zero_memory ''q'' 3 4 (mqw_delete False table_api b w2) = Some (w3, d) \<and>
     mqw_segment d \<noteq> mqw_segment a"
proof -
  obtain w1 a w2 b where a: "mqw_create_only table_api x64_layout zero_memory ''q'' 3 4 empty_world = Some (w1, a)"
      and b: "mqw_open_only table_api x64_layout zero_memory ''q'' w1 = Some (w2, b)"
      and os: "w_os (mqw_delete False table_api b w2) = (\<lambda>_. None, 1)"
    by (simp add: mqw_ctor_defs table_api_def table_create_def empty_world_def mqw_delete_def
        mqw_destroy_def mq_remove_def)
  obtain w3 d where d: "mqw_open_or_create table_api x64_layout zero_memory ''q'' 3 4
      (mqw_delete False table_api b w2) = Some (w3, d)"
    using os by (simp add: mqw_ctor_defs table_api_def table_create_def)
  show ?thesis
    using message_queue_destructor_splits [OF table_laws a b d table_resources] a b d by blast
qed

end
