(* ===== verification/Ipc_Shared_Memory.thy ===== *)
theory Ipc_Shared_Memory
  imports Ipc_Named
begin

text \<open>
  \<^verbatim>\<open>sephi::ipc::SharedMemory\<close> (\<^verbatim>\<open>include/sephi/ipc/shm/shared_memory.h\<close>, \<^verbatim>\<open>src/ipc/shm/shared_memory.cpp\<close>).
  The names are those of \<open>Ipc_Named\<close>. What is inside a segment is Boost's: \<open>managed_api\<close> holds the
  operations of its managed segment on a state of the segment, and \<open>managed_laws\<close> their documented behaviour.
  Each process maps a segment at an address of its own, the \<open>base\<close>; addresses of objects are those of a
  mapping, handles are the same in all. Objects are known by their addresses; their types and
  contents, with the arguments of \<^verbatim>\<open>construct\<close>, do not matter to the class.
\<close>

section \<open>The managed segment\<close>

record 'm managed_api =
  mm_new :: "u64 \<Rightarrow> 'm"
  mm_construct :: "nat \<Rightarrow> string \<Rightarrow> 'm \<Rightarrow> ('m \<times> nat) option"
  mm_find :: "nat \<Rightarrow> string \<Rightarrow> 'm \<Rightarrow> nat option"
  mm_destroy_ptr :: "nat \<Rightarrow> nat \<Rightarrow> 'm \<Rightarrow> 'm"
  mm_belongs_to_segment :: "nat \<Rightarrow> nat \<Rightarrow> 'm \<Rightarrow> bool"
  mm_get_handle_from_address :: "nat \<Rightarrow> nat \<Rightarrow> int"
  mm_get_address_from_handle :: "nat \<Rightarrow> int \<Rightarrow> nat"
  mm_atomic_func :: "('m \<Rightarrow> 'm) \<Rightarrow> 'm \<Rightarrow> 'm"
  mm_get_free_memory :: "'m \<Rightarrow> nat"

text \<open>
  A constructed object is found under its name, which was free; a found object is inside the
  segment, is found in every mapping at the address its handle has there, and is not found any
  more after it has been destroyed, while the other objects are; nothing is found in a new segment; an atomic function is
  just run.
\<close>

definition managed_laws :: "'m managed_api \<Rightarrow> bool" where
  "managed_laws api \<longleftrightarrow>
     (\<forall>base name m m' obj. mm_construct api base name m = Some (m', obj) \<longrightarrow>
        mm_find api base name m = None \<and> mm_find api base name m' = Some obj \<and>
        (\<forall>other. other \<noteq> name \<longrightarrow> mm_find api base other m' = mm_find api base other m)) \<and>
     (\<forall>base name m obj. mm_find api base name m = Some obj \<longrightarrow>
        mm_belongs_to_segment api base obj m \<and>
        (\<forall>base'. mm_find api base' name m =
           Some (mm_get_address_from_handle api base' (mm_get_handle_from_address api base obj))) \<and>
        mm_find api base name (mm_destroy_ptr api base obj m) = None \<and>
        (\<forall>other obj'. mm_find api base other m = Some obj' \<longrightarrow> obj' \<noteq> obj \<longrightarrow>
           mm_find api base other (mm_destroy_ptr api base obj m) = Some obj')) \<and>
     (\<forall>base name sz. mm_find api base name (mm_new api sz) = None) \<and>
     (\<forall>f m. mm_atomic_func api f m = f m)"

section \<open>SharedMemory\<close>

datatype ipc_exception = NotFound string

text \<open>\<open>shm_memory\<close> is the pointer to the mapped segment, null in an object that has been moved from.\<close>

record shared_memory =
  shm_memory :: "nat option"
  shm_base :: nat
  shm_name :: string

record ('o, 'm) shm_world =
  sw_os :: 'o
  sw_segment :: "nat \<Rightarrow> 'm option"

text \<open>A segment that has just been created holds nothing.\<close>

definition shm_format :: "'m managed_api \<Rightarrow> u64 \<Rightarrow> bool \<Rightarrow> nat \<Rightarrow> ('o, 'm) shm_world \<Rightarrow> ('o, 'm) shm_world" where
  "shm_format mapi sz created seg w =
     (if created then w\<lparr>sw_segment := (sw_segment w)(seg \<mapsto> mm_new mapi sz)\<rparr> else w)"

definition shm_create_only :: "'o named_api \<Rightarrow> 'm managed_api \<Rightarrow> nat \<Rightarrow> string \<Rightarrow> u64 \<Rightarrow> ('o, 'm) shm_world \<Rightarrow>
    (('o, 'm) shm_world \<times> shared_memory) option" where
  "shm_create_only api mapi base name sz w =
     do {
       (os, seg) \<leftarrow> nm_create api name sz (sw_os w);
       Some (shm_format mapi sz True seg (w\<lparr>sw_os := os\<rparr>),
             \<lparr>shm_memory = Some seg, shm_base = base, shm_name = name\<rparr>)
     }"

definition shm_open_only :: "'o named_api \<Rightarrow> nat \<Rightarrow> string \<Rightarrow> ('o, 'm) shm_world \<Rightarrow>
    (('o, 'm) shm_world \<times> shared_memory) option" where
  "shm_open_only api base name w =
     do {
       seg \<leftarrow> nm_open api name (sw_os w);
       Some (w, \<lparr>shm_memory = Some seg, shm_base = base, shm_name = name\<rparr>)
     }"

definition shm_open_or_create :: "'o named_api \<Rightarrow> 'm managed_api \<Rightarrow> nat \<Rightarrow> string \<Rightarrow> u64 \<Rightarrow> ('o, 'm) shm_world \<Rightarrow>
    (('o, 'm) shm_world \<times> shared_memory) option" where
  "shm_open_or_create api mapi base name sz w =
     do {
       (os, seg, created) \<leftarrow> nm_open_or_create api name sz (sw_os w);
       Some (shm_format mapi sz created seg (w\<lparr>sw_os := os\<rparr>),
             \<lparr>shm_memory = Some seg, shm_base = base, shm_name = name\<rparr>)
     }"

text \<open>
  \<^verbatim>\<open>destroy\<close>, the destructor, and move assignment, which is the default one: it takes over the members of the
  source, leaves \<open>left\<close>, which the standard does not specify, as its name, and forgets those of the
  target. \<open>windows\<close> is the macro.
\<close>

definition shm_destroy :: "bool \<Rightarrow> 'o named_api \<Rightarrow> shared_memory \<Rightarrow> ('o, 'm) shm_world \<Rightarrow> ('o, 'm) shm_world" where
  "shm_destroy windows api sm w =
     (if windows then w else w\<lparr>sw_os := nm_remove api (shm_name sm) (sw_os w)\<rparr>)"

definition shm_delete :: "bool \<Rightarrow> 'o named_api \<Rightarrow> shared_memory \<Rightarrow> ('o, 'm) shm_world \<Rightarrow> ('o, 'm) shm_world" where
  "shm_delete windows api sm w = shm_destroy windows api sm w"

definition shm_move_assign :: "string \<Rightarrow> shared_memory \<Rightarrow> shared_memory \<Rightarrow> shared_memory \<times> shared_memory" where
  "shm_move_assign left target source = (source, source\<lparr>shm_memory := None, shm_name := left\<rparr>)"

text \<open>The move constructor, likewise: the new object and what is left of the source.\<close>

definition shm_move_new :: "string \<Rightarrow> shared_memory \<Rightarrow> shared_memory \<times> shared_memory" where
  "shm_move_new left source = (source, source\<lparr>shm_memory := None, shm_name := left\<rparr>)"

text \<open>The operations on the mapped segment; \<open>None\<close> is a null pointer, a failed assertion, or an exception of Boost.\<close>

definition mapped :: "shared_memory \<Rightarrow> ('o, 'm) shm_world \<Rightarrow> 'm option" where
  "mapped sm w = do { seg \<leftarrow> shm_memory sm; sw_segment w seg }"

definition set_mapped :: "shared_memory \<Rightarrow> 'm \<Rightarrow> ('o, 'm) shm_world \<Rightarrow> ('o, 'm) shm_world" where
  "set_mapped sm m w =
     (case shm_memory sm of None \<Rightarrow> w | Some seg \<Rightarrow> w\<lparr>sw_segment := (sw_segment w)(seg \<mapsto> m)\<rparr>)"

definition shm_construct :: "'m managed_api \<Rightarrow> shared_memory \<Rightarrow> string \<Rightarrow> ('o, 'm) shm_world \<Rightarrow>
    (('o, 'm) shm_world \<times> nat) option" where
  "shm_construct mapi sm name w =
     do {
       m \<leftarrow> mapped sm w;
       (m', obj) \<leftarrow> mm_construct mapi (shm_base sm) name m;
       Some (set_mapped sm m' w, obj)
     }"

definition not_found :: string where
  "not_found = ''Unable to find the object.''"

definition shm_find :: "'m managed_api \<Rightarrow> shared_memory \<Rightarrow> string \<Rightarrow> ('o, 'm) shm_world \<Rightarrow>
    (ipc_exception + nat) option" where
  "shm_find mapi sm name w =
     do {
       m \<leftarrow> mapped sm w;
       Some (case mm_find mapi (shm_base sm) name m of
               Some obj \<Rightarrow> Inr obj
             | None \<Rightarrow> Inl (NotFound not_found))
     }"

definition shm_contains :: "'m managed_api \<Rightarrow> shared_memory \<Rightarrow> nat \<Rightarrow> ('o, 'm) shm_world \<Rightarrow> bool option" where
  "shm_contains mapi sm ptr w =
     do { m \<leftarrow> mapped sm w; Some (mm_belongs_to_segment mapi (shm_base sm) ptr m) }"

definition shm_destruct :: "'m managed_api \<Rightarrow> shared_memory \<Rightarrow> nat \<Rightarrow> ('o, 'm) shm_world \<Rightarrow>
    ('o, 'm) shm_world option" where
  "shm_destruct mapi sm obj w =
     do {
       m \<leftarrow> mapped sm w;
       check (mm_belongs_to_segment mapi (shm_base sm) obj m);
       Some (set_mapped sm (mm_destroy_ptr mapi (shm_base sm) obj m) w)
     }"

definition shm_to_handle :: "'m managed_api \<Rightarrow> shared_memory \<Rightarrow> nat \<Rightarrow> ('o, 'm) shm_world \<Rightarrow> int option" where
  "shm_to_handle mapi sm obj w =
     do {
       inside \<leftarrow> shm_contains mapi sm obj w;
       check inside;
       Some (mm_get_handle_from_address mapi (shm_base sm) obj)
     }"

definition shm_from_handle :: "'m managed_api \<Rightarrow> shared_memory \<Rightarrow> int \<Rightarrow> ('o, 'm) shm_world \<Rightarrow> nat option" where
  "shm_from_handle mapi sm handle w =
     do {
       let ptr = mm_get_address_from_handle mapi (shm_base sm) handle;
       inside \<leftarrow> shm_contains mapi sm ptr w;
       check inside;
       Some ptr
     }"

definition shm_invoke_atomic :: "'m managed_api \<Rightarrow> shared_memory \<Rightarrow> ('m \<Rightarrow> 'm) \<Rightarrow> ('o, 'm) shm_world \<Rightarrow>
    ('o, 'm) shm_world option" where
  "shm_invoke_atomic mapi sm func w =
     do { m \<leftarrow> mapped sm w; Some (set_mapped sm (mm_atomic_func mapi func m) w) }"

definition shm_free_size :: "'m managed_api \<Rightarrow> shared_memory \<Rightarrow> ('o, 'm) shm_world \<Rightarrow> nat option" where
  "shm_free_size mapi sm w = do { m \<leftarrow> mapped sm w; Some (mm_get_free_memory mapi m) }"

definition shm_get_name :: "shared_memory \<Rightarrow> string" where
  "shm_get_name sm = shm_name sm"

section \<open>A concrete segment\<close>

text \<open>
  For the witnesses: a segment that gives every object a byte of its own and remembers the offsets
  of named objects.
\<close>

type_synonym slots = "(string \<Rightarrow> nat option) \<times> nat"

definition slot_of :: "string \<Rightarrow> slots \<Rightarrow> nat option" where
  "slot_of name m = (case fst m name of None \<Rightarrow> None | Some off \<Rightarrow> if off < snd m then Some off else None)"

definition slots_api :: "slots managed_api" where
  "slots_api =
     \<lparr>mm_new = (\<lambda>sz. (\<lambda>_. None, 0)),
      mm_construct = (\<lambda>base name (t, k).
        if slot_of name (t, k) = None then Some (((\<lambda>n. slot_of n (t, k))(name \<mapsto> k), Suc k), base + k) else None),
      mm_find = (\<lambda>base name m. map_option (\<lambda>off. base + off) (slot_of name m)),
      mm_destroy_ptr = (\<lambda>base obj (t, k). (\<lambda>name. if map_option (\<lambda>off. base + off) (t name) = Some obj then None else t name, k)),
      mm_belongs_to_segment = (\<lambda>base obj (t, k). base \<le> obj \<and> obj < base + k),
      mm_get_handle_from_address = (\<lambda>base obj. int obj - int base),
      mm_get_address_from_handle = (\<lambda>base handle. nat (int base + handle)),
      mm_atomic_func = (\<lambda>f m. f m),
      mm_get_free_memory = (\<lambda>m. 0)\<rparr>"

lemma slots_laws: "managed_laws slots_api"
  by (auto simp: managed_laws_def slots_api_def slot_of_def split: if_splits option.splits)

section \<open>Properties\<close>

lemma managed_construct:
  assumes "managed_laws mapi" and "mm_construct mapi base name m = Some (m', obj)"
  shows "mm_find mapi base name m = None" and "mm_find mapi base name m' = Some obj"
  using assms unfolding managed_laws_def by blast+

lemma managed_found:
  assumes "managed_laws mapi" and "mm_find mapi base name m = Some obj"
  shows "mm_belongs_to_segment mapi base obj m"
    and "mm_find mapi base' name m =
      Some (mm_get_address_from_handle mapi base' (mm_get_handle_from_address mapi base obj))"
    and "mm_find mapi base name (mm_destroy_ptr mapi base obj m) = None"
  using assms unfolding managed_laws_def by blast+

lemma find_elsewhere:
  assumes "managed_laws mapi" and "mm_find mapi base name m = None"
  shows "mm_find mapi base' name m = None"
  using managed_found(2) [OF assms(1), of base' name m _ base] assms(2) by (cases "mm_find mapi base' name m") auto

lemma set_mapped_same:
  "shm_memory b = shm_memory a \<Longrightarrow> mapped a w = Some m \<Longrightarrow> mapped b (set_mapped a m' w) = Some m'"
  by (auto simp: mapped_def set_mapped_def split: option.splits bind_splits)

text \<open>
  The life of an object in shared memory, seen through two handles of one name that map the
  segment at different addresses: the name is free before; the object constructed through one is found
  through both; its handle, made in one mapping, gives in the other the address at which the
  object is found there; and after it has been destructed through one, the other throws
  \<^verbatim>\<open>NotFound\<close>.
\<close>

lemma shared_object_life:
  assumes "named_laws api" and "managed_laws mapi"
    and "shm_create_only api mapi base1 seg_name sz w = Some (w1, a)"
    and "shm_open_only api base2 seg_name w1 = Some (w2, b)"
    and "shm_construct mapi a name w2 = Some (w3, obj)"
  shows "shm_find mapi b name w2 = Some (Inl (NotFound not_found)) \<and>
    shm_find mapi a name w3 = Some (Inr obj) \<and>
    (\<exists>handle obj'. shm_to_handle mapi a obj w3 = Some handle \<and> shm_from_handle mapi b handle w3 = Some obj' \<and>
       shm_find mapi b name w3 = Some (Inr obj')) \<and>
    (\<exists>w4. shm_destruct mapi a obj w3 = Some w4 \<and> shm_find mapi b name w4 = Some (Inl (NotFound not_found)))"
proof -
  have same: "shm_memory b = shm_memory a" "shm_base a = base1" "shm_base b = base2"
    using assms(1,3,4) by (auto simp: shm_create_only_def shm_open_only_def shm_format_def named_laws_def
        split: bind_splits)
  obtain m m3 where m: "mapped a w2 = Some m" "mm_construct mapi base1 name m = Some (m3, obj)"
      "w3 = set_mapped a m3 w2"
    using assms(5) same(2) by (auto simp: shm_construct_def split: bind_splits)
  have at: "mapped a w3 = Some m3" "mapped b w3 = Some m3" "mapped b w2 = Some m"
    using set_mapped_same [OF _ m(1)] same(1) m(1,3) by (auto simp: mapped_def)
  note c = managed_construct [OF assms(2) m(2)]
  note f = managed_found [OF assms(2) c(2)]
  have "mm_belongs_to_segment mapi base2
      (mm_get_address_from_handle mapi base2 (mm_get_handle_from_address mapi base1 obj)) m3"
    by (rule managed_found(1) [OF assms(2) f(2)])
  moreover note find_elsewhere [OF assms(2) c(1), of base2] find_elsewhere [OF assms(2) f(3), of base2]
  ultimately show ?thesis
    using same at c(2) f(1) f(2) [of base2] set_mapped_same [OF same(1) at(1)]
    by (simp add: shm_find_def shm_to_handle_def shm_from_handle_def shm_contains_def shm_destruct_def check_def)
qed

text \<open>C28: Destroying any handle of a shared memory removes its name, also while others use it: whoever opens or creates the
  name after that gets another, empty segment, in which \<^verbatim>\<open>find\<close> throws \<^verbatim>\<open>NotFound\<close> for every name, and what
  is constructed in it is not seen through the old handle, nor the other way round, although both
  handles have the same name and what the old one holds is still there. (Not on Windows, where the destructor does
  nothing.)\<close>

theorem shared_memory_destructor_splits:
  assumes "named_laws api" and "managed_laws mapi"
    and "shm_create_only api mapi base1 seg_name sz w = Some (w1, a)"
    and "shm_open_only api base2 seg_name w1 = Some (w2, b)"
    and "shm_construct mapi a name w2 = Some (w3, obj)"
    and "shm_open_or_create api mapi base3 seg_name sz' (shm_delete False api b w3) = Some (w4, d)"
  shows "shm_get_name d = shm_get_name a \<and> shm_memory d \<noteq> shm_memory a \<and>
    shm_find mapi a name w4 = Some (Inr obj) \<and>
    (\<forall>n. shm_find mapi d n w4 = Some (Inl (NotFound not_found))) \<and>
    (\<forall>n w5 obj'. shm_construct mapi d n w4 = Some (w5, obj') \<longrightarrow>
       (\<forall>n'. shm_find mapi a n' w5 = shm_find mapi a n' w4)) \<and>
    (\<forall>n w5 obj'. shm_construct mapi a n w4 = Some (w5, obj') \<longrightarrow>
       (\<forall>n'. shm_find mapi d n' w5 = Some (Inl (NotFound not_found))))"
proof -
  obtain seg os1 where a: "nm_create api seg_name sz (sw_os w) = Some (os1, seg)" "sw_os w1 = os1"
      "a = \<lparr>shm_memory = Some seg, shm_base = base1, shm_name = seg_name\<rparr>"
    using assms(3) by (auto simp: shm_create_only_def shm_format_def split: bind_splits)
  have b: "w2 = w1" "shm_name b = seg_name" using assms(4) by (auto simp: shm_open_only_def split: bind_splits)
  obtain m m3 where m: "mapped a w2 = Some m" "mm_construct mapi base1 name m = Some (m3, obj)"
      "w3 = set_mapped a m3 w2"
    using assms(5) a(3) by (auto simp: shm_construct_def split: bind_splits)
  have w3: "sw_os w3 = os1" "sw_segment w3 seg = Some m3" using m(3) a(2,3) b(1) by (simp_all add: set_mapped_def)
  let ?os = "nm_remove api seg_name os1"
  have none: "nm_open api seg_name ?os = None" and seen: "seg \<in> nm_segments api ?os"
    using assms(1) a(1) by (auto simp: named_laws_def)
  then obtain os2 seg2 where d: "nm_create api seg_name sz' ?os = Some (os2, seg2)"
      "w4 = shm_format mapi sz' True seg2 (w3\<lparr>sw_os := os2\<rparr>)"
      "d = \<lparr>shm_memory = Some seg2, shm_base = base3, shm_name = seg_name\<rparr>"
    using assms(1,6) w3(1) b(2)
    by (auto simp: shm_open_or_create_def shm_delete_def shm_destroy_def named_laws_def split: bind_splits)
  have other: "seg2 \<noteq> seg" using create_fresh [OF assms(1) d(1)] seen by auto
  then have w4: "mapped a w4 = Some m3" "mapped d w4 = Some (mm_new mapi sz')"
    using d(2,3) a(3) w3(2) by (simp_all add: mapped_def shm_format_def)
  have new: "mm_find mapi base3 n (mm_new mapi sz') = None" for n
    using assms(2) by (simp add: managed_laws_def)
  have apart: "mapped a (set_mapped d x w4) = mapped a w4" "mapped d (set_mapped a x w4) = mapped d w4" for x
    using other a(3) d(3) by (simp_all add: mapped_def set_mapped_def)
  note managed_construct(2) [OF assms(2) m(2)]
  with w4 new apart other a(3) d(3) show ?thesis
    by (auto simp: shm_get_name_def shm_find_def shm_construct_def split: bind_splits)
qed

theorem shared_memory_destructor_splits_witness:
  "\<exists>w1 a w2 b w3 w4 d.
     shm_create_only table_api slots_api 4096 ''s'' 100 \<lparr>sw_os = (\<lambda>_. None, 0), sw_segment = (\<lambda>_. None)\<rparr> = Some (w1, a) \<and>
     shm_open_only table_api 8192 ''s'' w1 = Some (w2, b) \<and> shm_construct slots_api a ''x'' w2 = Some (w3, 4096) \<and>
     shm_open_or_create table_api slots_api 16384 ''s'' 100 (shm_delete False table_api b w3) = Some (w4, d) \<and>
     shm_find slots_api a ''x'' w4 = Some (Inr 4096) \<and>
     shm_find slots_api d ''x'' w4 = Some (Inl (NotFound not_found))"
proof -
  obtain w1 a w2 b w3
    where a: "shm_create_only table_api slots_api 4096 ''s'' 100 \<lparr>sw_os = (\<lambda>_. None, 0), sw_segment = (\<lambda>_. None)\<rparr> = Some (w1, a)"
      and b: "shm_open_only table_api 8192 ''s'' w1 = Some (w2, b)"
      and c: "shm_construct slots_api a ''x'' w2 = Some (w3, 4096)"
      and os: "sw_os (shm_delete False table_api b w3) = (\<lambda>_. None, 1)"
    by (simp add: shm_create_only_def shm_open_only_def shm_construct_def shm_delete_def shm_destroy_def
        shm_format_def mapped_def set_mapped_def table_api_def table_create_def slots_api_def slot_of_def)
  obtain w4 d where d: "shm_open_or_create table_api slots_api 16384 ''s'' 100 (shm_delete False table_api b w3) = Some (w4, d)"
    using os by (simp add: shm_open_or_create_def table_api_def table_create_def)
  from shared_memory_destructor_splits [OF table_laws slots_laws a b c d] a b c d show ?thesis by blast
qed

text \<open>
  Move assignment forgets the name of the target: once both objects are gone, the name of the
  overwritten segment is still known to the system.
\<close>

lemma move_assign_keeps_name:
  assumes "named_laws api" and "nm_open api (shm_name target) (sw_os w) = Some seg"
    and "shm_move_assign left target source = (target', source')"
    and "shm_name source \<noteq> shm_name target" and "left \<noteq> shm_name target"
  shows "nm_open api (shm_name target) (sw_os (shm_delete False api source' (shm_delete False api target' w))) = Some seg"
  using assms by (auto simp: shm_move_assign_def shm_delete_def shm_destroy_def named_laws_def)

text \<open>
  The object a segment was moved to can go on when the one it was moved from is destroyed, as long as
  the move has not left the name behind, which the standard would allow.
\<close>

lemma move_new_keeps_name:
  assumes "named_laws api" and "shm_move_new left source = (target, source')"
    and "nm_open api (shm_name source) (sw_os w) = Some seg"
  shows "mapped target w = mapped source w" and "mapped source' w = None"
    and "nm_open api (shm_name source) (sw_os (shm_delete False api source' w)) =
      (if left = shm_name source then None else Some seg)"
  using assms
  by (auto simp: shm_move_new_def mapped_def shm_delete_def shm_destroy_def named_laws_def)

end
