(* ===== verification/Sync_Event.thy ===== *)
theory Sync_Event
  imports Sephi_Prelude
begin

text \<open>
  Events: \<^verbatim>\<open>sephi::sync::Event\<close> between threads, \<^verbatim>\<open>sephi::ipc::Event\<close> between processes that share its
  memory, and \<^verbatim>\<open>sephi::ipc::NamedEvent\<close>. What an operation does while it holds the mutex is one
  step: \<open>ev_set\<close> is \<^verbatim>\<open>set\<close> (the new flag and whether it notifies), \<open>ev_enter\<close> the part of
  \<^verbatim>\<open>wait\<close> up to its return or its first wait on the condition (the new flag and whether it returns),
  \<open>ev_wakeup\<close> the part after the condition has woken the thread. A condition wakes one waiting
  thread per notification, if there is one, and may wake a thread without.

  \<open>ev_sets\<close> and \<open>ev_passes\<close> count the completed calls of \<^verbatim>\<open>set\<close> and \<^verbatim>\<open>wait\<close>. \<^verbatim>\<open>NamedEvent\<close> has no
  flag; its field is never read.
\<close>

section \<open>The three classes\<close>

record event_impl =
  ev_set :: "bool \<Rightarrow> bool \<times> bool"
  ev_enter :: "bool \<Rightarrow> bool \<times> bool"
  ev_wakeup :: "bool \<Rightarrow> bool \<times> bool"

text \<open>\<open>wait_until\<close> is one round of the predicate loop and, when it is over, the reset of the flag.\<close>

definition sync_set :: "bool \<Rightarrow> bool \<times> bool" where
  "sync_set flag = (let flag = True in (flag, True))"

definition sync_wait_until :: "bool \<Rightarrow> bool \<times> bool" where
  "sync_wait_until flag = (if flag then let flag = False in (flag, True) else (flag, False))"

definition sync_event :: event_impl where
  "sync_event = \<lparr>ev_set = sync_set, ev_enter = sync_wait_until, ev_wakeup = sync_wait_until\<rparr>"

definition ipc_set :: "bool \<Rightarrow> bool \<times> bool" where
  "ipc_set flag = (let flag = True in (flag, True))"

definition ipc_wait_until :: "bool \<Rightarrow> bool \<times> bool" where
  "ipc_wait_until flag = (if flag then let flag = False in (flag, True) else (flag, False))"

definition ipc_event :: event_impl where
  "ipc_event = \<lparr>ev_set = ipc_set, ev_enter = ipc_wait_until, ev_wakeup = ipc_wait_until\<rparr>"

definition named_set :: "bool \<Rightarrow> bool \<times> bool" where
  "named_set flag = (flag, True)"

definition named_wait_enter :: "bool \<Rightarrow> bool \<times> bool" where
  "named_wait_enter flag = (flag, False)"

definition named_wait_wakeup :: "bool \<Rightarrow> bool \<times> bool" where
  "named_wait_wakeup flag = (flag, True)"

definition named_event :: event_impl where
  "named_event = \<lparr>ev_set = named_set, ev_enter = named_wait_enter, ev_wakeup = named_wait_wakeup\<rparr>"

section \<open>Threads\<close>

datatype event_pc = Ev_idle | Ev_waiting | Ev_woken

record event_sys =
  ev_flag :: bool
  ev_pcs :: "event_pc list"
  ev_sets :: nat
  ev_passes :: nat

definition event_new :: "nat \<Rightarrow> event_sys" where
  "event_new k = \<lparr>ev_flag = False, ev_pcs = replicate k Ev_idle, ev_sets = 0, ev_passes = 0\<rparr>"

text \<open>A \<^verbatim>\<open>set\<close> that wakes thread \<open>j\<close>, or nobody.\<close>

definition after_set :: "event_impl \<Rightarrow> nat option \<Rightarrow> event_sys \<Rightarrow> event_sys" where
  "after_set impl w s =
     (let s = s\<lparr>ev_flag := fst (ev_set impl (ev_flag s)), ev_sets := Suc (ev_sets s)\<rparr>
      in case w of None \<Rightarrow> s | Some j \<Rightarrow> s\<lparr>ev_pcs := (ev_pcs s)[j := Ev_woken]\<rparr>)"

text \<open>A section of \<^verbatim>\<open>wait\<close> that ends with flag \<open>f\<close>, and returns or waits.\<close>

definition after_wait :: "nat \<Rightarrow> bool \<times> bool \<Rightarrow> event_sys \<Rightarrow> event_sys" where
  "after_wait i r s =
     (let (f, returns) = r
      in if returns
         then s\<lparr>ev_flag := f, ev_pcs := (ev_pcs s)[i := Ev_idle], ev_passes := Suc (ev_passes s)\<rparr>
         else s\<lparr>ev_flag := f, ev_pcs := (ev_pcs s)[i := Ev_waiting]\<rparr>)"

inductive event_step :: "event_impl \<Rightarrow> event_sys \<Rightarrow> event_sys \<Rightarrow> bool" for impl where
  set_wakes: "Ev_idle \<in> set (ev_pcs s) \<Longrightarrow> snd (ev_set impl (ev_flag s)) \<Longrightarrow>
     j < length (ev_pcs s) \<Longrightarrow> ev_pcs s ! j = Ev_waiting \<Longrightarrow> event_step impl s (after_set impl (Some j) s)"
| set_nobody: "Ev_idle \<in> set (ev_pcs s) \<Longrightarrow>
     snd (ev_set impl (ev_flag s)) \<longrightarrow> Ev_waiting \<notin> set (ev_pcs s) \<Longrightarrow>
     event_step impl s (after_set impl None s)"
| wait_call: "i < length (ev_pcs s) \<Longrightarrow> ev_pcs s ! i = Ev_idle \<Longrightarrow>
     event_step impl s (after_wait i (ev_enter impl (ev_flag s)) s)"
| wait_resume: "i < length (ev_pcs s) \<Longrightarrow> ev_pcs s ! i = Ev_woken \<Longrightarrow>
     event_step impl s (after_wait i (ev_wakeup impl (ev_flag s)) s)"
| spurious: "i < length (ev_pcs s) \<Longrightarrow> ev_pcs s ! i = Ev_waiting \<Longrightarrow>
     event_step impl s (s\<lparr>ev_pcs := (ev_pcs s)[i := Ev_woken]\<rparr>)"

abbreviation event_run :: "event_impl \<Rightarrow> event_sys \<Rightarrow> event_sys \<Rightarrow> bool" where
  "event_run impl \<equiv> (event_step impl)\<^sup>*\<^sup>*"

section \<open>Events with a flag\<close>

text \<open>
  The contract of an auto-reset event: \<^verbatim>\<open>set\<close> raises the flag and notifies; \<^verbatim>\<open>wait\<close> returns when it finds
  the flag raised and takes it down.
\<close>

locale flag_event =
  fixes impl :: event_impl
  assumes set_law: "ev_set impl f = (True, True)"
    and enter_law: "ev_enter impl f = (False, f)"
    and wakeup_law: "ev_wakeup impl f = (False, f)"
begin

definition event_inv :: "event_sys \<Rightarrow> bool" where
  "event_inv s \<longleftrightarrow>
     ev_passes s + of_bool (ev_flag s) \<le> ev_sets s \<and>
     (ev_flag s \<and> Ev_waiting \<in> set (ev_pcs s) \<longrightarrow> Ev_woken \<in> set (ev_pcs s))"

lemma after_wait_eq:
  "after_wait i (False, f) s =
     (if f then s\<lparr>ev_flag := False, ev_pcs := (ev_pcs s)[i := Ev_idle], ev_passes := Suc (ev_passes s)\<rparr>
      else s\<lparr>ev_flag := False, ev_pcs := (ev_pcs s)[i := Ev_waiting]\<rparr>)"
  by (simp add: after_wait_def)

lemma step_inv:
  assumes "event_step impl s t" and inv: "event_inv s"
  shows "event_inv t"
  using assms(1)
proof cases
  case (set_wakes j)
  then show ?thesis using inv
    by (auto simp: event_inv_def after_set_def set_law set_update_memI)
next
  case set_nobody
  then show ?thesis using inv by (auto simp: event_inv_def after_set_def set_law)
next
  case (wait_call i)
  then show ?thesis using inv by (auto simp: event_inv_def enter_law after_wait_eq)
next
  case (wait_resume i)
  then show ?thesis using inv by (auto simp: event_inv_def wakeup_law after_wait_eq)
next
  case (spurious i)
  then show ?thesis using inv by (auto simp: event_inv_def set_update_memI)
qed

lemma run_inv:
  assumes "event_run impl (event_new k) s"
  shows "event_inv s"
  using assms
proof (induction rule: rtranclp_induct)
  case base
  show ?case by (simp add: event_inv_def event_new_def)
next
  case (step s t)
  then show ?case by (blast intro: step_inv)
qed

text \<open>A raised flag with threads in \<^verbatim>\<open>wait\<close> is taken by one of them.\<close>

lemma flag_taken:
  assumes "event_run impl (event_new k) s" and "ev_flag s"
    and "Ev_waiting \<in> set (ev_pcs s) \<or> Ev_woken \<in> set (ev_pcs s)"
  shows "\<exists>t. event_step impl s t \<and> ev_passes t = Suc (ev_passes s) \<and> \<not> ev_flag t"
proof -
  have "Ev_woken \<in> set (ev_pcs s)" using run_inv [OF assms(1)] assms(2,3) by (auto simp: event_inv_def)
  then obtain i where i: "i < length (ev_pcs s)" "ev_pcs s ! i = Ev_woken" by (auto simp: in_set_conv_nth)
  show ?thesis
    using event_step.wait_resume [OF i, of impl] assms(2)
    by (intro exI [of _ "after_wait i (ev_wakeup impl (ev_flag s)) s"])
      (simp add: wakeup_law after_wait_eq)
qed

end

interpretation sync: flag_event sync_event
  by unfold_locales (simp_all add: sync_event_def sync_set_def sync_wait_until_def)

interpretation ipc: flag_event ipc_event
  by unfold_locales (simp_all add: ipc_event_def ipc_set_def ipc_wait_until_def)

section \<open>Properties\<close>

text \<open>The two events with a flag.\<close>

definition flag_events :: "event_impl list" where
  "flag_events = [sync_event, ipc_event]"

text \<open>A run for the witnesses: one thread waits, another sets the event.\<close>

lemma sync_demo_run:
  "\<exists>s. event_run sync_event (event_new 2) s \<and> ev_flag s \<and> Ev_woken \<in> set (ev_pcs s) \<and> ev_sets s = 1"
proof -
  let ?s0 = "event_new 2"
  let ?s1 = "after_wait 0 (ev_enter sync_event (ev_flag ?s0)) ?s0"
  let ?s2 = "after_set sync_event (Some 0) ?s1"
  have pcs: "ev_pcs ?s0 = [Ev_idle, Ev_idle]" by (simp add: event_new_def numeral_2_eq_2)
  have 1: "event_step sync_event ?s0 ?s1" by (rule event_step.wait_call) (simp_all add: pcs)
  have s1: "ev_pcs ?s1 = [Ev_waiting, Ev_idle]" "ev_flag ?s1 = False" "ev_sets ?s1 = 0"
    using pcs by (simp_all add: after_wait_def sync.enter_law event_new_def)
  have 2: "event_step sync_event ?s1 ?s2"
    by (rule event_step.set_wakes) (simp_all add: s1 sync.set_law)
  have "ev_flag ?s2 \<and> Ev_woken \<in> set (ev_pcs ?s2) \<and> ev_sets ?s2 = 1"
    by (simp add: after_set_def sync.set_law s1)
  moreover have "event_run sync_event ?s0 ?s2"
    by (rule rtranclp.rtrancl_into_rtrancl [OF r_into_rtranclp [of "event_step sync_event", OF 1] 2])
  ultimately show ?thesis by blast
qed

text \<open>C39: An event lets through at most one \<^verbatim>\<open>wait\<close> per \<^verbatim>\<open>set\<close>, for any number of threads and any
  spurious wake-ups: completed waits, plus one if the flag is up, are at most the completed sets. And no
  \<^verbatim>\<open>set\<close> is lost: when the flag is up and a thread is inside \<^verbatim>\<open>wait\<close>, some thread has been
  woken, and its next step returns from \<^verbatim>\<open>wait\<close> and takes the flag down.\<close>

theorem event_sets_and_passes:
  assumes "impl \<in> set flag_events" and "event_run impl (event_new k) s"
  shows "ev_passes s + of_bool (ev_flag s) \<le> ev_sets s \<and>
    (ev_flag s \<and> (Ev_waiting \<in> set (ev_pcs s) \<or> Ev_woken \<in> set (ev_pcs s)) \<longrightarrow>
      Ev_woken \<in> set (ev_pcs s) \<and>
      (\<exists>t. event_step impl s t \<and> ev_passes t = Suc (ev_passes s) \<and> \<not> ev_flag t))"
proof -
  consider "impl = sync_event" | "impl = ipc_event" using assms(1) by (auto simp: flag_events_def)
  then show ?thesis
  proof cases
    case 1
    with assms sync.run_inv [of k s] sync.flag_taken [of k s] show ?thesis
      by (auto simp: sync.event_inv_def)
  next
    case 2
    with assms ipc.run_inv [of k s] ipc.flag_taken [of k s] show ?thesis
      by (auto simp: ipc.event_inv_def)
  qed
qed

theorem event_sets_and_passes_witness:
  "\<exists>s t. event_run sync_event (event_new 2) s \<and> ev_sets s = 1 \<and> ev_flag s \<and>
     ev_passes s + of_bool (ev_flag s) \<le> ev_sets s \<and>
     event_step sync_event s t \<and> ev_passes t = Suc (ev_passes s)"
proof -
  have "sync_event \<in> set flag_events" by (simp add: flag_events_def)
  with sync_demo_run event_sets_and_passes [of sync_event 2] show ?thesis by blast
qed

text \<open>A \<^verbatim>\<open>wait\<close> on a \<^verbatim>\<open>NamedEvent\<close> that nobody sets.\<close>

lemma named_event_spurious_pass:
  "\<exists>s. event_run named_event (event_new 1) s \<and> ev_sets s = 0 \<and> ev_passes s = 1"
proof -
  define s1 where "s1 = after_wait 0 (ev_enter named_event (ev_flag (event_new 1))) (event_new 1)"
  define s2 where "s2 = s1\<lparr>ev_pcs := (ev_pcs s1)[0 := Ev_woken]\<rparr>"
  define s3 where "s3 = after_wait 0 (ev_wakeup named_event (ev_flag s2)) s2"
  note defs = event_new_def after_wait_def named_event_def named_wait_enter_def named_wait_wakeup_def
  have 1: "event_step named_event (event_new 1) s1"
    unfolding s1_def by (rule event_step.wait_call) (simp_all add: event_new_def)
  have 2: "event_step named_event s1 s2"
    unfolding s2_def by (rule event_step.spurious) (simp_all add: s1_def defs)
  have 3: "event_step named_event s2 s3"
    unfolding s3_def by (rule event_step.wait_resume) (simp_all add: s2_def s1_def defs)
  have "event_run named_event (event_new 1) s3" using 1 2 3 by (meson rtranclp.rtrancl_into_rtrancl rtranclp.rtrancl_refl)
  moreover have "ev_sets s3 = 0 \<and> ev_passes s3 = 1" by (simp add: s3_def s2_def s1_def defs)
  ultimately show ?thesis by blast
qed

text \<open>C40: A \<^verbatim>\<open>NamedEvent\<close> loses a \<^verbatim>\<open>set\<close> that comes before the \<^verbatim>\<open>wait\<close>: with nobody waiting it has no
  effect at all, and a thread that then calls \<^verbatim>\<open>wait\<close> waits. And a \<^verbatim>\<open>wait\<close> can return without any \<^verbatim>\<open>set\<close>,
  on a spurious wake-up.\<close>

theorem named_event_set_lost:
  assumes "Ev_waiting \<notin> set (ev_pcs s)" and "i < length (ev_pcs s)" and "ev_pcs s ! i = Ev_idle"
  shows "(\<exists>t u. event_step named_event s t \<and> t = s\<lparr>ev_sets := Suc (ev_sets s)\<rparr> \<and>
    event_step named_event t u \<and> ev_pcs u ! i = Ev_waiting \<and> ev_passes u = ev_passes s) \<and>
    (\<exists>s. event_run named_event (event_new 1) s \<and> ev_sets s = 0 \<and> ev_passes s = 1)"
proof (rule conjI [OF _ named_event_spurious_pass])
  let ?t = "s\<lparr>ev_sets := Suc (ev_sets s)\<rparr>"
  have idle: "Ev_idle \<in> set (ev_pcs s)" using assms(2,3) by (metis nth_mem)
  have "after_set named_event None s = ?t"
    by (simp add: after_set_def named_event_def named_set_def)
  then have 1: "event_step named_event s ?t"
    using event_step.set_nobody [OF idle, of named_event] assms(1) by simp
  have 2: "event_step named_event ?t (after_wait i (ev_enter named_event (ev_flag ?t)) ?t)"
    by (rule event_step.wait_call) (simp_all add: assms)
  show "\<exists>t u. event_step named_event s t \<and> t = s\<lparr>ev_sets := Suc (ev_sets s)\<rparr> \<and>
    event_step named_event t u \<and> ev_pcs u ! i = Ev_waiting \<and> ev_passes u = ev_passes s"
    by (rule exI, rule exI, rule conjI [OF 1], rule conjI [OF refl], rule conjI [OF 2])
      (simp add: assms after_wait_def named_event_def named_wait_enter_def)
qed

theorem named_event_set_lost_witness:
  "\<exists>t u. event_step named_event (event_new 1) t \<and> ev_sets t = 1 \<and> event_step named_event t u \<and>
     ev_pcs u ! 0 = Ev_waiting \<and> ev_passes u = 0"
  using named_event_set_lost [of "event_new 1" 0] by (auto simp: event_new_def)

end
