(* ===== verification/Util_Random.thy ===== *)
theory Util_Random
  imports Sephi_Prelude
begin

text \<open>
  \<^verbatim>\<open>sephi::util::random_string\<close> (\<^verbatim>\<open>src/util/random_string.cpp\<close>). The generator is not safe for several threads,
  so each thread has one of its own (\<^verbatim>\<open>thread_local\<close>), built when the thread first calls the function.
  Boost's generator and its \<^verbatim>\<open>to_string\<close> are parameters: \<open>seed t\<close> is the generator that thread \<open>t\<close> builds, \<open>gen\<close> its
  call operator.
\<close>

record ('g, 'u) uuid_api =
  uuid_seed :: "nat \<Rightarrow> 'g"
  uuid_gen :: "'g \<Rightarrow> 'u \<times> 'g"
  uuid_to_string :: "'u \<Rightarrow> string"

type_synonym 'g generators = "nat \<Rightarrow> 'g option"

definition random_string :: "('g, 'u) uuid_api \<Rightarrow> nat \<Rightarrow> 'g generators \<Rightarrow> string \<times> 'g generators" where
  "random_string api t gs =
     (let s_generator = (case gs t of Some g \<Rightarrow> g | None \<Rightarrow> uuid_seed api t);
          (u, g) = uuid_gen api s_generator
      in (uuid_to_string api u, gs(t \<mapsto> g)))"

text \<open>The calls of several threads in the order they are made, with the thread of each.\<close>

fun random_strings :: "('g, 'u) uuid_api \<Rightarrow> nat list \<Rightarrow> 'g generators \<Rightarrow> (nat \<times> string) list" where
  "random_strings api [] gs = []"
| "random_strings api (t # ts) gs =
     (let (s, gs') = random_string api t gs in (t, s) # random_strings api ts gs')"

text \<open>
  The threads do not disturb each other: what a thread gets is what it would get if it were the
  only one.
\<close>

lemma random_strings_only: "gs t = gs' t \<Longrightarrow>
   filter (\<lambda>r. fst r = t) (random_strings api ts gs) = random_strings api (filter (\<lambda>u. u = t) ts) gs'"
proof (induction ts arbitrary: gs gs')
  case (Cons u ts)
  obtain s gs1 where r: "random_string api u gs = (s, gs1)" by fastforce
  show ?case
  proof (cases "u = t")
    case True
    obtain s' gs1' where r': "random_string api u gs' = (s', gs1')" by fastforce
    have "s = s'" "gs1 t = gs1' t"
      using r r' Cons.prems True by (auto simp: random_string_def Let_def split: prod.splits)
    with True r r' Cons.IH [of gs1 gs1'] show ?thesis by simp
  next
    case False
    then have "gs1 t = gs' t"
      using r Cons.prems by (auto simp: random_string_def Let_def split: prod.splits)
    with False r Cons.IH [of gs1 gs'] show ?thesis by simp
  qed
qed simp

end
