(* ===== verification/Net_Base.thy ===== *)
theory Net_Base
  imports Sephi_Prelude
begin

text \<open>
  What the network classes share (\<^verbatim>\<open>include/sephi/net/types\<close>), and how Asio appears in the
  models. An \<^verbatim>\<open>io_context\<close> is run by one thread, so handlers do not overlap and each is
  one step. Tasks given to \<^verbatim>\<open>post\<close> run in the order they were posted. An asynchronous operation is
  outstanding from the call that starts it until its handler runs; when that happens, and with
  which error code, is the environment's choice, as are the bytes that are read. A handler runs at most
  once per operation.

  User callbacks are arbitrary lists of calls of the public operations, chosen by the
  environment each time the callback is invoked.

  The locale \<open>async_writer\<close> is the contract of the send queue that \<^verbatim>\<open>Client\<close>, \<^verbatim>\<open>Session\<close>
  and \<^verbatim>\<open>Serial\<close> have in common: one write outstanding at a time, for the message at the front.
\<close>

section \<open>Types\<close>

type_synonym chunk = bytes

type_synonym error_code = int

definition max_buffer_size :: nat where
  "max_buffer_size = 4096"

datatype conn_state = disconnected | connected

record remote =
  address :: string
  port :: u16

definition remote_new :: "string \<Rightarrow> u16 \<Rightarrow> remote" where
  "remote_new a p = \<lparr>address = a, port = p\<rparr>"

definition remote_set_address :: "string \<Rightarrow> remote \<Rightarrow> remote" where
  "remote_set_address a r = r\<lparr>address := a\<rparr>"

definition remote_set_port :: "u16 \<Rightarrow> remote \<Rightarrow> remote" where
  "remote_set_port p r = r\<lparr>port := p\<rparr>"

text \<open>\<^verbatim>\<open>operator+\<close> of \<^verbatim>\<open>chunk.cpp\<close>; the \<^verbatim>\<open>operator+=\<close> it calls is not in the repository.\<close>

definition chunk_plus :: "(chunk \<Rightarrow> chunk \<Rightarrow> chunk) \<Rightarrow> chunk \<Rightarrow> chunk \<Rightarrow> chunk" where
  "chunk_plus plus_assign lhs rhs = (let sum = lhs in plus_assign sum rhs)"

text \<open>
  Outstanding operations, with the number of the socket or port object they were started on;
  a write carries the bytes of the buffer it was given.
\<close>

datatype net_op = Connect_op nat | Read_op nat | Write_op nat chunk

fun written_chunks :: "net_op list \<Rightarrow> chunk list" where
  "written_chunks [] = []"
| "written_chunks (Write_op s m # ops) = m # written_chunks ops"
| "written_chunks (_ # ops) = written_chunks ops"

lemma written_chunks_append [simp]: "written_chunks (xs @ ys) = written_chunks xs @ written_chunks ys"
  by (induction xs rule: written_chunks.induct) simp_all

text \<open>Taking the operation at position \<open>i\<close> out of the outstanding ones.\<close>

definition without_nth :: "nat \<Rightarrow> 'a list \<Rightarrow> 'a list" where
  "without_nth i xs = take i xs @ drop (Suc i) xs"

lemma without_nth_split:
  "i < length xs \<Longrightarrow> \<exists>as bs. xs = as @ xs ! i # bs \<and> without_nth i xs = as @ bs"
  by (metis id_take_nth_drop without_nth_def)

lemma without_nth_map: "without_nth i (map f xs) = map f (without_nth i xs)"
  by (simp add: without_nth_def take_map drop_map)

lemma count_without_nth:
  assumes "i < length xs"
  shows "count_list (without_nth i xs) x = count_list xs x - (if xs ! i = x then 1 else 0)"
proof -
  obtain as bs where split: "xs = as @ xs ! i # bs" "without_nth i xs = as @ bs"
    using without_nth_split [OF assms] by blast
  have "count_list xs x = count_list as x + count_list (xs ! i # bs) x"
    by (subst split(1)) (rule count_list_append)
  with split(2) show ?thesis by simp
qed

lemma written_without:
  assumes "i < length ops"
  shows "\<not> (\<exists>s m. ops ! i = Write_op s m) \<Longrightarrow> written_chunks (without_nth i ops) = written_chunks ops"
    and "ops ! i = Write_op s m \<Longrightarrow> \<exists>as bs. written_chunks ops = as @ m # bs \<and>
      written_chunks (without_nth i ops) = as @ bs"
proof -
  obtain as bs where split: "ops = as @ ops ! i # bs" "without_nth i ops = as @ bs"
    using without_nth_split [OF assms] by blast
  have eq: "written_chunks ops = written_chunks as @ written_chunks [ops ! i] @ written_chunks bs"
    by (subst split(1)) (metis append_Cons append_Nil written_chunks_append)
  show "written_chunks (without_nth i ops) = written_chunks ops" if "\<not> (\<exists>s m. ops ! i = Write_op s m)"
    unfolding eq split(2) using that by (cases "ops ! i") simp_all
  show "\<exists>as bs. written_chunks ops = as @ m # bs \<and> written_chunks (without_nth i ops) = as @ bs"
    if "ops ! i = Write_op s m"
    unfolding eq split(2) using that by force
qed

text \<open>The only outstanding write is that of the message at the front of \<open>q\<close>.\<close>

lemma write_op_front:
  assumes "written_chunks ops = [] \<or> written_chunks ops = take 1 q"
    and "i < length ops" and "ops ! i = Write_op s m"
  shows "written_chunks (without_nth i ops) = []" and "\<exists>q'. q = m # q'"
proof -
  obtain as bs where w: "written_chunks ops = as @ m # bs" "written_chunks (without_nth i ops) = as @ bs"
    using written_without(2) [OF assms(2,3)] by blast
  with assms(1) obtain x q' where q: "q = x # q'" "as @ m # bs = [x]" by (cases q) auto
  then show "\<exists>q'. q = m # q'" "written_chunks (without_nth i ops) = []"
    using w by (auto simp: append_eq_Cons_conv)
qed

text \<open>The first outstanding write, with the operations before and after it.\<close>

fun is_write :: "net_op \<Rightarrow> bool" where
  "is_write (Write_op _ _) = True" | "is_write _ = False"

lemma written_Nil_iff: "written_chunks ops = [] \<longleftrightarrow> (\<forall>op \<in> set ops. \<not> is_write op)"
  by (induction ops rule: written_chunks.induct) simp_all

lemma extract_write:
  assumes "written_chunks ops = m # ms"
  shows "\<exists>as s bs. List.extract is_write ops = Some (as, Write_op s m, bs) \<and>
    written_chunks (as @ bs) = ms \<and> length as < length ops \<and> ops ! length as = Write_op s m \<and>
    without_nth (length as) ops = as @ bs"
proof -
  obtain as op bs where e: "List.extract is_write ops = Some (as, op, bs)"
    using assms written_Nil_iff [of ops] by (cases "List.extract is_write ops") (auto simp: extract_None_iff)
  then have ops: "ops = as @ op # bs" and op: "is_write op" and as: "\<forall>y \<in> set as. \<not> is_write y"
    by (simp_all add: extract_Some_iff)
  from op obtain s m' where "op = Write_op s m'" by (cases op) auto
  moreover have "written_chunks as = []" using as by (simp add: written_Nil_iff)
  ultimately show ?thesis using e assms ops by (auto simp: without_nth_def)
qed

section \<open>The send queue\<close>

text \<open>
  \<open>queue\<close> is \<^verbatim>\<open>sending_messages_\<close>, \<open>inflight\<close> the messages of outstanding writes, \<open>sent\<close> what
  has been written successfully. \<open>add\<close> is what a call of \<^verbatim>\<open>write\<close> does on the queue, \<open>complete\<close>
  the successful end of an outstanding write.
\<close>

locale async_writer =
  fixes queue :: "'s \<Rightarrow> chunk list" and inflight :: "'s \<Rightarrow> chunk list" and sent :: "'s \<Rightarrow> chunk list"
    and add :: "chunk \<Rightarrow> 's \<Rightarrow> 's option" and complete :: "'s \<Rightarrow> 's option"
  assumes add_idle: "queue s = [] \<Longrightarrow> \<exists>s'. add m s = Some s' \<and> queue s' = [m] \<and>
      inflight s' = inflight s @ [m] \<and> sent s' = sent s"
    and add_busy: "queue s \<noteq> [] \<Longrightarrow> \<exists>s'. add m s = Some s' \<and> queue s' = queue s @ [m] \<and>
      inflight s' = inflight s \<and> sent s' = sent s"
    and complete_law: "queue s = m # q \<Longrightarrow> inflight s = [m] \<Longrightarrow>
      \<exists>s'. complete s = Some s' \<and> queue s' = q \<and> inflight s' = take 1 q \<and> sent s' = sent s @ [m]"
begin

definition settled :: "'s \<Rightarrow> bool" where
  "settled s \<longleftrightarrow> inflight s = take 1 (queue s)"

text \<open>Messages queued with no write outstanding: nobody will ever send them.\<close>

definition stuck :: "'s \<Rightarrow> bool" where
  "stuck s \<longleftrightarrow> queue s \<noteq> [] \<and> inflight s = []"

fun add_all :: "chunk list \<Rightarrow> 's \<Rightarrow> 's option" where
  "add_all [] s = Some s"
| "add_all (m # ms) s = do { s' \<leftarrow> add m s; add_all ms s' }"

fun complete_all :: "nat \<Rightarrow> 's \<Rightarrow> 's option" where
  "complete_all 0 s = Some s"
| "complete_all (Suc n) s = do { s' \<leftarrow> complete s; complete_all n s' }"

lemma add_total:
  "\<exists>s'. add m s = Some s' \<and> queue s' = queue s @ [m] \<and> sent s' = sent s \<and>
     inflight s' = (if queue s = [] then inflight s @ [m] else inflight s)"
  using add_idle [of s m] add_busy [of s m] by (cases "queue s = []") auto

lemma add_settled: "settled s \<Longrightarrow> add m s = Some s' \<Longrightarrow> settled s'"
  using add_total [of m s] by (cases "queue s") (auto simp: settled_def split: if_splits)

lemma add_stuck: "stuck s \<Longrightarrow> add m s = Some s' \<Longrightarrow> stuck s' \<and> sent s' = sent s"
  using add_total [of m s] by (auto simp: stuck_def)

lemma add_all_total:
  "settled s \<Longrightarrow> \<exists>s'. add_all ms s = Some s' \<and> queue s' = queue s @ ms \<and> sent s' = sent s \<and> settled s'"
proof (induction ms arbitrary: s)
  case (Cons m ms)
  obtain s1 where s1: "add m s = Some s1" "queue s1 = queue s @ [m]" "sent s1 = sent s"
    using add_total [of m s] by blast
  with Cons.IH [OF add_settled [OF Cons.prems s1(1)]] show ?case by auto
qed simp

lemma complete_settled:
  assumes "settled s" and "queue s = m # q"
  shows "\<exists>s'. complete s = Some s' \<and> queue s' = q \<and> sent s' = sent s @ [m] \<and> settled s'"
  using complete_law [OF assms(2)] assms by (auto simp: settled_def)

text \<open>Every queued message is sent, in order, once the writes complete.\<close>

lemma drain:
  "settled s \<Longrightarrow> \<exists>s'. complete_all (length (queue s)) s = Some s' \<and> queue s' = [] \<and>
     sent s' = sent s @ queue s \<and> settled s'"
proof (induction "queue s" arbitrary: s)
  case (Cons m q)
  obtain s1 where s1: "complete s = Some s1" "queue s1 = q" "sent s1 = sent s @ [m]" "settled s1"
    using complete_settled [OF Cons.prems Cons.hyps(2) [symmetric]] by blast
  with Cons.hyps(1) [of s1] show ?case by (auto simp flip: Cons.hyps(2))
qed simp

lemma send_all:
  assumes "settled s" and "queue s = []"
  shows "\<exists>s1 s2. add_all ms s = Some s1 \<and> complete_all (length ms) s1 = Some s2 \<and>
    queue s2 = [] \<and> sent s2 = sent s @ ms"
  using add_all_total [OF assms(1), of ms] drain assms(2) by fastforce

end

section \<open>The abstract sender\<close>

text \<open>
  What a class that posts its writes does to its send queue, in the abstract: \<open>aw_accepted\<close> are the
  chunks the user was promised, \<open>aw_backlog\<close> those posted and not yet queued. \<open>accept\<close> is a call, or
  anything else that leaves the queue alone; \<open>enqueue\<close> a posted task; \<open>written\<close> and \<open>failed\<close> are the two ends of an
  outstanding write.
\<close>

record writer =
  aw_queue :: "chunk list"
  aw_inflight :: "chunk list"
  aw_sent :: "chunk list"
  aw_accepted :: "chunk list"
  aw_backlog :: "chunk list"

inductive writer_effect :: "writer \<Rightarrow> writer \<Rightarrow> bool" where
  accept: "writer_effect w (w\<lparr>aw_accepted := aw_accepted w @ ms, aw_backlog := aw_backlog w @ ms\<rparr>)"
| enqueue: "aw_backlog w = m # ms \<Longrightarrow>
     writer_effect w (w\<lparr>aw_backlog := ms, aw_queue := aw_queue w @ [m],
       aw_inflight := aw_inflight w @ (if aw_queue w = [] then [m] else [])\<rparr>)"
| written: "aw_inflight w = as @ m # bs \<Longrightarrow> aw_queue w = x # q \<Longrightarrow>
     writer_effect w (w\<lparr>aw_queue := q, aw_inflight := as @ bs @ take 1 q, aw_sent := aw_sent w @ [m]\<rparr>)"
| failed: "aw_inflight w = as @ m # bs \<Longrightarrow>
     writer_effect w (w\<lparr>aw_inflight := as @ bs, aw_accepted := aw_accepted w @ ms,
       aw_backlog := aw_backlog w @ ms\<rparr>)"

inductive_cases writer_effectE: "writer_effect w w'"

text \<open>One write at most, that of the first message; nothing lost, repeated or overtaken.\<close>

definition writer_inv :: "writer \<Rightarrow> bool" where
  "writer_inv w \<longleftrightarrow>
     (aw_inflight w = [] \<or> aw_inflight w = take 1 (aw_queue w)) \<and>
     aw_accepted w = aw_sent w @ aw_queue w @ aw_backlog w"

definition writer_stuck :: "writer \<Rightarrow> bool" where
  "writer_stuck w \<longleftrightarrow> aw_queue w \<noteq> [] \<and> aw_inflight w = []"

lemma writer_effect_inv:
  assumes "writer_effect w w'" and "writer_inv w"
  shows "writer_inv w'"
  using assms(1)
proof cases
  case (accept ms)
  then show ?thesis using assms(2) by (auto simp: writer_inv_def)
next
  case (enqueue m ms)
  then show ?thesis using assms(2) by (cases "aw_queue w") (auto simp: writer_inv_def)
next
  case (written as m bs x q)
  then have "as = []" "bs = []" "x = m"
    using assms(2) by (auto simp: writer_inv_def append_eq_Cons_conv)
  with written assms(2) show ?thesis by (auto simp: writer_inv_def)
next
  case (failed as m bs ms)
  then have "as = []" "bs = []"
    using assms(2) by (cases "aw_queue w"; auto simp: writer_inv_def append_eq_Cons_conv)+
  with failed assms(2) show ?thesis by (auto simp: writer_inv_def)
qed

lemma writer_effect_stuck:
  "writer_effect w w' \<Longrightarrow> writer_stuck w \<Longrightarrow> writer_stuck w' \<and> aw_sent w' = aw_sent w"
  by (auto simp: writer_stuck_def elim!: writer_effectE)

text \<open>
  The contract of a class that posts its writes: its send queue is an \<open>async_writer\<close> and its steps
  are those of the abstract sender. \<open>up\<close> is that a write can succeed: while it holds, the successful end
  of the outstanding write is a step, and so is the first of the tasks that are \<open>posted\<close>.
\<close>

locale posting_writer = async_writer queue inflight sent add complete
  for queue :: "'s \<Rightarrow> chunk list" and inflight :: "'s \<Rightarrow> chunk list" and sent :: "'s \<Rightarrow> chunk list"
    and add :: "chunk \<Rightarrow> 's \<Rightarrow> 's option" and complete :: "'s \<Rightarrow> 's option" +
  fixes accepted :: "'s \<Rightarrow> chunk list" and backlog :: "'s \<Rightarrow> chunk list" and step :: "'s \<Rightarrow> 's \<Rightarrow> bool"
    and up :: "'s \<Rightarrow> bool" and posted :: "'s \<Rightarrow> 't list"
  assumes step_effect: "step s t \<Longrightarrow> writer_effect
      \<lparr>aw_queue = queue s, aw_inflight = inflight s, aw_sent = sent s, aw_accepted = accepted s, aw_backlog = backlog s\<rparr>
      \<lparr>aw_queue = queue t, aw_inflight = inflight t, aw_sent = sent t, aw_accepted = accepted t, aw_backlog = backlog t\<rparr>"
    and complete_step: "up s \<Longrightarrow> complete s = Some t \<Longrightarrow> step s t \<and> up t \<and> accepted t = accepted s \<and>
      backlog t = backlog s"
    and posted_step: "up s \<Longrightarrow> posted s = p # ps \<Longrightarrow>
      \<exists>m t s'. add m s' = Some t \<and> queue s' = queue s \<and> inflight s' = inflight s \<and>
        step s t \<and> up t \<and> accepted t = accepted s \<and> posted t = ps"
    and nothing_posted: "posted s = [] \<Longrightarrow> backlog s = []"
begin

definition view :: "'s \<Rightarrow> writer" where
  "view s = \<lparr>aw_queue = queue s, aw_inflight = inflight s, aw_sent = sent s, aw_accepted = accepted s,
     aw_backlog = backlog s\<rparr>"

definition sender_inv :: "'s \<Rightarrow> bool" where
  "sender_inv s \<longleftrightarrow>
     (inflight s = [] \<or> inflight s = take 1 (queue s)) \<and> accepted s = sent s @ queue s @ backlog s"

lemma sender_inv_view: "sender_inv s = writer_inv (view s)"
  by (simp add: sender_inv_def writer_inv_def view_def)

lemma step_inv: "step s t \<Longrightarrow> sender_inv s \<Longrightarrow> sender_inv t"
  using writer_effect_inv step_effect unfolding sender_inv_view view_def by blast

lemma run_inv: "step\<^sup>*\<^sup>* s t \<Longrightarrow> sender_inv s \<Longrightarrow> sender_inv t"
  by (induction rule: rtranclp_induct) (auto intro: step_inv)

lemma step_stuck: "step s t \<Longrightarrow> stuck s \<Longrightarrow> stuck t \<and> sent t = sent s"
  using writer_effect_stuck [OF step_effect, of s t] by (simp add: stuck_def writer_stuck_def)

lemma run_stuck: "step\<^sup>*\<^sup>* s t \<Longrightarrow> stuck s \<Longrightarrow> stuck t \<and> sent t = sent s"
  by (induction rule: rtranclp_induct) (auto dest: step_stuck)

lemma settled_or_stuck: "sender_inv s \<Longrightarrow> settled s \<or> stuck s"
  by (cases "queue s") (auto simp: sender_inv_def settled_def stuck_def)

text \<open>
  A step from a state that is up to one that is up. Writes that end successfully in such steps are writes on a
  connection that is open.
\<close>

definition up_step :: "'s \<Rightarrow> 's \<Rightarrow> bool" where
  "up_step s t \<longleftrightarrow> step s t \<and> up s \<and> up t"

lemma up_run: "up_step\<^sup>*\<^sup>* s t \<Longrightarrow> step\<^sup>*\<^sup>* s t"
  by (induction rule: rtranclp_induct) (auto simp: up_step_def intro: rtranclp.rtrancl_into_rtrancl)

lemma complete_all_run:
  "complete_all n s = Some t \<Longrightarrow> up s \<Longrightarrow>
   up_step\<^sup>*\<^sup>* s t \<and> up t \<and> accepted t = accepted s \<and> backlog t = backlog s"
proof (induction n arbitrary: s)
  case (Suc n)
  then obtain s1 where s1: "complete s = Some s1" "complete_all n s1 = Some t"
    by (auto split: bind_splits)
  from complete_step [OF Suc.prems(2) s1(1)] Suc.IH [OF s1(2)] Suc.prems(2) show ?case
    by (auto simp: up_step_def intro: converse_rtranclp_into_rtranclp)
qed simp

lemma posted_run:
  "settled s \<Longrightarrow> up s \<Longrightarrow>
   \<exists>t. up_step\<^sup>*\<^sup>* s t \<and> up t \<and> settled t \<and> accepted t = accepted s \<and> posted t = []"
proof (induction "posted s" arbitrary: s)
  case Nil
  then show ?case by (intro exI [of _ s]) simp
next
  case (Cons p ps)
  obtain m t s' where t: "add m s' = Some t" "queue s' = queue s" "inflight s' = inflight s"
      "step s t" "up t" "accepted t = accepted s" "posted t = ps"
    using posted_step [OF Cons.prems(2) Cons.hyps(2) [symmetric]] by blast
  have "settled s'" using Cons.prems(1) t(2,3) by (simp add: settled_def)
  then have "settled t" using t(1) by (rule add_settled)
  with Cons.hyps(1) [of t] t(5,7) obtain u where "up_step\<^sup>*\<^sup>* t u" "up u" "settled u"
      "accepted u = accepted t" "posted u = []"
    by auto
  moreover have "up_step s t" using t(4,5) Cons.prems(2) by (simp add: up_step_def)
  ultimately show ?case using t(6) by (metis converse_rtranclp_into_rtranclp)
qed

text \<open>While it is up and no write has failed, everything accepted can be sent.\<close>

lemma send_all_run:
  assumes "sender_inv s" and "settled s" and "up s"
  shows "\<exists>t. up_step\<^sup>*\<^sup>* s t \<and> queue t = [] \<and> sent t = accepted s \<and> accepted t = accepted s"
proof -
  obtain u where u: "up_step\<^sup>*\<^sup>* s u" "up u" "settled u" "accepted u = accepted s" "posted u = []"
    using posted_run [OF assms(2,3)] by blast
  obtain t where t: "complete_all (length (queue u)) u = Some t" "queue t = []"
    using drain [OF u(3)] by blast
  from complete_all_run [OF t(1) u(2)] u(1,4) have run: "up_step\<^sup>*\<^sup>* s t"
    and acc: "accepted t = accepted s" "backlog t = backlog u"
    by auto
  have "sender_inv t" by (rule run_inv [OF up_run [OF run] assms(1)])
  with run acc t(2) nothing_posted [OF u(5)] show ?thesis by (auto simp: sender_inv_def)
qed

text \<open>A write that fails leaves its message at the front of the queue and no write outstanding.\<close>

lemma failed_stuck:
  assumes "sender_inv s" and "inflight s \<noteq> []" and "queue t = queue s" and "inflight t = []"
  shows "stuck t"
  using assms by (cases "queue s") (auto simp: sender_inv_def stuck_def)

end

end
