(* ===== verification/Tcp_Client.thy ===== *)
theory Tcp_Client
  imports Net_Base
begin

text \<open>
  The TCP client (\<^verbatim>\<open>src/net/tcp/client/client.cpp\<close>). \<open>client\<close> is the object: the flag
  \<^verbatim>\<open>connection_state_\<close>, the tasks posted to its \<^verbatim>\<open>io_context_\<close>, the outstanding operations, the
  number of the current socket object, the receive buffer and the queue \<^verbatim>\<open>sending_messages_\<close>.
  The last six fields are the history of what the user and the network have seen: the
  chunks \<^verbatim>\<open>write\<close> accepted, the connection reports, the packets delivered, the chunks completely
  written with their socket, the sockets closed or shut down, and those that were connected successfully.

  \<open>None\<close> is undefined behaviour (\<^verbatim>\<open>front\<close> or \<^verbatim>\<open>pop_front\<close> of an empty queue).
\<close>

section \<open>State\<close>

datatype client_task = Shutdown_task | Write_task chunk

record client =
  c_state :: conn_state
  c_posted :: "client_task list"
  c_pending :: "net_op list"
  c_socket :: nat
  c_endpoint :: "string \<times> u16"
  c_received :: bytes
  c_sending :: "chunk list"
  c_accepted :: "chunk list"
  c_reported :: "(conn_state \<times> error_code) list"
  c_packets :: "chunk list"
  c_wire :: "(nat \<times> chunk) list"
  c_closed :: "nat list"
  c_connects :: "nat list"

datatype client_api = Call_write chunk | Call_close | Call_reconnect

section \<open>Public operations\<close>

definition client_is_connected :: "client \<Rightarrow> bool" where
  "client_is_connected c \<longleftrightarrow> connected = c_state c"

definition client_are_all_messages_sent :: "client \<Rightarrow> bool" where
  "client_are_all_messages_sent c \<longleftrightarrow> c_sending c = []"

definition client_do_connect :: "client \<Rightarrow> client" where
  "client_do_connect c =
     c\<lparr>c_state := disconnected, c_socket := Suc (c_socket c),
       c_pending := c_pending c @ [Connect_op (Suc (c_socket c))]\<rparr>"

text \<open>
  The constructor: \<open>make_address\<close> is Asio's parser, \<open>None\<close> its exception.
\<close>

definition client_new :: "(string \<Rightarrow> string option) \<Rightarrow> remote \<Rightarrow> client option" where
  "client_new make_address r =
     do {
       a \<leftarrow> make_address (address r);
       Some (client_do_connect
         \<lparr>c_state = disconnected, c_posted = [], c_pending = [], c_socket = 0,
          c_endpoint = (a, port r), c_received = replicate max_buffer_size 0, c_sending = [],
          c_accepted = [], c_reported = [], c_packets = [], c_wire = [], c_closed = [], c_connects = []\<rparr>)
     }"

definition client_reconnect :: "client \<Rightarrow> client" where
  "client_reconnect c = client_do_connect (c\<lparr>c_closed := c_closed c @ [c_socket c]\<rparr>)"

definition client_close :: "client \<Rightarrow> client" where
  "client_close c =
     (if client_is_connected c
      then c\<lparr>c_state := disconnected, c_posted := c_posted c @ [Shutdown_task]\<rparr>
      else c)"

definition client_write :: "chunk \<Rightarrow> client \<Rightarrow> client \<times> bool" where
  "client_write chunk c =
     (if \<not> client_is_connected c then (c, False)
      else (c\<lparr>c_posted := c_posted c @ [Write_task chunk], c_accepted := c_accepted c @ [chunk]\<rparr>, True))"

text \<open>The destructor: after \<^verbatim>\<open>io_context_.stop()\<close> no task and no handler runs any more.\<close>

definition client_destroy :: "client \<Rightarrow> client" where
  "client_destroy c = (client_close c)\<lparr>c_posted := [], c_pending := []\<rparr>"

fun client_call :: "client_api \<Rightarrow> client \<Rightarrow> client" where
  "client_call (Call_write m) c = fst (client_write m c)"
| "client_call Call_close c = client_close c"
| "client_call Call_reconnect c = client_reconnect c"

section \<open>Handlers\<close>

text \<open>The user's callback makes the calls \<open>cb\<close>.\<close>

definition client_calls :: "client_api list \<Rightarrow> client \<Rightarrow> client" where
  "client_calls cb c = fold client_call cb c"

definition client_call_back_connection_handler ::
  "client_api list \<Rightarrow> conn_state \<Rightarrow> error_code \<Rightarrow> client \<Rightarrow> client" where
  "client_call_back_connection_handler cb state ec c =
     client_calls cb (c\<lparr>c_state := state, c_reported := c_reported c @ [(state, ec)]\<rparr>)"

definition client_do_read :: "client \<Rightarrow> client" where
  "client_do_read c = c\<lparr>c_pending := c_pending c @ [Read_op (c_socket c)]\<rparr>"

definition client_handle_connect :: "client_api list \<Rightarrow> error_code \<Rightarrow> client \<Rightarrow> client" where
  "client_handle_connect cb ec c =
     (if ec \<noteq> 0 then client_call_back_connection_handler cb disconnected ec c
      else client_do_read (client_call_back_connection_handler cb connected ec c))"

text \<open>The bytes that arrived are in the receive buffer when the handler runs.\<close>

definition client_handle_read :: "client_api list \<Rightarrow> error_code \<Rightarrow> nat \<Rightarrow> client \<Rightarrow> client" where
  "client_handle_read cb ec sz c =
     (if ec \<noteq> 0 then client_call_back_connection_handler cb disconnected ec c
      else client_do_read (client_calls cb
             (c\<lparr>c_packets := c_packets c @ [take sz (c_received c)]\<rparr>)))"

definition client_do_write :: "client \<Rightarrow> client option" where
  "client_do_write c =
     (case c_sending c of
        [] \<Rightarrow> None
      | message # _ \<Rightarrow> Some (c\<lparr>c_pending := c_pending c @ [Write_op (c_socket c) message]\<rparr>))"

definition client_handle_write :: "client_api list \<Rightarrow> error_code \<Rightarrow> client \<Rightarrow> client option" where
  "client_handle_write cb ec c =
     (if ec \<noteq> 0 then Some (client_call_back_connection_handler cb disconnected ec c)
      else case c_sending c of
        [] \<Rightarrow> None
      | _ # q \<Rightarrow>
          let c = c\<lparr>c_sending := q\<rparr>
          in if q \<noteq> [] then client_do_write c else Some c)"

text \<open>The task that \<^verbatim>\<open>write\<close> posts.\<close>

definition client_write_task :: "chunk \<Rightarrow> client \<Rightarrow> client option" where
  "client_write_task chunk c =
     (let write_in_progress = (c_sending c \<noteq> []);
          c = c\<lparr>c_sending := c_sending c @ [chunk]\<rparr>
      in if \<not> write_in_progress then client_do_write c else Some c)"

text \<open>
  The task that \<^verbatim>\<open>close\<close> posts shuts down whatever socket is current when it runs; \<open>ok\<close> is
  whether the system call succeeds. Otherwise the exception leaves \<^verbatim>\<open>io_context_.run()\<close> and
  ends the program.
\<close>

datatype outcome = Running client | Undefined | Terminated

definition client_shutdown_task :: "bool \<Rightarrow> client \<Rightarrow> outcome" where
  "client_shutdown_task ok c =
     (if ok then Running (c\<lparr>c_closed := c_closed c @ [c_socket c]\<rparr>) else Terminated)"

section \<open>Steps\<close>

definition running :: "client option \<Rightarrow> outcome" where
  "running r = (case r of None \<Rightarrow> Undefined | Some c \<Rightarrow> Running c)"

text \<open>An asynchronous operation of the socket has ended: it is no longer outstanding.\<close>

definition client_finish :: "nat \<Rightarrow> client \<Rightarrow> client" where
  "client_finish i c = c\<lparr>c_pending := without_nth i (c_pending c)\<rparr>"

definition client_receive :: "bytes \<Rightarrow> client \<Rightarrow> client" where
  "client_receive data c = c\<lparr>c_received := data @ drop (length data) (c_received c)\<rparr>"

text \<open>
  Operations end at any moment and with any result, also on a socket that has been closed since: the operation may have
  ended before, with its handler still to run. What an operation that starts on a closed socket can do is less
  than that; claims that something can be sent therefore only use steps of a client that is up (\<open>client_up\<close>).
\<close>

inductive client_step :: "client \<Rightarrow> outcome \<Rightarrow> bool" where
  user: "client_step c (Running (client_call u c))"
| shutdown: "c_posted c = Shutdown_task # ts \<Longrightarrow>
     client_step c (client_shutdown_task ok (c\<lparr>c_posted := ts\<rparr>))"
| enqueue: "c_posted c = Write_task m # ts \<Longrightarrow>
     client_step c (running (client_write_task m (c\<lparr>c_posted := ts\<rparr>)))"
| connect: "i < length (c_pending c) \<Longrightarrow> c_pending c ! i = Connect_op s \<Longrightarrow>
     client_step c (Running (client_handle_connect cb ec
       ((client_finish i c)\<lparr>c_connects := c_connects c @ (if ec = 0 then [s] else [])\<rparr>)))"
| read: "i < length (c_pending c) \<Longrightarrow> c_pending c ! i = Read_op s \<Longrightarrow> length data \<le> max_buffer_size \<Longrightarrow>
     client_step c (Running (client_handle_read cb ec (length data)
       (client_receive data (client_finish i c))))"
| written: "i < length (c_pending c) \<Longrightarrow> c_pending c ! i = Write_op s m \<Longrightarrow>
     client_step c (running (client_handle_write cb 0
       ((client_finish i c)\<lparr>c_wire := c_wire c @ [(s, m)]\<rparr>)))"
| write_failed: "i < length (c_pending c) \<Longrightarrow> c_pending c ! i = Write_op s m \<Longrightarrow> ec \<noteq> 0 \<Longrightarrow>
     client_step c (running (client_handle_write cb ec (client_finish i c)))"

abbreviation client_goes :: "client \<Rightarrow> client \<Rightarrow> bool" where
  "client_goes c d \<equiv> client_step c (Running d)"

abbreviation client_run :: "client \<Rightarrow> client \<Rightarrow> bool" where
  "client_run \<equiv> client_goes\<^sup>*\<^sup>*"

section \<open>The send queue of the client\<close>

text \<open>The successful end of the outstanding write, with a callback that does nothing.\<close>

definition client_complete :: "client \<Rightarrow> client option" where
  "client_complete c =
     (case List.extract is_write (c_pending c) of
        Some (as, Write_op s m, bs) \<Rightarrow>
          client_handle_write [] 0 (c\<lparr>c_pending := as @ bs, c_wire := c_wire c @ [(s, m)]\<rparr>)
      | _ \<Rightarrow> None)"

abbreviation client_inflight :: "client \<Rightarrow> chunk list" where
  "client_inflight c \<equiv> written_chunks (c_pending c)"

abbreviation client_sent :: "client \<Rightarrow> chunk list" where
  "client_sent c \<equiv> map snd (c_wire c)"

interpretation cw: async_writer c_sending client_inflight client_sent client_write_task client_complete
proof unfold_locales
  fix c :: client and m m' q
  show "c_sending c = [] \<Longrightarrow> \<exists>c'. client_write_task m c = Some c' \<and> c_sending c' = [m] \<and>
      client_inflight c' = client_inflight c @ [m] \<and> client_sent c' = client_sent c"
    by (simp add: client_write_task_def client_do_write_def)
  show "c_sending c \<noteq> [] \<Longrightarrow> \<exists>c'. client_write_task m c = Some c' \<and> c_sending c' = c_sending c @ [m] \<and>
      client_inflight c' = client_inflight c \<and> client_sent c' = client_sent c"
    by (simp add: client_write_task_def)
  assume q: "c_sending c = m # q" and "client_inflight c = [m]"
  then obtain as s bs where "List.extract is_write (c_pending c) = Some (as, Write_op s m, bs)"
      "written_chunks (as @ bs) = []"
    using extract_write by blast
  with q show "\<exists>c'. client_complete c = Some c' \<and> c_sending c' = q \<and>
      client_inflight c' = take 1 q \<and> client_sent c' = client_sent c @ [m]"
    by (cases q) (simp_all add: client_complete_def client_handle_write_def client_do_write_def)
qed

section \<open>The client as an abstract sender\<close>

fun posted_writes :: "client_task list \<Rightarrow> chunk list" where
  "posted_writes [] = []"
| "posted_writes (Write_task m # ts) = m # posted_writes ts"
| "posted_writes (Shutdown_task # ts) = posted_writes ts"

lemma posted_writes_append [simp]: "posted_writes (xs @ ys) = posted_writes xs @ posted_writes ys"
  by (induction xs rule: posted_writes.induct) simp_all

definition client_view :: "client \<Rightarrow> writer" where
  "client_view c =
     \<lparr>aw_queue = c_sending c, aw_inflight = client_inflight c, aw_sent = client_sent c,
      aw_accepted = c_accepted c, aw_backlog = posted_writes (c_posted c)\<rparr>"

text \<open>What the calls of a user do to it: they accept chunks, and nothing else.\<close>

definition accepts :: "client \<Rightarrow> client \<Rightarrow> bool" where
  "accepts c d \<longleftrightarrow> (\<exists>ms. client_view d = (client_view c)
     \<lparr>aw_accepted := c_accepted c @ ms, aw_backlog := posted_writes (c_posted c) @ ms\<rparr>)"

named_theorems client_defs

lemmas [client_defs] = client_do_connect_def client_reconnect_def client_close_def client_write_def
  client_do_read_def client_finish_def client_receive_def

lemma accepts_effect: "accepts c d \<Longrightarrow> writer_effect (client_view c) (client_view d)"
  using writer_effect.accept [of "client_view c"] by (auto simp: accepts_def client_view_def)

lemma accepts_same: "client_view d = client_view c \<Longrightarrow> accepts c d"
  by (auto simp: accepts_def client_view_def intro: exI [of _ "[]"])

lemma accepts_trans: "accepts c d \<Longrightarrow> accepts d e \<Longrightarrow> accepts c e"
  by (auto simp: accepts_def client_view_def)

lemma accepts_call: "accepts c (client_call u c)"
  by (cases u) (auto simp: accepts_def client_view_def client_defs)

lemma accepts_calls: "accepts c (client_calls cb c)"
  unfolding client_calls_def
proof (induction cb arbitrary: c)
  case (Cons u cb)
  show ?case using accepts_trans [OF accepts_call Cons.IH] by simp
qed (simp add: accepts_same)

lemma accepts_call_back: "accepts c (client_call_back_connection_handler cb st ec c)"
  unfolding client_call_back_connection_handler_def
  by (rule accepts_trans [OF accepts_same accepts_calls]) (simp add: client_view_def)

lemma accepts_do_read: "accepts c d \<Longrightarrow> accepts c (client_do_read d)"
  by (erule accepts_trans) (simp add: accepts_same client_view_def client_defs)

lemma accepts_connect: "accepts c (client_handle_connect cb ec c)"
  unfolding client_handle_connect_def by (auto intro: accepts_do_read accepts_call_back)

lemma accepts_read: "accepts c (client_handle_read cb ec n (client_receive data c))"
proof -
  have rcv: "accepts c (client_receive data c)" by (simp add: accepts_same client_view_def client_defs)
  have "accepts c (client_calls cb ((client_receive data c)\<lparr>c_packets := p\<rparr>))" for p
    by (rule accepts_trans [OF accepts_same accepts_calls]) (simp add: client_view_def client_defs)
  with accepts_trans [OF rcv accepts_call_back] show ?thesis
    unfolding client_handle_read_def by (auto intro: accepts_do_read)
qed

lemma accepts_finish:
  assumes "i < length (c_pending c)" and "\<not> (\<exists>s m. c_pending c ! i = Write_op s m)"
  shows "accepts c (client_finish i c)"
  using written_without(1) [OF assms] by (simp add: accepts_same client_view_def client_defs)

lemma client_step_effect:
  assumes "client_goes c d"
  shows "writer_effect (client_view c) (client_view d)"
  using assms
proof cases
  case (user u)
  then show ?thesis using accepts_effect [OF accepts_call] by simp
next
  case (shutdown ts ok)
  then show ?thesis
    by (intro accepts_effect accepts_same)
      (auto simp: client_shutdown_task_def client_view_def split: if_splits)
next
  case (enqueue m ts)
  then have d: "client_write_task m (c\<lparr>c_posted := ts\<rparr>) = Some d"
    by (auto simp: running_def split: option.splits)
  have "aw_backlog (client_view c) = m # posted_writes ts" using enqueue(2) by (simp add: client_view_def)
  from writer_effect.enqueue [OF this] d show ?thesis
    by (auto simp: client_view_def client_write_task_def client_do_write_def split: if_splits)
next
  case (connect i s cb ec)
  have "accepts (client_finish i c) ((client_finish i c)\<lparr>c_connects := ss\<rparr>)" for ss
    by (simp add: accepts_same client_view_def)
  with connect show ?thesis
    using accepts_effect [OF accepts_trans [OF accepts_trans [OF accepts_finish] accepts_connect]] by auto
next
  case (read i s data cb ec)
  then show ?thesis
    using accepts_effect [OF accepts_trans [OF accepts_finish accepts_read]] by auto
next
  case (written i s m cb)
  obtain as bs where w: "client_inflight c = as @ m # bs" "written_chunks (without_nth i (c_pending c)) = as @ bs"
    using written_without(2) [OF written(2,3)] by blast
  obtain x q where q: "c_sending c = x # q"
    using written(1) by (cases "c_sending c")
      (auto simp: running_def client_handle_write_def client_finish_def)
  have "aw_inflight (client_view c) = as @ m # bs" "aw_queue (client_view c) = x # q"
    using w q by (simp_all add: client_view_def)
  from writer_effect.written [OF this] written(1) q w show ?thesis
    by (cases q) (auto simp: client_view_def running_def client_handle_write_def client_do_write_def
        client_finish_def)
next
  case (write_failed i s m ec cb)
  obtain as bs where w: "client_inflight c = as @ m # bs" "written_chunks (without_nth i (c_pending c)) = as @ bs"
    using written_without(2) [OF write_failed(2,3)] by blast
  have "aw_inflight (client_view c) = as @ m # bs" using w by (simp add: client_view_def)
  note fail = writer_effect.failed [OF this]
  have "accepts (client_finish i c) d"
    using write_failed accepts_call_back by (auto simp: running_def client_handle_write_def)
  with fail w show ?thesis by (auto simp: accepts_def client_view_def client_finish_def)
qed

text \<open>
  When a write of the client can succeed: its socket has been connected, is neither closed nor shut down and will not be by
  a task already posted, and the outstanding write is one on this socket.
\<close>

definition client_up :: "client \<Rightarrow> bool" where
  "client_up c \<longleftrightarrow> c_socket c \<in> set (c_connects c) \<and> c_socket c \<notin> set (c_closed c) \<and>
     Shutdown_task \<notin> set (c_posted c) \<and>
     (\<forall>op \<in> set (c_pending c). is_write op \<longrightarrow> (\<exists>m. op = Write_op (c_socket c) m))"

abbreviation client_up_run :: "client \<Rightarrow> client \<Rightarrow> bool" where
  "client_up_run \<equiv> (\<lambda>c d. client_goes c d \<and> client_up c \<and> client_up d)\<^sup>*\<^sup>*"

lemma client_complete_step:
  assumes "client_up c" and "client_complete c = Some d"
  shows "client_goes c d \<and> client_up d \<and> c_accepted d = c_accepted c \<and> c_posted d = c_posted c"
proof -
  obtain as s m bs where e: "List.extract is_write (c_pending c) = Some (as, Write_op s m, bs)"
      and d: "client_handle_write [] 0 (c\<lparr>c_pending := as @ bs, c_wire := c_wire c @ [(s, m)]\<rparr>) = Some d"
    using assms(2) by (auto simp: client_complete_def split: option.splits net_op.splits)
  then have p: "c_pending c = as @ Write_op s m # bs" by (simp add: extract_Some_iff)
  then have i: "length as < length (c_pending c)" "c_pending c ! length as = Write_op s m" by simp_all
  have "(client_finish (length as) c)\<lparr>c_wire := c_wire c @ [(s, m)]\<rparr> =
      c\<lparr>c_pending := as @ bs, c_wire := c_wire c @ [(s, m)]\<rparr>"
    by (simp add: client_finish_def p without_nth_def)
  with d client_step.written [OF i, of "[]"] have "client_goes c d" by (simp add: running_def)
  moreover have "client_up d \<and> c_accepted d = c_accepted c \<and> c_posted d = c_posted c"
    using d assms(1) p by (auto simp: client_handle_write_def client_do_write_def client_up_def Let_def
        split: list.splits if_splits)
  ultimately show ?thesis by simp
qed

text \<open>The first task of a client that is up puts a chunk in its queue.\<close>

lemma client_posted_step:
  assumes "client_up c" and "c_posted c = t # ts"
  shows "\<exists>m d. client_write_task m (c\<lparr>c_posted := ts\<rparr>) = Some d \<and> client_goes c d \<and> client_up d \<and>
    c_accepted d = c_accepted c \<and> c_posted d = ts"
proof -
  from assms obtain m where t: "t = Write_task m" by (cases t) (auto simp: client_up_def)
  obtain d where d: "client_write_task m (c\<lparr>c_posted := ts\<rparr>) = Some d"
    using cw.add_total [of m "c\<lparr>c_posted := ts\<rparr>"] by blast
  have "client_up d \<and> c_accepted d = c_accepted c \<and> c_posted d = ts"
    using d assms by (auto simp: client_write_task_def client_do_write_def client_up_def Let_def
        split: if_splits list.splits)
  with d assms(2) t client_step.enqueue [of c m ts] show ?thesis by (auto simp: running_def)
qed

interpretation cs: posting_writer c_sending client_inflight client_sent client_write_task client_complete
  c_accepted "\<lambda>c. posted_writes (c_posted c)" client_goes client_up c_posted
proof unfold_locales
  fix c d :: client and t ts
  show "client_goes c d \<Longrightarrow> writer_effect
      \<lparr>aw_queue = c_sending c, aw_inflight = client_inflight c, aw_sent = client_sent c, aw_accepted = c_accepted c,
        aw_backlog = posted_writes (c_posted c)\<rparr>
      \<lparr>aw_queue = c_sending d, aw_inflight = client_inflight d, aw_sent = client_sent d, aw_accepted = c_accepted d,
        aw_backlog = posted_writes (c_posted d)\<rparr>"
    using client_step_effect unfolding client_view_def .
  show "client_up c \<Longrightarrow> client_complete c = Some d \<Longrightarrow> client_goes c d \<and> client_up d \<and>
      c_accepted d = c_accepted c \<and> posted_writes (c_posted d) = posted_writes (c_posted c)"
    using client_complete_step by metis
  assume "client_up c" and "c_posted c = t # ts"
  from client_posted_step [OF this] obtain m d where
    "client_write_task m (c\<lparr>c_posted := ts\<rparr>) = Some d" "client_goes c d" "client_up d"
    "c_accepted d = c_accepted c" "c_posted d = ts"
    by blast
  then show "\<exists>m d c'. client_write_task m c' = Some d \<and> c_sending c' = c_sending c \<and>
      client_inflight c' = client_inflight c \<and> client_goes c d \<and> client_up d \<and>
      c_accepted d = c_accepted c \<and> c_posted d = ts"
    by (intro exI [of _ m] exI [of _ d] exI [of _ "c\<lparr>c_posted := ts\<rparr>"]) simp
qed simp

lemma client_up_step: "cs.up_step = (\<lambda>c d. client_goes c d \<and> client_up c \<and> client_up d)"
  by (intro ext) (simp add: cs.up_step_def)

lemma client_new_inv: "client_new make_address r = Some c \<Longrightarrow> cs.sender_inv c"
  by (auto simp: client_new_def cs.sender_inv_def client_do_connect_def split: bind_splits)

text \<open>A client that keeps the invariant never runs into undefined behaviour.\<close>

lemma client_defined:
  assumes "client_step c r" and inv: "cs.sender_inv c"
  shows "r \<noteq> Undefined"
  using assms(1)
proof cases
  case (enqueue m ts)
  then show ?thesis using cw.add_total [of m "c\<lparr>c_posted := ts\<rparr>"] by (auto simp: running_def)
next
  case (written i s m cb)
  obtain q where "c_sending c = m # q"
    using write_op_front(2) [OF _ written(2,3)] inv by (auto simp: cs.sender_inv_def)
  with written(1) show ?thesis
    by (cases q) (simp_all add: running_def client_handle_write_def client_do_write_def client_finish_def)
next
  case (write_failed i s m ec cb)
  then show ?thesis by (simp add: running_def client_handle_write_def)
qed (auto simp: client_shutdown_task_def)

text \<open>A write that fails blocks the client.\<close>

lemma client_failed_stuck:
  assumes "cs.sender_inv c" and "i < length (c_pending c)" and "c_pending c ! i = Write_op s m" and "ec \<noteq> 0"
    and "client_handle_write cb ec (client_finish i c) = Some d"
  shows "client_goes c d" and "cw.stuck d" and "client_sent d = client_sent c"
proof -
  show "client_goes c d"
    using client_step.write_failed [OF assms(2,3,4), of cb] assms(5) by (simp add: running_def)
  have inflight: "client_inflight c = [] \<or> client_inflight c = take 1 (c_sending c)"
    using assms(1) by (auto simp: cs.sender_inv_def)
  have "accepts (client_finish i c) d"
    using assms(4,5) accepts_call_back by (auto simp: client_handle_write_def)
  then have d: "c_sending d = c_sending c" "client_inflight d = client_inflight (client_finish i c)"
      "client_sent d = client_sent c"
    by (auto simp: accepts_def client_view_def client_finish_def)
  then show "client_sent d = client_sent c" by simp
  have "client_inflight d = []" "client_inflight c \<noteq> []"
    using write_op_front(1) [OF inflight assms(2,3)] written_without(2) [OF assms(2,3)] d(2)
    by (auto simp: client_finish_def)
  with cs.failed_stuck [OF assms(1)] d(1) show "cw.stuck d" by simp
qed

end
