(* ===== verification/Tcp_Client_Properties.thy ===== *)
theory Tcp_Client_Properties
  imports Tcp_Client
begin

text \<open>
  What the TCP client promises its user, and the two situations in which it does not keep to it:
  a failed write, and a \<^verbatim>\<open>close\<close> followed by a \<^verbatim>\<open>reconnect\<close>.
\<close>

section \<open>Reports\<close>

definition reported_ok :: "client \<Rightarrow> bool" where
  "reported_ok c \<longleftrightarrow> (c_state c = connected \<longrightarrow>
     c_reported c \<noteq> [] \<and> last (c_reported c) = (connected, 0))"

lemma reported_call: "reported_ok c \<Longrightarrow> reported_ok (client_call u c)"
  by (cases u) (auto simp: reported_ok_def client_defs)

lemma reported_calls: "reported_ok c \<Longrightarrow> reported_ok (client_calls cb c)"
  unfolding client_calls_def by (induction cb arbitrary: c) (simp_all add: reported_call)

lemma reported_call_back:
  "(st = connected \<longrightarrow> ec = 0) \<Longrightarrow> reported_ok (client_call_back_connection_handler cb st ec c)"
  unfolding client_call_back_connection_handler_def
  by (rule reported_calls) (simp add: reported_ok_def)

lemma reported_do_read: "reported_ok (client_do_read c) = reported_ok c"
  by (simp add: reported_ok_def client_defs)

lemma reported_do_write: "client_do_write c = Some d \<Longrightarrow> reported_ok d = reported_ok c"
  by (auto simp: client_do_write_def reported_ok_def split: list.splits)

lemma reported_handle_write:
  "client_handle_write cb ec c = Some d \<Longrightarrow> reported_ok c \<Longrightarrow> reported_ok d"
  by (auto simp: client_handle_write_def reported_call_back Let_def split: if_splits list.splits
      dest!: reported_do_write) (simp_all add: reported_ok_def)

lemma reported_step:
  assumes "client_step c (Running d)" and ok: "reported_ok c"
  shows "reported_ok d"
  using assms(1)
proof cases
  case (user u)
  then show ?thesis using ok by (simp add: reported_call)
next
  case (shutdown ts ok')
  then show ?thesis using ok by (auto simp: client_shutdown_task_def reported_ok_def split: if_splits)
next
  case (enqueue m ts)
  then show ?thesis using ok
    by (auto simp: running_def client_write_task_def Let_def reported_ok_def split: option.splits if_splits
        dest!: reported_do_write)
next
  case (connect i s cb ec)
  have "reported_ok ((client_finish i c)\<lparr>c_connects := ss\<rparr>)" for ss
    using ok by (simp add: reported_ok_def client_finish_def)
  with connect show ?thesis
    by (auto simp: client_handle_connect_def reported_do_read reported_call_back)
next
  case (read i s data cb ec)
  have "reported_ok ((client_receive data (client_finish i c))\<lparr>c_packets := p\<rparr>)" for p
    using ok by (simp add: reported_ok_def client_receive_def client_finish_def)
  with read show ?thesis
    by (auto simp: client_handle_read_def reported_do_read reported_call_back reported_calls)
next
  case (written i s m cb)
  then show ?thesis using ok
    by (auto simp: running_def reported_ok_def client_finish_def split: option.splits
        dest!: reported_handle_write)
next
  case (write_failed i s m ec cb)
  then show ?thesis using ok
    by (auto simp: running_def reported_ok_def client_finish_def split: option.splits
        dest!: reported_handle_write)
qed

lemma reported_run: "client_run c d \<Longrightarrow> reported_ok c \<Longrightarrow> reported_ok d"
  by (induction rule: rtranclp_induct) (auto intro: reported_step)

lemma reported_new: "client_new make_address r = Some c \<Longrightarrow> reported_ok c"
  by (auto simp: client_new_def reported_ok_def client_do_connect_def split: bind_splits)

section \<open>A concrete client\<close>

text \<open>
  For the witnesses: it connects, sends two bytes, and the write succeeds or fails; after the failure it
  reconnects.
\<close>

abbreviation demo_remote :: remote where
  "demo_remote \<equiv> remote_new ''127.0.0.1'' 80"

definition demo_new :: client where
  "demo_new = the (client_new Some demo_remote)"

definition demo_connected :: client where
  "demo_connected = client_handle_connect [] 0 ((client_finish 0 demo_new)\<lparr>c_connects := [1]\<rparr>)"

definition demo_accepted :: client where
  "demo_accepted = client_call (Call_write [1, 2]) demo_connected"

definition demo_writing :: client where
  "demo_writing = the (client_write_task [1, 2] (demo_accepted\<lparr>c_posted := []\<rparr>))"

definition demo_failed :: client where
  "demo_failed = the (client_handle_write [Call_reconnect] 5 (client_finish 1 demo_writing))"

definition demo_again :: client where
  "demo_again = client_handle_connect [] 0 ((client_finish 1 demo_failed)\<lparr>c_connects := [1, 2]\<rparr>)"

lemmas demo_defs = demo_new_def demo_connected_def demo_accepted_def demo_writing_def demo_failed_def
  demo_again_def client_new_def client_handle_connect_def client_call_back_connection_handler_def
  client_calls_def client_write_task_def client_do_write_def client_handle_write_def client_defs
  without_nth_def remote_new_def client_is_connected_def

lemma demo_new_eq: "client_new Some demo_remote = Some demo_new"
  by (simp add: demo_defs)

lemma demo_steps:
  "client_step demo_new (Running demo_connected)"
  "client_step demo_connected (Running demo_accepted)"
  "client_step demo_accepted (Running demo_writing)"
  "client_step demo_writing (Running demo_failed)"
  "client_step demo_failed (Running demo_again)"
proof -
  show "client_step demo_new (Running demo_connected)"
    using client_step.connect [of 0 demo_new 1 "[]" 0] by (simp add: demo_defs)
  show "client_step demo_connected (Running demo_accepted)"
    unfolding demo_accepted_def by (rule client_step.user)
  show "client_step demo_accepted (Running demo_writing)"
    using client_step.enqueue [of demo_accepted "[1, 2]" "[]"] by (simp add: demo_defs running_def)
  show "client_step demo_writing (Running demo_failed)"
    using client_step.write_failed [of 1 demo_writing 1 "[1, 2]" 5 "[Call_reconnect]"]
    by (simp add: demo_defs running_def)
  show "client_step demo_failed (Running demo_again)"
    using client_step.connect [of 1 demo_failed 2 "[]" 0] by (simp add: demo_defs)
qed

lemma demo_client_run: "client_run demo_new demo_writing" "client_run demo_new demo_again"
  using demo_steps by (meson rtranclp.rtrancl_into_rtrancl rtranclp.rtrancl_refl)+

section \<open>Properties\<close>

text \<open>C12: Whatever the network does and whatever the callbacks call, the chunks accepted by \<^verbatim>\<open>write\<close> are
  the chunks sent, then those queued, then those posted, in the order of the calls: none
  is lost, repeated or overtaken, and there is never more than one write outstanding; and no
  step takes the front of an empty queue.\<close>

theorem client_sends_in_order:
  assumes "client_new make_address r = Some c" and "client_run c d"
  shows "c_accepted d = map snd (c_wire d) @ c_sending d @ posted_writes (c_posted d) \<and>
    length (written_chunks (c_pending d)) \<le> 1 \<and> \<not> client_step d Undefined"
  using cs.run_inv [OF assms(2) client_new_inv [OF assms(1)]]
  by (auto simp: cs.sender_inv_def dest: client_defined)

theorem client_sends_in_order_witness:
  "c_accepted demo_writing = [[1, 2]] \<and>
   c_accepted demo_writing =
     map snd (c_wire demo_writing) @ c_sending demo_writing @ posted_writes (c_posted demo_writing) \<and>
   \<not> client_step demo_writing Undefined"
  using client_sends_in_order [OF demo_new_eq demo_client_run(1)] by (simp add: demo_defs)

text \<open>C13: While the client is up (its socket is connected, neither closed nor shut down, and no shutdown is posted) and no write
  has failed with messages still queued, everything accepted so far can be sent: there is a continuation, with the
  client up all the time and no further calls, after which \<^verbatim>\<open>are_all_messages_sent\<close> holds and exactly
  the accepted chunks are on the wire.\<close>

theorem client_can_send_all:
  assumes "client_new make_address r = Some c" and "client_run c d" and "client_up d"
    and "c_sending d = [] \<or> written_chunks (c_pending d) \<noteq> []"
  shows "\<exists>e. client_up_run d e \<and> c_accepted e = c_accepted d \<and> client_are_all_messages_sent e \<and>
    map snd (c_wire e) = c_accepted d"
proof -
  have inv: "cs.sender_inv d" by (rule cs.run_inv [OF assms(2) client_new_inv [OF assms(1)]])
  then have "cw.settled d" using cs.settled_or_stuck [of d] assms(4) by (auto simp: cw.stuck_def)
  from cs.send_all_run [OF inv this assms(3)] show ?thesis
    by (auto simp: client_up_step client_are_all_messages_sent_def)
qed

theorem client_can_send_all_witness:
  "client_up demo_writing \<and> (\<exists>e. client_up_run demo_writing e \<and> client_are_all_messages_sent e \<and>
     map snd (c_wire e) = [[1, 2]])"
proof -
  have up: "client_up demo_writing" by (simp add: client_up_def demo_defs)
  have "written_chunks (c_pending demo_writing) \<noteq> []" "c_accepted demo_writing = [[1, 2]]"
    by (simp_all add: demo_defs)
  with client_can_send_all [OF demo_new_eq demo_client_run(1) up] up show ?thesis by auto
qed

text \<open>C14: A write that fails blocks the client for good. Whatever its handler's callback calls, and whatever happens
  and is called from then on, nothing is ever sent again and \<^verbatim>\<open>are_all_messages_sent\<close> stays false, also
  after a reconnection has succeeded and \<^verbatim>\<open>write\<close> has returned true.\<close>

theorem client_failed_write_blocks:
  assumes "client_new make_address r = Some b" and "client_run b c"
    and "i < length (c_pending c)" and "c_pending c ! i = Write_op s m" and "ec \<noteq> 0"
    and "client_handle_write cb ec (client_finish i c) = Some d" and "client_run d e"
  shows "client_goes c d \<and> map snd (c_wire e) = map snd (c_wire c) \<and> \<not> client_are_all_messages_sent e"
proof -
  have "cs.sender_inv c" by (rule cs.run_inv [OF assms(2) client_new_inv [OF assms(1)]])
  note failed = client_failed_stuck [OF this assms(3-6)]
  from cs.run_stuck [OF assms(7) failed(2)] failed(1,3) show ?thesis
    by (simp add: cw.stuck_def client_are_all_messages_sent_def)
qed

theorem client_failed_write_blocks_witness:
  "client_run demo_new demo_again \<and> client_is_connected demo_again \<and>
   snd (client_write [3] demo_again) \<and>
   map snd (c_wire (fst (client_write [3] demo_again))) = map snd (c_wire demo_writing) \<and>
   \<not> client_are_all_messages_sent demo_again"
proof -
  let ?d = "client_call (Call_write [3]) demo_again"
  have again: "client_run demo_failed demo_again"
    by (rule r_into_rtranclp [of client_goes, OF demo_steps(5)])
  have "client_goes demo_again ?d" by (rule client_step.user)
  with again have run: "client_run demo_failed ?d" by (rule rtranclp.rtrancl_into_rtrancl [of client_goes])
  have fail: "1 < length (c_pending demo_writing)" "c_pending demo_writing ! 1 = Write_op 1 [1, 2]" "(5::int) \<noteq> 0"
      "client_handle_write [Call_reconnect] 5 (client_finish 1 demo_writing) = Some demo_failed"
    by (simp_all add: demo_defs)
  note blocks = client_failed_write_blocks [OF demo_new_eq demo_client_run(1) fail]
  have "client_is_connected demo_again" "snd (client_write [3] demo_again)"
    by (simp_all add: demo_defs)
  with blocks [OF run] blocks [OF again] demo_client_run(2) show ?thesis by simp
qed

text \<open>C16: The client is connected, and \<^verbatim>\<open>write\<close> returns true, only while the last report to the
  user was \<^verbatim>\<open>connected\<close>; otherwise \<^verbatim>\<open>write\<close> returns false and changes nothing.\<close>

theorem client_write_iff_connected:
  assumes "client_new make_address r = Some c" and "client_run c d"
  shows "(if client_is_connected d
      then snd (client_write m d) \<and> c_reported d \<noteq> [] \<and> last (c_reported d) = (connected, 0)
      else client_write m d = (d, False))"
  using reported_run [OF assms(2) reported_new [OF assms(1)]]
  by (simp add: reported_ok_def client_write_def client_is_connected_def)

theorem client_write_iff_connected_witness:
  "snd (client_write [7] demo_writing) \<and> last (c_reported demo_writing) = (connected, 0)"
  using client_write_iff_connected [OF demo_new_eq demo_client_run(1), of "[7]"] by (simp add: demo_defs)

text \<open>C15: \<^verbatim>\<open>close\<close> followed by \<^verbatim>\<open>reconnect\<close> shuts down the new connection: the task posted by \<^verbatim>\<open>close\<close>
  runs after \<^verbatim>\<open>socket_\<close> has been replaced and acts on the new socket.\<close>

theorem client_close_hits_new_socket:
  assumes "client_is_connected c" and "c_posted c = []"
  shows "c_posted (client_reconnect (client_close c)) = [Shutdown_task] \<and>
    (\<exists>d. client_step (client_reconnect (client_close c)) (Running d) \<and>
       c_socket d = Suc (c_socket c) \<and> c_closed d = c_closed c @ [c_socket c, Suc (c_socket c)] \<and>
       Connect_op (Suc (c_socket c)) \<in> set (c_pending d))"
proof -
  let ?d = "client_reconnect (client_close c)"
  have posted: "c_posted ?d = [Shutdown_task]" using assms by (simp add: client_defs)
  then have "client_step ?d (client_shutdown_task True (?d\<lparr>c_posted := []\<rparr>))"
    by (rule client_step.shutdown)
  with posted assms show ?thesis by (auto simp: client_shutdown_task_def client_defs)
qed

theorem client_close_hits_new_socket_witness:
  "client_is_connected demo_connected \<and>
   c_posted (client_reconnect (client_close demo_connected)) = [Shutdown_task]"
  using client_close_hits_new_socket [of demo_connected] by (simp add: demo_defs)

end
