(* ===== verification/Tcp_Server.thy ===== *)
theory Tcp_Server
  imports Net_Base
begin

text \<open>
  The TCP server and its sessions (\<^verbatim>\<open>src/net/tcp/server/server.cpp\<close> and \<^verbatim>\<open>session.cpp\<close>). A
  session is known by the address of its object, its \<^verbatim>\<open>SessionId\<close>; \<open>srv_objects\<close> holds the
  objects by address, and \<open>srv_sessions\<close> the keys of \<^verbatim>\<open>sessions_\<close> in iteration order (a session is stored
  under its own address). An object lives as long as it is in the map or an outstanding
  operation refers to it, and only then is its address not given to a new session.

  The fields \<open>s_accepted\<close> and \<open>s_sent\<close> of a session and the last three of the server are
  history. A callback makes any list of calls of the public operations, \<^verbatim>\<open>close\<close> included, which
  runs callbacks of its own. A call is one step, as the map is not protected
  against the thread of the \<^verbatim>\<open>io_context_\<close>. \<open>None\<close> is undefined behaviour or, where an
  exception leaves a handler and the thread that runs it, the end of the program.
\<close>

section \<open>State\<close>

type_synonym session_id = u64

definition session_none :: session_id where
  "session_none = 0"

record session =
  s_received :: bytes
  s_sending :: "chunk list"
  s_accepted :: "chunk list"
  s_sent :: "chunk list"

datatype server_op = Accept_op | Session_read session_id | Session_write session_id chunk

record server =
  srv_port :: u16
  srv_sessions :: "session_id list"
  srv_objects :: "session_id \<Rightarrow> session"
  srv_pending :: "server_op list"
  srv_reported :: "(session_id \<times> conn_state \<times> error_code) list"
  srv_packets :: "(session_id \<times> chunk) list"
  srv_shut :: "session_id list"

text \<open>
  A call of a public operation. A call of \<^verbatim>\<open>close\<close> carries what the environment does in each round of its
  loop: whether the shutdown of the socket succeeds, and the calls of the connection handler; rounds
  beyond the list succeed with a handler that calls nothing.
\<close>

datatype server_api =
    Call_write_to session_id chunk
  | Call_write_to_all chunk
  | Call_write_to_all_except session_id chunk
  | Call_close "(bool \<times> server_api list) list"

section \<open>Session\<close>

definition session_new :: session where
  "session_new =
     \<lparr>s_received = replicate max_buffer_size 0, s_sending = [], s_accepted = [], s_sent = []\<rparr>"

definition upd_session :: "session_id \<Rightarrow> (session \<Rightarrow> session) \<Rightarrow> server \<Rightarrow> server" where
  "upd_session sid f v = v\<lparr>srv_objects := (srv_objects v)(sid := f (srv_objects v sid))\<rparr>"

definition session_do_read :: "session_id \<Rightarrow> server \<Rightarrow> server" where
  "session_do_read sid v = v\<lparr>srv_pending := srv_pending v @ [Session_read sid]\<rparr>"

definition session_start :: "session_id \<Rightarrow> server \<Rightarrow> server" where
  "session_start sid v = session_do_read sid v"

definition session_do_write :: "session_id \<Rightarrow> server \<Rightarrow> server option" where
  "session_do_write sid v =
     (case s_sending (srv_objects v sid) of
        [] \<Rightarrow> None
      | message # _ \<Rightarrow> Some (v\<lparr>srv_pending := srv_pending v @ [Session_write sid message]\<rparr>))"

definition session_write :: "session_id \<Rightarrow> chunk \<Rightarrow> server \<Rightarrow> server option" where
  "session_write sid chunk v =
     (let write_in_progress = (s_sending (srv_objects v sid) \<noteq> []);
          v = upd_session sid (\<lambda>s. s\<lparr>s_sending := s_sending s @ [chunk],
                                      s_accepted := s_accepted s @ [chunk]\<rparr>) v
      in if \<not> write_in_progress then session_do_write sid v else Some v)"

text \<open>\<open>ok\<close>: the system call succeeds; otherwise it throws.\<close>

definition session_close :: "session_id \<Rightarrow> bool \<Rightarrow> server \<Rightarrow> server option" where
  "session_close sid ok v = (if ok then Some (v\<lparr>srv_shut := srv_shut v @ [sid]\<rparr>) else None)"

section \<open>Server\<close>

definition server_write_to :: "session_id \<Rightarrow> chunk \<Rightarrow> server \<Rightarrow> (server \<times> bool) option" where
  "server_write_to sid chunk v =
     (if sid \<notin> set (srv_sessions v) then Some (v, False)
      else map_option (\<lambda>v. (v, True)) (session_write sid chunk v))"

fun write_each :: "session_id list \<Rightarrow> chunk \<Rightarrow> server \<Rightarrow> server option" where
  "write_each [] chunk v = Some v"
| "write_each (sid # sids) chunk v = do { v \<leftarrow> session_write sid chunk v; write_each sids chunk v }"

definition server_write_to_all :: "chunk \<Rightarrow> server \<Rightarrow> server option" where
  "server_write_to_all chunk v = write_each (srv_sessions v) chunk v"

definition server_write_to_all_except :: "session_id \<Rightarrow> chunk \<Rightarrow> server \<Rightarrow> server option" where
  "server_write_to_all_except sid chunk v =
     write_each (filter (\<lambda>s. sid \<noteq> s) (srv_sessions v)) chunk v"

text \<open>
  What calls return: the state, and whether an exception is on its way out. A sequence of calls stops at the
  first exception.
\<close>

type_synonym outcome = "(server \<times> bool) option"

definition unless_thrown :: "outcome \<Rightarrow> (server \<Rightarrow> outcome) \<Rightarrow> outcome" where
  "unless_thrown r f =
     (case r of None \<Rightarrow> None | Some (v, threw) \<Rightarrow> if threw then Some (v, True) else f v)"

lemma unless_thrown_cong [fundef_cong]:
  "r = r' \<Longrightarrow> (\<And>v. r' = Some (v, False) \<Longrightarrow> f v = g v) \<Longrightarrow> unless_thrown r f = unless_thrown r' g"
  by (auto simp: unless_thrown_def split: option.split)

lemma unless_thrown_simps [simp]:
  "unless_thrown None f = None" "unless_thrown (Some (v, True)) f = Some (v, True)"
  "unless_thrown (Some (v, False)) f = f v"
  by (simp_all add: unless_thrown_def)

lemma unless_thrown_Some:
  "unless_thrown r f = Some (w, t) \<longleftrightarrow>
     r = Some (w, True) \<and> t \<or> (\<exists>v. r = Some (v, False) \<and> f v = Some (w, t))"
  by (auto simp: unless_thrown_def split: option.split)

text \<open>
  The first statements of \<^verbatim>\<open>leave\<close>, up to the user's connection handler: the session is erased and the
  handler called with it.
\<close>

definition log_report :: "session_id \<Rightarrow> conn_state \<Rightarrow> error_code \<Rightarrow> server \<Rightarrow> server" where
  "log_report sid st ec v = v\<lparr>srv_reported := srv_reported v @ [(sid, st, ec)]\<rparr>"

definition erase_session :: "session_id \<Rightarrow> server \<Rightarrow> server" where
  "erase_session sid v = v\<lparr>srv_sessions := filter (\<lambda>s. s \<noteq> sid) (srv_sessions v)\<rparr>"

text \<open>What happens in the first round of the rest of the loop.\<close>

definition first_round :: "(bool \<times> server_api list) list \<Rightarrow> bool \<times> server_api list" where
  "first_round rounds = (case rounds of [] \<Rightarrow> (True, []) | r # _ \<Rightarrow> r)"

lemma first_round_smaller:
  "(ok, cb) = first_round rounds \<Longrightarrow>
   size_list size cb \<le> size_list (size_prod (\<lambda>_. 0) (size_list size)) rounds"
  by (auto simp: first_round_def split: list.splits)

lemma tl_rounds_smaller:
  "size_list (size_prod (\<lambda>_. 0) (size_list size)) (tl rounds) \<le>
     size_list (size_prod (\<lambda>_. 0) (size_list (size :: server_api \<Rightarrow> nat))) rounds"
  by (cases rounds) auto

text \<open>
  The calls, and the loop of \<^verbatim>\<open>close\<close>. Its list of sessions are the elements from the iterator on: the
  iterator is advanced before \<^verbatim>\<open>leave\<close> is called, and using it is undefined if the calls of the
  connection handler have erased its element. A session that cannot be shut down ends the loop with an
  exception.
\<close>

function server_call :: "server_api \<Rightarrow> server \<Rightarrow> outcome"
  and server_calls :: "server_api list \<Rightarrow> server \<Rightarrow> outcome"
  and server_close_loop :: "(bool \<times> server_api list) list \<Rightarrow> session_id list \<Rightarrow> server \<Rightarrow> outcome" where
  "server_call (Call_write_to sid chunk) v = map_option (\<lambda>(v, found). (v, False)) (server_write_to sid chunk v)"
| "server_call (Call_write_to_all chunk) v = map_option (\<lambda>v. (v, False)) (server_write_to_all chunk v)"
| "server_call (Call_write_to_all_except sid chunk) v =
     map_option (\<lambda>v. (v, False)) (server_write_to_all_except sid chunk v)"
| "server_call (Call_close rounds) v = server_close_loop rounds (srv_sessions v) v"
| "server_calls [] v = Some (v, False)"
| "server_calls (u # us) v = unless_thrown (server_call u v) (server_calls us)"
| "server_close_loop rounds [] v = Some (v, False)"
| "server_close_loop rounds (sid # sids) v =
     (if sid \<notin> set (srv_sessions v) then None
      else
        let (ok, cb) = first_round rounds
        in case session_close sid ok v of
             None \<Rightarrow> Some (v, True)
           | Some v1 \<Rightarrow>
               unless_thrown (server_calls cb (log_report sid disconnected 0 (erase_session sid v1)))
                 (server_close_loop (tl rounds) sids))"
  by pat_completeness auto
termination
  by (relation "measures [\<lambda>x. case x of Inl (u, _) \<Rightarrow> size u | Inr (Inl (us, _)) \<Rightarrow> size_list size us
      | Inr (Inr (rounds, _, _)) \<Rightarrow> size_list (size_prod (\<lambda>_. 0) (size_list size)) rounds,
      \<lambda>x. case x of Inr (Inr (_, sids, _)) \<Rightarrow> Suc (length sids) | _ \<Rightarrow> 0]")
    (auto simp: order.order_iff_strict [symmetric] first_round_smaller tl_rounds_smaller
      intro: le_neq_trans)

definition server_connection_handler ::
  "server_api list \<Rightarrow> session_id \<Rightarrow> conn_state \<Rightarrow> error_code \<Rightarrow> server \<Rightarrow> outcome" where
  "server_connection_handler cb sid st ec v = server_calls cb (log_report sid st ec v)"

definition server_leave :: "server_api list \<Rightarrow> session_id \<Rightarrow> error_code \<Rightarrow> server \<Rightarrow> outcome" where
  "server_leave cb sid ec v = server_connection_handler cb sid disconnected ec (erase_session sid v)"

definition server_close :: "(bool \<times> server_api list) list \<Rightarrow> server \<Rightarrow> outcome" where
  "server_close rounds v = server_close_loop rounds (srv_sessions v) v"

lemma server_close_loop_Cons:
  "sid \<in> set (srv_sessions v) \<Longrightarrow> server_close_loop rounds (sid # sids) v =
     (case session_close sid (fst (first_round rounds)) v of
        None \<Rightarrow> Some (v, True)
      | Some v1 \<Rightarrow> unless_thrown (server_leave (snd (first_round rounds)) sid 0 v1)
          (server_close_loop (tl rounds) sids))"
  by (cases "first_round rounds")
    (simp add: server_leave_def server_connection_handler_def split: option.split)

text \<open>
  The destructor; \<open>None\<close> when \<^verbatim>\<open>close\<close> throws, which ends the program since the destructor is
  \<^verbatim>\<open>noexcept\<close>. After \<^verbatim>\<open>io_context_.stop()\<close> no handler runs any more.
\<close>

definition server_destroy :: "(bool \<times> server_api list) list \<Rightarrow> server \<Rightarrow> server option" where
  "server_destroy rounds v =
     do { (w, threw) \<leftarrow> server_close rounds v; if threw then None else Some (w\<lparr>srv_pending := []\<rparr>) }"

definition server_do_accept :: "server \<Rightarrow> server" where
  "server_do_accept v = v\<lparr>srv_pending := srv_pending v @ [Accept_op]\<rparr>"

definition server_new :: "u16 \<Rightarrow> server" where
  "server_new p =
     server_do_accept
       \<lparr>srv_port = p, srv_sessions = [], srv_objects = (\<lambda>_. session_new), srv_pending = [],
        srv_reported = [], srv_packets = [], srv_shut = []\<rparr>"

text \<open>\<open>sid\<close> is the address of the new session object.\<close>

definition server_handle_accept ::
  "server_api list \<Rightarrow> error_code \<Rightarrow> session_id \<Rightarrow> server \<Rightarrow> outcome" where
  "server_handle_accept cb ec sid v =
     (if ec \<noteq> 0 then Some (server_do_accept v, False)
      else
        unless_thrown (server_connection_handler cb sid connected ec (upd_session sid (\<lambda>_. session_new) v))
          (\<lambda>v.
            let v = v\<lparr>srv_sessions := srv_sessions v @ [sid]\<rparr>;
                v = session_start sid v
            in Some (server_do_accept v, False)))"

definition session_handle_read ::
  "server_api list \<Rightarrow> error_code \<Rightarrow> nat \<Rightarrow> session_id \<Rightarrow> server \<Rightarrow> outcome" where
  "session_handle_read cb ec sz sid v =
     (if ec \<noteq> 0 then server_leave cb sid ec v
      else
        unless_thrown
          (server_calls cb
            (v\<lparr>srv_packets := srv_packets v @ [(sid, take sz (s_received (srv_objects v sid)))]\<rparr>))
          (\<lambda>v. Some (session_do_read sid v, False)))"

definition session_handle_write ::
  "server_api list \<Rightarrow> error_code \<Rightarrow> session_id \<Rightarrow> server \<Rightarrow> outcome" where
  "session_handle_write cb ec sid v =
     (if ec \<noteq> 0 then server_leave cb sid ec v
      else case s_sending (srv_objects v sid) of
        [] \<Rightarrow> None
      | _ # q \<Rightarrow>
          let v = upd_session sid (\<lambda>s. s\<lparr>s_sending := q\<rparr>) v
          in if q \<noteq> [] then map_option (\<lambda>v. (v, False)) (session_do_write sid v)
             else Some (v, False))"

section \<open>Steps\<close>

definition server_finish :: "nat \<Rightarrow> server \<Rightarrow> server" where
  "server_finish i v = v\<lparr>srv_pending := without_nth i (srv_pending v)\<rparr>"

definition session_receive :: "session_id \<Rightarrow> bytes \<Rightarrow> server \<Rightarrow> server" where
  "session_receive sid data v =
     upd_session sid (\<lambda>s. s\<lparr>s_received := data @ drop (length data) (s_received s)\<rparr>) v"

definition session_log_sent :: "session_id \<Rightarrow> chunk \<Rightarrow> server \<Rightarrow> server" where
  "session_log_sent sid m v = upd_session sid (\<lambda>s. s\<lparr>s_sent := s_sent s @ [m]\<rparr>) v"

fun op_of :: "session_id \<Rightarrow> server_op \<Rightarrow> bool" where
  "op_of sid Accept_op = False"
| "op_of sid (Session_read s) = (s = sid)"
| "op_of sid (Session_write s _) = (s = sid)"

text \<open>An address that a new object can get.\<close>

definition unused :: "session_id \<Rightarrow> server \<Rightarrow> bool" where
  "unused sid v \<longleftrightarrow> sid \<noteq> session_none \<and> sid \<notin> set (srv_sessions v) \<and>
     (\<forall>op \<in> set (srv_pending v). \<not> op_of sid op)"

text \<open>
  What becomes of the program when a handler has run: an exception that leaves it also leaves
  \<^verbatim>\<open>io_context_.run()\<close> and the thread, which ends the program.
\<close>

definition handled :: "outcome \<Rightarrow> server option" where
  "handled r = (case r of Some (v, False) \<Rightarrow> Some v | _ \<Rightarrow> None)"

text \<open>
  The steps, each with the calls its user makes: a call from outside, after which an exception is the
  caller's, and the handlers with the calls of the callback they run. A rehash of the map changes
  the order of iteration.
\<close>

inductive server_step :: "server_api list \<Rightarrow> server \<Rightarrow> server option \<Rightarrow> bool" where
  user: "server_step [u] v (map_option fst (server_call u v))"
| rehash: "distinct ss \<Longrightarrow> set ss = set (srv_sessions v) \<Longrightarrow>
     server_step [] v (Some (v\<lparr>srv_sessions := ss\<rparr>))"
| accept: "i < length (srv_pending v) \<Longrightarrow> srv_pending v ! i = Accept_op \<Longrightarrow> unused sid v \<Longrightarrow>
     server_step cb v (handled (server_handle_accept cb ec sid (server_finish i v)))"
| read: "i < length (srv_pending v) \<Longrightarrow> srv_pending v ! i = Session_read sid \<Longrightarrow>
     length data \<le> max_buffer_size \<Longrightarrow>
     server_step cb v (handled (session_handle_read cb ec (length data) sid
       (session_receive sid data (server_finish i v))))"
| written: "i < length (srv_pending v) \<Longrightarrow> srv_pending v ! i = Session_write sid m \<Longrightarrow>
     server_step cb v (handled (session_handle_write cb 0 sid (session_log_sent sid m (server_finish i v))))"
| write_failed: "i < length (srv_pending v) \<Longrightarrow> srv_pending v ! i = Session_write sid m \<Longrightarrow> ec \<noteq> 0 \<Longrightarrow>
     server_step cb v (handled (session_handle_write cb ec sid (server_finish i v)))"

inductive server_run :: "server \<Rightarrow> server \<Rightarrow> bool" where
  run_refl: "server_run v v"
| run_more: "server_run u v \<Longrightarrow> server_step cb v (Some w) \<Longrightarrow> server_run u w"

section \<open>The send queue of a session\<close>

text \<open>The outstanding operations as one session sees them.\<close>

fun as_net :: "session_id \<Rightarrow> server_op \<Rightarrow> net_op" where
  "as_net sid Accept_op = Connect_op 0"
| "as_net sid (Session_read s) = Read_op 0"
| "as_net sid (Session_write s m) = (if s = sid then Write_op 0 m else Read_op 0)"

definition session_inflight :: "session_id \<Rightarrow> server \<Rightarrow> chunk list" where
  "session_inflight sid v = written_chunks (map (as_net sid) (srv_pending v))"

text \<open>The successful end of the write that is outstanding for a session.\<close>

fun is_write_of :: "session_id \<Rightarrow> server_op \<Rightarrow> bool" where
  "is_write_of sid (Session_write s _) = (s = sid)" | "is_write_of sid _ = False"

definition session_complete :: "session_id \<Rightarrow> server \<Rightarrow> server option" where
  "session_complete sid v =
     (case List.extract (is_write_of sid) (srv_pending v) of
        Some (as, Session_write _ m, bs) \<Rightarrow>
          handled (session_handle_write [] 0 sid (session_log_sent sid m (v\<lparr>srv_pending := as @ bs\<rparr>)))
      | _ \<Rightarrow> None)"

lemma written_as_net_Nil:
  "written_chunks (map (as_net sid) ops) = [] \<longleftrightarrow> (\<forall>op \<in> set ops. \<not> is_write_of sid op)"
proof -
  have "is_write (as_net sid op) = is_write_of sid op" for op by (cases op) auto
  then show ?thesis by (simp add: written_Nil_iff)
qed

lemma extract_write_of:
  assumes "written_chunks (map (as_net sid) ops) = m # ms"
  shows "\<exists>as bs. List.extract (is_write_of sid) ops = Some (as, Session_write sid m, bs) \<and>
    written_chunks (map (as_net sid) (as @ bs)) = ms"
proof -
  obtain as op bs where e: "List.extract (is_write_of sid) ops = Some (as, op, bs)"
    using assms written_as_net_Nil [of sid ops]
    by (cases "List.extract (is_write_of sid) ops") (auto simp: extract_None_iff)
  then have ops: "ops = as @ op # bs" and op: "is_write_of sid op"
      and as: "\<forall>y \<in> set as. \<not> is_write_of sid y"
    by (simp_all add: extract_Some_iff)
  from op obtain m' where op': "op = Session_write sid m'" by (cases op) auto
  have "written_chunks (map (as_net sid) as) = []" using as by (simp add: written_as_net_Nil)
  with e assms ops op' show ?thesis by auto
qed

named_theorems server_defs

lemmas [server_defs] = upd_session_def session_do_read_def session_start_def session_do_write_def
  session_write_def server_do_accept_def server_finish_def session_receive_def session_log_sent_def
  session_inflight_def

interpretation sw: async_writer "\<lambda>v. s_sending (srv_objects v sid)" "session_inflight sid"
    "\<lambda>v. s_sent (srv_objects v sid)" "session_write sid" "session_complete sid" for sid
proof unfold_locales
  fix v m m' q
  show "s_sending (srv_objects v sid) = [] \<Longrightarrow> \<exists>w. session_write sid m v = Some w \<and>
      s_sending (srv_objects w sid) = [m] \<and> session_inflight sid w = session_inflight sid v @ [m] \<and>
      s_sent (srv_objects w sid) = s_sent (srv_objects v sid)"
    by (simp add: server_defs)
  show "s_sending (srv_objects v sid) \<noteq> [] \<Longrightarrow> \<exists>w. session_write sid m v = Some w \<and>
      s_sending (srv_objects w sid) = s_sending (srv_objects v sid) @ [m] \<and>
      session_inflight sid w = session_inflight sid v \<and>
      s_sent (srv_objects w sid) = s_sent (srv_objects v sid)"
    by (simp add: server_defs)
  assume q: "s_sending (srv_objects v sid) = m # q" and "session_inflight sid v = [m]"
  then obtain as bs where "List.extract (is_write_of sid) (srv_pending v) = Some (as, Session_write sid m, bs)"
      "written_chunks (map (as_net sid) (as @ bs)) = []"
    using extract_write_of unfolding session_inflight_def by blast
  with q show "\<exists>w. session_complete sid v = Some w \<and> s_sending (srv_objects w sid) = q \<and>
      session_inflight sid w = take 1 q \<and>
      s_sent (srv_objects w sid) = s_sent (srv_objects v sid) @ [m]"
    by (cases q) (simp_all add: session_complete_def session_handle_write_def handled_def server_defs)
qed

section \<open>The invariant\<close>

definition session_ok :: "session_id \<Rightarrow> server \<Rightarrow> bool" where
  "session_ok sid v \<longleftrightarrow>
     (session_inflight sid v = [] \<or> session_inflight sid v = take 1 (s_sending (srv_objects v sid))) \<and>
     s_accepted (srv_objects v sid) = s_sent (srv_objects v sid) @ s_sending (srv_objects v sid) \<and>
     length (s_received (srv_objects v sid)) = max_buffer_size"

definition sessions_ok :: "server \<Rightarrow> bool" where
  "sessions_ok v \<longleftrightarrow> (\<forall>sid. session_ok sid v)"

definition last_report :: "session_id \<Rightarrow> (session_id \<times> conn_state \<times> error_code) list \<Rightarrow> conn_state option" where
  "last_report sid rs = map_option (fst \<circ> snd) (find (\<lambda>r. fst r = sid) (rev rs))"

lemma last_report_snoc [simp]:
  "last_report sid (rs @ [(s, st, ec)]) = (if s = sid then Some st else last_report sid rs)"
  by (simp add: last_report_def)

definition structure_ok :: "server \<Rightarrow> bool" where
  "structure_ok v \<longleftrightarrow>
     distinct (srv_sessions v) \<and> session_none \<notin> set (srv_sessions v) \<and>
     count_list (srv_pending v) Accept_op = 1 \<and>
     (\<forall>sid. count_list (srv_pending v) (Session_read sid) \<le> 1) \<and>
     (\<forall>sid \<in> set (srv_sessions v). count_list (srv_pending v) (Session_read sid) = 1 \<and>
        last_report sid (srv_reported v) = Some connected)"

text \<open>What writing to sessions leaves alone.\<close>

definition same_structure :: "server \<Rightarrow> server \<Rightarrow> bool" where
  "same_structure v w \<longleftrightarrow>
     srv_sessions w = srv_sessions v \<and> srv_reported w = srv_reported v \<and>
     count_list (srv_pending w) Accept_op = count_list (srv_pending v) Accept_op \<and>
     (\<forall>sid. count_list (srv_pending w) (Session_read sid) = count_list (srv_pending v) (Session_read sid))"

lemma same_structure_refl [simp]: "same_structure v v"
  by (simp add: same_structure_def)

lemma same_structure_trans: "same_structure u v \<Longrightarrow> same_structure v w \<Longrightarrow> same_structure u w"
  by (simp add: same_structure_def)

lemma session_write_total:
  assumes "sessions_ok v"
  shows "\<exists>w. session_write sid m v = Some w \<and> sessions_ok w \<and> same_structure v w"
proof -
  have "session_ok s v" for s using assms by (simp add: sessions_ok_def)
  from this [of sid] this show ?thesis
    by (cases "s_sending (srv_objects v sid)")
      (auto simp: sessions_ok_def session_ok_def same_structure_def server_defs)
qed

lemma write_each_total:
  "sessions_ok v \<Longrightarrow> \<exists>w. write_each sids m v = Some w \<and> sessions_ok w \<and> same_structure v w"
proof (induction sids arbitrary: v)
  case (Cons sid sids)
  obtain v1 where v1: "session_write sid m v = Some v1" "sessions_ok v1" "same_structure v v1"
    using session_write_total [OF Cons.prems] by blast
  with Cons.IH [OF v1(2)] show ?case by (auto intro: same_structure_trans)
qed simp

text \<open>Fields that do not belong to a session's send queue.\<close>

lemma sessions_ok_frame:
  "sessions_ok (v\<lparr>srv_reported := r\<rparr>) = sessions_ok v"
  "sessions_ok (v\<lparr>srv_sessions := ss\<rparr>) = sessions_ok v"
  "sessions_ok (v\<lparr>srv_packets := ps\<rparr>) = sessions_ok v"
  "sessions_ok (v\<lparr>srv_shut := sh\<rparr>) = sessions_ok v"
  by (simp_all add: sessions_ok_def session_ok_def session_inflight_def)

lemma sessions_ok_moves [simp]:
  "sessions_ok (log_report sid st ec v) = sessions_ok v"
  "sessions_ok (erase_session sid v) = sessions_ok v"
  by (simp_all add: log_report_def erase_session_def sessions_ok_frame)

text \<open>
  What calls do to the structure: they take sessions out of the map, each once, and report each
  as disconnected when they do.
\<close>

definition closes :: "session_id list \<Rightarrow> server \<Rightarrow> server \<Rightarrow> bool" where
  "closes xs v w \<longleftrightarrow>
     distinct xs \<and> set xs \<subseteq> set (srv_sessions v) \<and>
     srv_sessions w = filter (\<lambda>s. s \<notin> set xs) (srv_sessions v) \<and>
     srv_reported w = srv_reported v @ map (\<lambda>s. (s, disconnected, 0)) xs \<and>
     count_list (srv_pending w) Accept_op = count_list (srv_pending v) Accept_op \<and>
     (\<forall>sid. count_list (srv_pending w) (Session_read sid) = count_list (srv_pending v) (Session_read sid))"

lemma closes_Nil: "closes [] v w \<longleftrightarrow> same_structure v w"
  by (auto simp: closes_def same_structure_def)

lemma closes_refl [simp]: "closes [] v v"
  by (simp add: closes_Nil)

lemma closes_trans: "closes xs u v \<Longrightarrow> closes ys v w \<Longrightarrow> closes (xs @ ys) u w"
  by (auto simp: closes_def intro!: filter_cong)

lemma closes_one:
  "sid \<in> set (srv_sessions v) \<Longrightarrow>
   closes [sid] v (log_report sid disconnected 0 (erase_session sid (v\<lparr>srv_shut := sh\<rparr>)))"
  by (auto simp: closes_def log_report_def erase_session_def intro!: filter_cong)

definition keeps :: "server \<Rightarrow> server \<Rightarrow> bool" where
  "keeps v w \<longleftrightarrow> (sessions_ok v \<longrightarrow> sessions_ok w \<and> (\<exists>xs. closes xs v w))"

lemma keeps_refl [simp]: "keeps v v"
  using closes_refl unfolding keeps_def by blast

lemma keeps_trans: "keeps u v \<Longrightarrow> keeps v w \<Longrightarrow> keeps u w"
  using closes_trans unfolding keeps_def by blast

lemma session_write_keeps: "session_write sid m v = Some w \<Longrightarrow> keeps v w"
  using session_write_total [of v sid m] unfolding keeps_def by (metis closes_Nil option.inject)

text \<open>
  A relation between states that every write to a session and every round of \<^verbatim>\<open>close\<close> respect is respected
  by all calls, however they are nested.
\<close>

locale call_relation =
  fixes R :: "server \<Rightarrow> server \<Rightarrow> bool"
  assumes refl: "R v v"
    and trans: "R u v \<Longrightarrow> R v w \<Longrightarrow> R u w"
    and write_law: "session_write sid m v = Some w \<Longrightarrow> R v w"
    and leave: "sid \<in> set (srv_sessions v) \<Longrightarrow>
      R v (log_report sid disconnected 0 (erase_session sid (v\<lparr>srv_shut := srv_shut v @ [sid]\<rparr>)))"
begin

lemma write_each: "write_each sids m v = Some w \<Longrightarrow> R v w"
proof (induction sids arbitrary: v)
  case (Cons s sids)
  then obtain v1 where "session_write s m v = Some v1" "write_each sids m v1 = Some w"
    by (auto split: bind_splits)
  with Cons.IH show ?case by (blast intro: trans write_law)
qed (simp add: refl)

lemma writes:
  "server_write_to sid m v = Some (w, found) \<Longrightarrow> R v w"
  "server_write_to_all m v = Some w \<Longrightarrow> R v w"
  "server_write_to_all_except sid m v = Some w \<Longrightarrow> R v w"
  by (auto simp: server_write_to_def server_write_to_all_def server_write_to_all_except_def write_each
      write_law refl split: if_splits)

lemma after_unless_thrown:
  assumes "unless_thrown r f = Some (w, t)" and "\<And>v1 t1. r = Some (v1, t1) \<Longrightarrow> R v v1"
    and "\<And>v1. r = Some (v1, False) \<Longrightarrow> f v1 = Some (w, t) \<Longrightarrow> R v1 w"
  shows "R v w"
  using assms by (auto simp: unless_thrown_Some intro: trans)

lemma calls:
  "server_call u v = Some (w, t) \<Longrightarrow> R v w"
  "server_calls us v = Some (w, t) \<Longrightarrow> R v w"
  "server_close_loop rounds sids v = Some (w, t) \<Longrightarrow> R v w"
proof (induction u v and us v and rounds sids v arbitrary: w t and w t and w t
    rule: server_call_server_calls_server_close_loop.induct)
  case (6 u us v)
  from "6.prems" show ?case
    unfolding server_calls.simps by (rule after_unless_thrown) (use "6.IH" in blast)+
next
  case (8 rounds sid sids v)
  obtain ok cb where r: "first_round rounds = (ok, cb)" by fastforce
  have sid: "sid \<in> set (srv_sessions v)" using "8.prems" by (auto split: if_splits)
  show ?case
  proof (cases "session_close sid ok v")
    case None
    with "8.prems" sid r show ?thesis by (auto simp: refl)
  next
    case (Some v1)
    let ?v = "log_report sid disconnected 0 (erase_session sid v1)"
    have "unless_thrown (server_calls cb ?v) (server_close_loop (tl rounds) sids) = Some (w, t)"
      using "8.prems" sid r Some by simp
    then have "R ?v w"
      by (rule after_unless_thrown) (use "8.IH" [OF _ r [symmetric] HOL.refl Some] sid in blast)+
    moreover have "R v ?v"
      using leave [OF sid] Some by (auto simp: session_close_def split: if_splits)
    ultimately show ?thesis by (rule trans [rotated])
  qed
qed (auto simp: writes refl)

end

interpretation kept: call_relation keeps
proof unfold_locales
  show "sid \<in> set (srv_sessions v) \<Longrightarrow>
      keeps v (log_report sid disconnected 0 (erase_session sid (v\<lparr>srv_shut := srv_shut v @ [sid]\<rparr>)))" for sid v
    using closes_one unfolding keeps_def by (fastforce simp: sessions_ok_frame)
qed (use keeps_trans session_write_keeps in auto)

lemmas calls_keep = kept.calls

lemma last_report_closed:
  "last_report sid (rs @ map (\<lambda>s. (s, disconnected, 0)) xs) =
     (if sid \<in> set xs then Some disconnected else last_report sid rs)"
  by (induction xs rule: rev_induct) (auto simp flip: append_assoc)

lemma last_report_announced:
  "last_report sid (rs @ (s, st, ec) # map (\<lambda>s. (s, disconnected, 0)) xs) =
     (if sid \<in> set xs then Some disconnected else if s = sid then Some st else last_report sid rs)"
  using last_report_closed [of sid "rs @ [(s, st, ec)]" xs] by simp

lemma closes_structure: "closes xs v w \<Longrightarrow> structure_ok v \<Longrightarrow> structure_ok w"
  by (auto simp: closes_def structure_ok_def last_report_closed)

definition server_inv :: "server \<Rightarrow> bool" where
  "server_inv v \<longleftrightarrow> sessions_ok v \<and> structure_ok v"

lemma keeps_inv: "keeps v w \<Longrightarrow> server_inv v \<Longrightarrow> server_inv w"
  by (auto simp: keeps_def server_inv_def intro: closes_structure)

text \<open>
  Leaving: \<open>almost_ok sid v\<close> is the structure but for what it says of \<open>sid\<close>, which is on its way
  out.
\<close>

definition almost_ok :: "session_id \<Rightarrow> server \<Rightarrow> bool" where
  "almost_ok sid v \<longleftrightarrow> structure_ok (erase_session sid v)"

lemma structure_almost: "structure_ok v \<Longrightarrow> almost_ok sid v"
  by (auto simp: almost_ok_def structure_ok_def erase_session_def)

lemma report_erased:
  "structure_ok (erase_session sid v) \<Longrightarrow> structure_ok (log_report sid st ec (erase_session sid v))"
  by (auto simp: structure_ok_def log_report_def erase_session_def)

lemma leave_inv:
  assumes "server_leave cb sid ec v = Some (w, t)" and "sessions_ok v" and "almost_ok sid v"
  shows "server_inv w"
  using keeps_inv [OF calls_keep(2)] assms report_erased
  by (auto simp: server_leave_def server_connection_handler_def server_inv_def almost_ok_def)

section \<open>Calls that are safe\<close>

text \<open>
  Calls that do not close the server always succeed; and \<^verbatim>\<open>close\<close> does not run into its own
  iterator when the callbacks in its loop make no others than these.
\<close>

fun plain_call :: "server_api \<Rightarrow> bool" where
  "plain_call (Call_close rounds) = False" | "plain_call _ = True"

definition plain_rounds :: "(bool \<times> server_api list) list \<Rightarrow> bool" where
  "plain_rounds rounds \<longleftrightarrow> (\<forall>(ok, cb) \<in> set rounds. list_all plain_call cb)"

definition all_shut :: "(bool \<times> server_api list) list \<Rightarrow> bool" where
  "all_shut rounds \<longleftrightarrow> (\<forall>(ok, cb) \<in> set rounds. ok)"

fun safe_call :: "server_api \<Rightarrow> bool" where
  "safe_call (Call_close rounds) = (plain_rounds rounds \<and> all_shut rounds)" | "safe_call _ = True"

lemma plain_call_total:
  "plain_call u \<Longrightarrow> sessions_ok v \<Longrightarrow>
   \<exists>w. server_call u v = Some (w, False) \<and> sessions_ok w \<and> same_structure v w"
  using session_write_total [of v] write_each_total [of v]
  by (cases u) (fastforce simp: server_write_to_def server_write_to_all_def
      server_write_to_all_except_def)+

lemma plain_calls_total:
  "list_all plain_call cb \<Longrightarrow> sessions_ok v \<Longrightarrow>
   \<exists>w. server_calls cb v = Some (w, False) \<and> sessions_ok w \<and> same_structure v w"
proof (induction cb arbitrary: v)
  case (Cons u cb)
  obtain v1 where v1: "server_call u v = Some (v1, False)" "sessions_ok v1" "same_structure v v1"
    using plain_call_total [of u v] Cons.prems by auto
  with Cons.IH [OF _ v1(2)] Cons.prems show ?case by (auto intro: same_structure_trans)
qed simp

lemma plain_rounds_simps:
  "plain_rounds rounds \<Longrightarrow> list_all plain_call (snd (first_round rounds))"
  "plain_rounds rounds \<Longrightarrow> plain_rounds (tl rounds)"
  by (cases rounds; auto simp: plain_rounds_def first_round_def)+

text \<open>
  \<^verbatim>\<open>close\<close>: it ends normally exactly when every session can be shut down, and then it has
  removed the sessions it was given and reported each of them.
\<close>

lemma close_loop_total:
  "sessions_ok v \<Longrightarrow> distinct sids \<Longrightarrow> set sids \<subseteq> set (srv_sessions v) \<Longrightarrow> plain_rounds rounds \<Longrightarrow>
   \<exists>w t. server_close_loop rounds sids v = Some (w, t) \<and> sessions_ok w \<and>
     (t \<longleftrightarrow> \<not> all_shut (take (length sids) rounds)) \<and> (\<not> t \<longrightarrow> closes sids v w)"
proof (induction sids arbitrary: v rounds)
  case (Cons sid sids)
  have sid: "sid \<in> set (srv_sessions v)" using Cons.prems(3) by simp
  have shut: "all_shut (take (length (sid # sids)) rounds) \<longleftrightarrow>
      fst (first_round rounds) \<and> all_shut (take (length sids) (tl rounds))"
    by (cases rounds) (auto simp: all_shut_def first_round_def)
  show ?case
  proof (cases "fst (first_round rounds)")
    case True
    let ?v1 = "v\<lparr>srv_shut := srv_shut v @ [sid]\<rparr>"
    let ?v = "log_report sid disconnected 0 (erase_session sid ?v1)"
    obtain v2 where v2: "server_calls (snd (first_round rounds)) ?v = Some (v2, False)" "sessions_ok v2"
        "same_structure ?v v2"
      using plain_calls_total [OF plain_rounds_simps(1) [OF Cons.prems(4)], of ?v] Cons.prems(1)
      by (auto simp: sessions_ok_frame)
    then have c: "closes [sid] v v2"
      using closes_trans [OF closes_one [OF sid]] by (fastforce simp flip: closes_Nil)
    then have "set sids \<subseteq> set (srv_sessions v2)" using Cons.prems(2,3) by (auto simp: closes_def)
    from Cons.IH [OF v2(2) _ this plain_rounds_simps(2) [OF Cons.prems(4)]] Cons.prems(2)
    obtain w t where w: "server_close_loop (tl rounds) sids v2 = Some (w, t)" "sessions_ok w"
        "t \<longleftrightarrow> \<not> all_shut (take (length sids) (tl rounds))" "\<not> t \<longrightarrow> closes sids v2 w" by auto
    have "server_close_loop rounds (sid # sids) v = Some (w, t)"
      using v2(1) w(1) True sid
      by (simp only: server_close_loop_Cons)
        (simp add: session_close_def server_leave_def server_connection_handler_def)
    with w shut True closes_trans [OF c] show ?thesis by auto
  next
    case False
    with sid have "server_close_loop rounds (sid # sids) v = Some (v, True)"
      by (simp only: server_close_loop_Cons) (simp add: session_close_def)
    with False shut Cons.prems(1) show ?thesis by blast
  qed
qed (auto simp: all_shut_def)

lemma all_shut_take: "all_shut rounds \<Longrightarrow> all_shut (take n rounds)"
  by (auto simp: all_shut_def dest: in_set_takeD)

lemma safe_call_total:
  assumes "safe_call u" and "sessions_ok v" and "distinct (srv_sessions v)"
  shows "\<exists>w. server_call u v = Some (w, False)"
proof (cases "plain_call u")
  case True
  with plain_call_total assms(2) show ?thesis by blast
next
  case False
  then obtain rounds where "u = Call_close rounds" by (cases u) auto
  with close_loop_total [OF assms(2,3) order_refl, of rounds] assms(1) all_shut_take show ?thesis by auto
qed

lemma safe_calls_total:
  "list_all safe_call cb \<Longrightarrow> sessions_ok v \<Longrightarrow> distinct (srv_sessions v) \<Longrightarrow>
   \<exists>w. server_calls cb v = Some (w, False)"
proof (induction cb arbitrary: v)
  case (Cons u cb)
  obtain v1 where v1: "server_call u v = Some (v1, False)"
    using safe_call_total [of u v] Cons.prems by auto
  then have "sessions_ok v1" "distinct (srv_sessions v1)"
    using calls_keep(1) [OF v1] Cons.prems by (auto simp: keeps_def closes_def)
  with Cons.IH [of v1] Cons.prems v1 show ?case by auto
qed simp

section \<open>Every step keeps the invariant\<close>

lemma handled_Some: "handled r = Some w \<longleftrightarrow> r = Some (w, False)"
  by (auto simp: handled_def split: option.splits bool.splits)

lemma inflight_finish: "session_inflight sid (server_finish i v) =
    written_chunks (without_nth i (map (as_net sid) (srv_pending v)))"
  by (simp add: server_defs without_nth_map)

lemma session_finish_write:
  assumes "session_ok sid v" and "i < length (srv_pending v)" and "srv_pending v ! i = Session_write sid m"
  shows "session_inflight sid (server_finish i v) = []" and "\<exists>q. s_sending (srv_objects v sid) = m # q"
  using write_op_front [of "map (as_net sid) (srv_pending v)" "s_sending (srv_objects v sid)" i 0 m] assms
  unfolding inflight_finish by (simp_all add: session_ok_def session_inflight_def)

lemma finish_other:
  assumes "i < length (srv_pending v)" and "\<not> is_write_of sid (srv_pending v ! i)"
  shows "session_inflight sid (server_finish i v) = session_inflight sid v"
proof -
  have "\<not> (\<exists>s m. map (as_net sid) (srv_pending v) ! i = Write_op s m)"
    using assms by (cases "srv_pending v ! i") auto
  then show ?thesis
    unfolding inflight_finish using written_without(1) [of i "map (as_net sid) (srv_pending v)"] assms(1)
    by (simp add: session_inflight_def)
qed

lemma sessions_ok_finish:
  assumes "sessions_ok v" and "i < length (srv_pending v)"
  shows "sessions_ok (server_finish i v)"
proof -
  have "session_inflight sid (server_finish i v) = [] \<or>
      session_inflight sid (server_finish i v) = session_inflight sid v" for sid
  proof (cases "is_write_of sid (srv_pending v ! i)")
    case True
    then obtain m where "srv_pending v ! i = Session_write sid m" by (cases "srv_pending v ! i") auto
    with session_finish_write(1) [of sid v i m] assms show ?thesis by (simp add: sessions_ok_def)
  next
    case False
    with finish_other [OF assms(2)] show ?thesis by simp
  qed
  moreover have "srv_objects (server_finish i v) = srv_objects v" by (simp add: server_finish_def)
  ultimately show ?thesis
    using assms(1) unfolding sessions_ok_def session_ok_def by metis
qed

lemma count_finish:
  "i < length (srv_pending v) \<Longrightarrow> count_list (srv_pending (server_finish i v)) op =
     count_list (srv_pending v) op - (if srv_pending v ! i = op then 1 else 0)"
  by (simp add: server_finish_def count_without_nth)

lemma finish_sel [simp]:
  "srv_sessions (server_finish i v) = srv_sessions v" "srv_reported (server_finish i v) = srv_reported v"
  "srv_objects (server_finish i v) = srv_objects v"
  by (simp_all add: server_finish_def)

lemma unused_inflight: "unused sid v \<Longrightarrow> session_inflight sid v = [] \<and>
    count_list (srv_pending v) (Session_read sid) = 0"
proof -
  assume "unused sid v"
  then have none: "\<not> op_of sid op" if "op \<in> set (srv_pending v)" for op
    using that by (simp add: unused_def)
  moreover have "is_write_of sid op \<Longrightarrow> op_of sid op" for op by (cases op) auto
  ultimately have "\<forall>op \<in> set (srv_pending v). \<not> is_write_of sid op" by blast
  moreover have "Session_read sid \<notin> set (srv_pending v)" using none by fastforce
  ultimately show ?thesis
    by (simp add: session_inflight_def written_as_net_Nil count_list_0_iff)
qed


text \<open>What an accept leaves: the new session is in the map, is read, and has been reported.\<close>

lemma accepted_inv:
  assumes "structure_ok v" and "i < length (srv_pending v)" "srv_pending v ! i = Accept_op" and new: "unused sid v"
    and ok: "sessions_ok w" and c: "closes xs (log_report sid connected ec (upd_session sid f (server_finish i v))) w"
  shows "server_inv (server_do_accept (session_start sid (w\<lparr>srv_sessions := srv_sessions w @ [sid]\<rparr>)))"
    (is "server_inv ?w")
proof -
  have sid: "sid \<notin> set xs" "sid \<notin> set (srv_sessions v)" "sid \<noteq> session_none"
    using c new by (auto simp: closes_def log_report_def upd_session_def unused_def)
  have "sessions_ok ?w"
    using ok by (simp add: sessions_ok_def session_ok_def server_defs)
  moreover have "structure_ok ?w"
    using assms(1) c sid unused_inflight [OF new] assms(2,3) count_finish [OF assms(2)]
    by (auto simp: structure_ok_def closes_def server_defs log_report_def last_report_announced)
  ultimately show ?thesis by (simp add: server_inv_def)
qed

lemma sessions_ok_accept:
  assumes "sessions_ok v" and "i < length (srv_pending v)" "srv_pending v ! i = Accept_op" and "unused sid v"
  shows "sessions_ok (upd_session sid (\<lambda>_. session_new) (server_finish i v))"
proof -
  have "session_inflight sid (server_finish i v) = []"
    using unused_inflight [OF assms(4)] finish_other [OF assms(2), of sid] assms(3) by simp
  then show ?thesis
    using sessions_ok_finish [OF assms(1,2)]
    by (auto simp: sessions_ok_def session_ok_def upd_session_def session_new_def session_inflight_def)
qed

lemma accept_inv:
  assumes inv: "server_inv v" and i: "i < length (srv_pending v)" "srv_pending v ! i = Accept_op"
    and new: "unused sid v" and r: "server_handle_accept cb ec sid (server_finish i v) = Some (w, t)" "\<not> t"
  shows "server_inv w"
proof (cases "ec = 0")
  case True
  let ?v1 = "upd_session sid (\<lambda>_. session_new) (server_finish i v)"
  from r True obtain w0 where w0: "server_calls cb (log_report sid connected ec ?v1) = Some (w0, False)"
      "w = server_do_accept (session_start sid (w0\<lparr>srv_sessions := srv_sessions w0 @ [sid]\<rparr>))"
    by (auto simp: server_handle_accept_def server_connection_handler_def unless_thrown_Some Let_def)
  with calls_keep(2) [OF w0(1)] sessions_ok_accept [OF _ i new] inv
  obtain xs where "sessions_ok w0" "closes xs (log_report sid connected ec ?v1) w0"
    by (auto simp: keeps_def server_inv_def)
  with accepted_inv [OF _ i new] inv w0(2) show ?thesis by (auto simp: server_inv_def)
next
  case False
  have "sessions_ok (server_do_accept (server_finish i v))"
    using inv sessions_ok_finish [of v i] i
    by (auto simp: server_inv_def sessions_ok_def session_ok_def server_do_accept_def session_inflight_def)
  moreover have "structure_ok (server_do_accept (server_finish i v))"
    using inv i count_finish [OF i(1)]
    by (auto simp: server_inv_def structure_ok_def server_do_accept_def)
  ultimately show ?thesis using False r by (auto simp: server_handle_accept_def server_inv_def)
qed

lemma almost_ok_finish_read:
  assumes "structure_ok v" and "i < length (srv_pending v)" and "srv_pending v ! i = Session_read sid"
  shows "almost_ok sid (server_finish i v)"
  using assms(1) count_finish [OF assms(2)] assms(3)
  by (auto simp: almost_ok_def structure_ok_def erase_session_def intro: le_trans)

lemma structure_finish_write:
  assumes "structure_ok v" and "i < length (srv_pending v)" and "srv_pending v ! i = Session_write sid m"
  shows "structure_ok (server_finish i v)"
  using assms(1) count_finish [OF assms(2)] assms(3) by (auto simp: structure_ok_def)

lemma session_receive_frame:
  assumes "length data \<le> max_buffer_size"
  shows "sessions_ok v \<Longrightarrow> sessions_ok (session_receive sid data v)"
    and "srv_sessions (session_receive sid data v) = srv_sessions v"
    and "srv_reported (session_receive sid data v) = srv_reported v"
    and "srv_pending (session_receive sid data v) = srv_pending v"
  using assms by (auto simp: session_receive_def upd_session_def sessions_ok_def session_ok_def
      session_inflight_def)


lemma read_inv:
  assumes inv: "server_inv v" and i: "i < length (srv_pending v)" "srv_pending v ! i = Session_read sid"
    and data: "length data \<le> max_buffer_size"
    and r: "session_handle_read cb ec n sid (session_receive sid data (server_finish i v)) = Some (w, t)" "\<not> t"
  shows "server_inv w"
proof -
  let ?v = "session_receive sid data (server_finish i v)"
  note frame = session_receive_frame [OF data, where v = "server_finish i v" and sid = sid]
  have st: "structure_ok v" using inv by (simp add: server_inv_def)
  have ok: "sessions_ok ?v"
    using inv sessions_ok_finish [OF _ i(1)] frame(1) by (simp add: server_inv_def)
  show ?thesis
  proof (cases "ec = 0")
    case True
    let ?p = "?v\<lparr>srv_packets := srv_packets ?v @ [(sid, take n (s_received (srv_objects ?v sid)))]\<rparr>"
    from r True obtain w0 where w0: "server_calls cb ?p = Some (w0, False)" "w = session_do_read sid w0"
      by (auto simp: session_handle_read_def unless_thrown_Some)
    with calls_keep(2) [OF w0(1)] ok obtain xs where c: "sessions_ok w0" "closes xs ?p w0"
      by (auto simp: keeps_def sessions_ok_frame)
    have "sessions_ok w"
      using c(1) w0(2) by (simp add: sessions_ok_def session_ok_def server_defs)
    moreover have "structure_ok w"
      using st c(2) w0(2) frame(2-4) count_finish [OF i(1)] i(2)
      by (auto simp: structure_ok_def closes_def session_do_read_def last_report_closed)
    ultimately show ?thesis by (simp add: server_inv_def)
  next
    case False
    have "almost_ok sid ?v"
      using almost_ok_finish_read [OF st i] frame(2-4)
      by (simp add: almost_ok_def structure_ok_def erase_session_def)
    with leave_inv [OF _ ok] False r(1) show ?thesis by (auto simp: session_handle_read_def)
  qed
qed

lemma session_written_inv:
  assumes inv: "server_inv v" and i: "i < length (srv_pending v)" "srv_pending v ! i = Session_write sid m"
  shows "\<exists>w. session_handle_write cb 0 sid (session_log_sent sid m (server_finish i v)) = Some (w, False) \<and>
    server_inv w"
proof -
  have "session_ok sid v" using inv by (simp add: server_inv_def sessions_ok_def)
  then obtain q where q: "s_sending (srv_objects v sid) = m # q"
      and none: "session_inflight sid (server_finish i v) = []"
    using session_finish_write [OF _ i] by blast
  have st: "structure_ok (server_finish i v)" and ok: "sessions_ok (server_finish i v)"
    using structure_finish_write [OF _ i] sessions_ok_finish [OF _ i(1)] inv
    by (simp_all add: server_inv_def)
  from ok have sid: "session_ok s (server_finish i v)" for s by (simp add: sessions_ok_def)
  obtain w where w: "session_handle_write cb 0 sid (session_log_sent sid m (server_finish i v)) = Some (w, False)"
    using q by (cases q) (simp_all add: session_handle_write_def session_log_sent_def upd_session_def
        session_do_write_def)
  then have "session_ok s w" for s
    using sid [of s] q none
    by (cases q; cases "s = sid") (auto simp: session_handle_write_def session_log_sent_def upd_session_def
        session_do_write_def session_ok_def session_inflight_def)
  then have "sessions_ok w" by (simp add: sessions_ok_def)
  moreover have "structure_ok w"
    using w st q
    by (cases q) (auto simp: session_handle_write_def session_log_sent_def upd_session_def
        session_do_write_def structure_ok_def)
  ultimately show ?thesis using w by (simp add: server_inv_def)
qed

lemma session_write_failed_inv:
  assumes inv: "server_inv v" and i: "i < length (srv_pending v)" "srv_pending v ! i = Session_write sid m"
    and ec: "ec \<noteq> 0" and r: "session_handle_write cb ec sid (server_finish i v) = Some (w, t)"
  shows "server_inv w"
proof -
  have "structure_ok (server_finish i v)" and "sessions_ok (server_finish i v)"
    using structure_finish_write [OF _ i] sessions_ok_finish [OF _ i(1)] inv
    by (simp_all add: server_inv_def)
  then show ?thesis
    using leave_inv [OF _ _ structure_almost] ec r by (auto simp: session_handle_write_def)
qed

lemma server_step_inv:
  assumes "server_step cb v (Some w)" and inv: "server_inv v"
  shows "server_inv w"
  using assms(1)
proof cases
  case (user u)
  then obtain t where "server_call u v = Some (w, t)" by (auto simp: map_option_case split: option.splits)
  from keeps_inv [OF calls_keep(1) [OF this] inv] show ?thesis .
next
  case (rehash ss)
  then show ?thesis using inv by (auto simp: server_inv_def sessions_ok_frame structure_ok_def)
next
  case (accept i sid ec)
  then show ?thesis using accept_inv [OF inv] by (simp add: handled_Some [symmetric]) (metis handled_Some)
next
  case (read i sid data ec)
  then show ?thesis using read_inv [OF inv] by (metis handled_Some)
next
  case (written i sid m)
  then show ?thesis using session_written_inv [OF inv] by (metis handled_Some option.inject prod.inject)
next
  case (write_failed i sid m ec)
  then show ?thesis using session_write_failed_inv [OF inv] by (metis handled_Some)
qed

text \<open>With safe callbacks, every step has a result.\<close>

lemma leave_total:
  assumes "list_all safe_call cb" and "sessions_ok v" and "almost_ok sid v"
  shows "\<exists>w. server_leave cb sid ec v = Some (w, False)"
  using safe_calls_total [OF assms(1)] assms(2,3)
  by (simp add: server_leave_def server_connection_handler_def almost_ok_def structure_ok_def log_report_def
      sessions_ok_frame)

lemma server_step_total:
  assumes "server_step cb v r" and "list_all safe_call cb" and inv: "server_inv v"
  shows "r \<noteq> None"
  using assms(1)
proof cases
  case (user u)
  then show ?thesis
    using safe_call_total [of u v] assms(2) inv by (auto simp: server_inv_def structure_ok_def)
next
  case (accept i sid ec)
  let ?v = "log_report sid connected ec (upd_session sid (\<lambda>_. session_new) (server_finish i v))"
  have "sessions_ok ?v" "distinct (srv_sessions ?v)"
    using sessions_ok_accept [OF _ accept(2-4)] inv
    by (simp_all add: server_inv_def structure_ok_def)
      (simp add: log_report_def upd_session_def)
  from safe_calls_total [OF assms(2) this] show ?thesis
    using accept(1) by (auto simp: server_handle_accept_def server_connection_handler_def handled_def Let_def)
next
  case (read i sid data ec)
  let ?v = "session_receive sid data (server_finish i v)"
  note frame = session_receive_frame [OF read(4), where v = "server_finish i v" and sid = sid]
  have ok: "sessions_ok ?v" "almost_ok sid ?v"
    using inv sessions_ok_finish [OF _ read(2)] almost_ok_finish_read [OF _ read(2,3)] frame
    by (simp_all add: server_inv_def almost_ok_def structure_ok_def erase_session_def)
  have "distinct (srv_sessions ?v)" using inv frame(2) by (simp add: server_inv_def structure_ok_def)
  then have "\<exists>w. server_calls cb (?v\<lparr>srv_packets := ps\<rparr>) = Some (w, False)" for ps
    using safe_calls_total [OF assms(2)] ok(1) by (simp add: sessions_ok_frame)
  then have "\<exists>w. session_handle_read cb ec (length data) sid ?v = Some (w, False)"
    using leave_total [OF assms(2) ok, of ec] by (auto simp: session_handle_read_def unless_thrown_Some)
  with read(1) show ?thesis by (auto simp: handled_def)
next
  case (written i sid m)
  then show ?thesis using session_written_inv [OF inv written(2,3), of cb] by (auto simp: handled_def)
next
  case (write_failed i sid m ec)
  have "sessions_ok (server_finish i v)" "almost_ok sid (server_finish i v)"
    using inv sessions_ok_finish [OF _ write_failed(2)]
      structure_almost [OF structure_finish_write [OF _ write_failed(2,3)]]
    by (simp_all add: server_inv_def)
  from leave_total [OF assms(2) this, of ec] write_failed show ?thesis
    by (auto simp: session_handle_write_def handled_def)
qed simp

lemma server_run_inv: "server_run v w \<Longrightarrow> server_inv v \<Longrightarrow> server_inv w"
  by (induction rule: server_run.induct) (auto intro: server_step_inv)

lemma server_new_inv: "server_inv (server_new p)"
  by (simp add: server_inv_def sessions_ok_def session_ok_def structure_ok_def server_new_def
      server_do_accept_def session_new_def session_inflight_def)

lemmas server_reachable_inv = server_run_inv [OF _ server_new_inv]

end
