(* ===== verification/Tcp_Server_Properties.thy ===== *)
theory Tcp_Server_Properties
  imports Tcp_Server
begin

text \<open>
  What the TCP server promises, for every sequence of connections, reads, writes, failures
  and calls, and three of its habits a user has to know: a session that \<^verbatim>\<open>close\<close> has reported is reported
  again, \<^verbatim>\<open>close\<close> must not be called from the callbacks that \<^verbatim>\<open>close\<close> itself makes, and a session cannot be
  written to from the callback that announces it.
\<close>

section \<open>Writing to several sessions\<close>

abbreviation sending_of :: "session_id \<Rightarrow> server \<Rightarrow> chunk list" where
  "sending_of sid v \<equiv> s_sending (srv_objects v sid)"

lemma session_write_sending:
  "session_write sid m v = Some w \<Longrightarrow>
   sending_of s w = (if s = sid then sending_of s v @ [m] else sending_of s v)"
  by (auto simp: server_defs Let_def split: if_splits list.splits)

lemma write_each_sending:
  "distinct sids \<Longrightarrow> write_each sids m v = Some w \<Longrightarrow>
   sending_of s w = (if s \<in> set sids then sending_of s v @ [m] else sending_of s v)"
proof (induction sids arbitrary: v)
  case (Cons sid sids)
  from Cons.prems(2) obtain v1 where v1: "session_write sid m v = Some v1" "write_each sids m v1 = Some w"
    by (auto split: bind_splits)
  with Cons.IH [OF _ v1(2)] Cons.prems(1) session_write_sending [OF v1(1), of s] show ?case by auto
qed simp

section \<open>A concrete server\<close>

text \<open>For the witnesses: two clients connect, and the user writes to both.\<close>

definition demo_one :: server where
  "demo_one = the (handled (server_handle_accept [] 0 16 (server_finish 0 (server_new 80))))"

definition demo_two :: server where
  "demo_two = the (handled (server_handle_accept [] 0 32 (server_finish 1 demo_one)))"

definition demo_sent :: server where
  "demo_sent = the (server_write_to_all [7] demo_two)"

lemmas demo_srv_defs = demo_one_def demo_two_def demo_sent_def server_handle_accept_def
  server_connection_handler_def server_new_def server_write_to_all_def without_nth_def
  session_new_def log_report_def handled_def server_defs

lemma demo_srv_steps:
  "server_step [] (server_new 80) (Some demo_one)"
  "server_step [] demo_one (Some demo_two)"
  "server_step [Call_write_to_all [7]] demo_two (Some demo_sent)"
proof -
  have new: "unused 16 (server_new 80)"
    by (simp add: unused_def server_new_def server_do_accept_def session_none_def)
  show "server_step [] (server_new 80) (Some demo_one)"
    using server_step.accept [OF _ _ new, of 0 "[]" 0] by (simp add: demo_srv_defs)
  have new: "unused 32 demo_one"
    by (simp add: unused_def session_none_def demo_srv_defs)
  show "server_step [] demo_one (Some demo_two)"
    using server_step.accept [OF _ _ new, of 1 "[]" 0] by (simp add: demo_srv_defs)
  show "server_step [Call_write_to_all [7]] demo_two (Some demo_sent)"
    using server_step.user [of "Call_write_to_all [7]" demo_two] by (simp add: demo_srv_defs)
qed

lemma demo_srv_run: "server_run (server_new 80) demo_two" "server_run (server_new 80) demo_sent"
  using demo_srv_steps by (meson server_run.intros)+

section \<open>Properties\<close>



text \<open>C18: The server is always accepting, with exactly one outstanding accept; the sessions in
  the map are distinct, none has the reserved identity, each has exactly one outstanding
  read, and the last thing the user heard of it is that it is connected.\<close>

theorem server_sessions_alive:
  assumes "server_run (server_new p) v"
  shows "count_list (srv_pending v) Accept_op = 1 \<and> distinct (srv_sessions v) \<and>
    session_none \<notin> set (srv_sessions v) \<and>
    (\<forall>sid \<in> set (srv_sessions v). count_list (srv_pending v) (Session_read sid) = 1 \<and>
       last_report sid (srv_reported v) = Some connected)"
  using server_reachable_inv [OF assms] by (simp add: server_inv_def structure_ok_def)

theorem server_sessions_alive_witness:
  "srv_sessions demo_sent = [16, 32] \<and> count_list (srv_pending demo_sent) Accept_op = 1 \<and>
   last_report 16 (srv_reported demo_sent) = Some connected"
  using server_sessions_alive [OF demo_srv_run(2)] by (simp add: demo_srv_defs)

text \<open>C19: Writing reaches exactly the sessions it should: \<^verbatim>\<open>write_to\<close> returns whether the session is
  in the map and appends the chunk to its queue alone; \<^verbatim>\<open>write_to_all\<close> appends it to the queue of every
  session in the map, and \<^verbatim>\<open>write_to_all_except\<close> to all of these but the one given.\<close>

theorem server_writes_reach:
  assumes "server_run (server_new p) v"
  shows "(\<exists>w. server_write_to sid m v = Some (w, sid \<in> set (srv_sessions v)) \<and>
      (\<forall>s. sending_of s w = sending_of s v @ (if s = sid \<and> s \<in> set (srv_sessions v) then [m] else []))) \<and>
    (\<exists>w. server_write_to_all m v = Some w \<and>
      (\<forall>s. sending_of s w = sending_of s v @ (if s \<in> set (srv_sessions v) then [m] else []))) \<and>
    (\<exists>w. server_write_to_all_except sid m v = Some w \<and>
      (\<forall>s. sending_of s w = sending_of s v @ (if s \<noteq> sid \<and> s \<in> set (srv_sessions v) then [m] else [])))"
proof -
  have ok: "sessions_ok v" and dist: "distinct (srv_sessions v)"
    using server_reachable_inv [OF assms] by (simp_all add: server_inv_def structure_ok_def)
  obtain w1 where w1: "session_write sid m v = Some w1" using session_write_total [OF ok] by blast
  obtain w2 where w2: "write_each (srv_sessions v) m v = Some w2" using write_each_total [OF ok] by blast
  obtain w3 where w3: "write_each (filter (\<lambda>s. sid \<noteq> s) (srv_sessions v)) m v = Some w3"
    using write_each_total [OF ok] by blast
  show ?thesis
    using session_write_sending [OF w1] write_each_sending [OF dist w2]
      write_each_sending [OF distinct_filter [OF dist] w3] w1 w2 w3
    by (simp add: server_write_to_def server_write_to_all_def server_write_to_all_except_def) blast
qed

theorem server_writes_reach_witness:
  "\<exists>w. server_write_to_all_except 16 [9] demo_two = Some w \<and>
     sending_of 16 w = [] \<and> sending_of 32 w = [[9]]"
  using server_writes_reach [OF demo_srv_run(1), of 16 "[9]"]
  by (elim conjE exE) (auto simp: demo_srv_defs)

text \<open>C20: \<^verbatim>\<open>close\<close> comes to an end after one round for each session, as long as the callbacks it makes do
  not close the server again: it throws if one of the sessions cannot be shut down, and otherwise
  leaves the map empty and has reported each session as disconnected, once and in the order of the
  map. And whatever the callbacks do: if it returns or throws, it has reported no session twice, and
  exactly the sessions reported meanwhile are gone from the map.\<close>

theorem server_close_reports_all:
  assumes "server_run (server_new p) v"
  shows "(plain_rounds rounds \<longrightarrow>
      (\<exists>w t. server_close rounds v = Some (w, t) \<and>
        (t \<longleftrightarrow> \<not> all_shut (take (length (srv_sessions v)) rounds)) \<and>
        (\<not> t \<longrightarrow> srv_sessions w = [] \<and>
          srv_reported w = srv_reported v @ map (\<lambda>sid. (sid, disconnected, 0)) (srv_sessions v)))) \<and>
    (\<forall>w t. server_close rounds v = Some (w, t) \<longrightarrow>
      (\<exists>gone. distinct gone \<and> set gone \<subseteq> set (srv_sessions v) \<and>
        srv_sessions w = filter (\<lambda>sid. sid \<notin> set gone) (srv_sessions v) \<and>
        srv_reported w = srv_reported v @ map (\<lambda>sid. (sid, disconnected, 0)) gone))"
proof (intro conjI impI allI)
  have ok: "sessions_ok v" "distinct (srv_sessions v)"
    using server_reachable_inv [OF assms] by (simp_all add: server_inv_def structure_ok_def)
  show "\<exists>w t. server_close rounds v = Some (w, t) \<and>
      (t \<longleftrightarrow> \<not> all_shut (take (length (srv_sessions v)) rounds)) \<and>
      (\<not> t \<longrightarrow> srv_sessions w = [] \<and>
        srv_reported w = srv_reported v @ map (\<lambda>sid. (sid, disconnected, 0)) (srv_sessions v))"
    if "plain_rounds rounds"
    using close_loop_total [OF ok order_refl that] by (auto simp: server_close_def closes_def)
  show "\<exists>gone. distinct gone \<and> set gone \<subseteq> set (srv_sessions v) \<and>
      srv_sessions w = filter (\<lambda>sid. sid \<notin> set gone) (srv_sessions v) \<and>
      srv_reported w = srv_reported v @ map (\<lambda>sid. (sid, disconnected, 0)) gone"
    if "server_close rounds v = Some (w, t)" for w t
    using calls_keep(3) [of rounds "srv_sessions v" v w t] ok(1) that
    by (auto simp: server_close_def keeps_def closes_def)
qed

theorem server_close_reports_all_witness:
  "\<exists>w. server_close [(True, [Call_write_to_all [1]])] demo_two = Some (w, False) \<and> srv_sessions w = [] \<and>
     (\<exists>gone. distinct gone \<and> srv_reported w = srv_reported demo_two @ map (\<lambda>sid. (sid, disconnected, 0)) gone)"
proof -
  note all = server_close_reports_all [OF demo_srv_run(1), of "[(True, [Call_write_to_all [1]])]"]
  have "plain_rounds [(True, [Call_write_to_all [1]])]" by (simp add: plain_rounds_def)
  with all obtain w where "server_close [(True, [Call_write_to_all [1]])] demo_two = Some (w, False)"
      "srv_sessions w = []"
    by (auto simp: all_shut_def take_Cons split: nat.splits)
  with all show ?thesis by blast
qed

text \<open>C30: \<^verbatim>\<open>close\<close> must not be called from the callback of a \<^verbatim>\<open>close\<close>: with more than one session in the map, a
  connection handler that closes the server when it hears of the first disconnection erases the session
  that the iterator of the outer loop has moved on to, and the behaviour is undefined.\<close>

theorem server_reentrant_close_undefined:
  assumes "server_run (server_new p) v" and "2 \<le> length (srv_sessions v)"
    and "plain_rounds inner" and "all_shut inner"
  shows "server_close ((True, [Call_close inner]) # rounds) v = None"
proof -
  obtain a b sids where v: "srv_sessions v = a # b # sids"
    using assms(2) by (metis Suc_le_length_iff numeral_2_eq_2)
  have ok: "sessions_ok v" "distinct (srv_sessions v)"
    using server_reachable_inv [OF assms(1)] by (simp_all add: server_inv_def structure_ok_def)
  let ?v = "log_report a disconnected 0 (erase_session a (v\<lparr>srv_shut := srv_shut v @ [a]\<rparr>))"
  have s: "srv_sessions ?v = b # sids"
    using v ok(2) by (auto simp: log_report_def erase_session_def filter_id_conv)
  have "sessions_ok ?v" "distinct (srv_sessions ?v)" using ok v s by (simp_all add: sessions_ok_frame)
  from close_loop_total [OF this order_refl assms(3)] all_shut_take [OF assms(4)] s
  obtain w where "server_call (Call_close inner) ?v = Some (w, False)" "srv_sessions w = []"
    by (auto simp: closes_def)
  then show ?thesis
    using v by (simp add: server_close_def first_round_def session_close_def)
qed

theorem server_reentrant_close_undefined_witness:
  "srv_sessions demo_two = [16, 32] \<and> server_close [(True, [Call_close []])] demo_two = None"
  using server_reentrant_close_undefined [OF demo_srv_run(1), of "[]" "[]"]
  by (simp add: plain_rounds_def all_shut_def demo_srv_defs)

text \<open>C29: A session that \<^verbatim>\<open>close\<close> has removed and reported is reported as disconnected a second time: its
  read is still outstanding, and whenever it ends with an error, as it does after the shutdown,
  the handler leaves the server again.\<close>

theorem server_close_reports_twice:
  assumes "server_run (server_new p) v" and "sid \<in> set (srv_sessions v)"
    and "server_close rounds v = Some (w, False)" and "plain_rounds rounds" and "ec \<noteq> 0"
  shows "(sid, disconnected, 0) \<in> set (srv_reported w) \<and>
    (\<exists>x. server_step [] w (Some x) \<and> srv_reported x = srv_reported w @ [(sid, disconnected, ec)])"
proof -
  have inv: "server_inv v" by (rule server_reachable_inv [OF assms(1)])
  then have c: "closes (srv_sessions v) v w"
    using close_loop_total [of v "srv_sessions v" rounds] assms(3,4)
    by (auto simp: server_inv_def structure_ok_def server_close_def)
  have w: "server_inv w" using keeps_inv [OF calls_keep(3) inv] assms(3) by (simp add: server_close_def)
  have "count_list (srv_pending w) (Session_read sid) = 1"
    using c inv assms(2) by (auto simp: closes_def server_inv_def structure_ok_def)
  then have "Session_read sid \<in> set (srv_pending w)"
    by (metis count_list_0_iff zero_neq_one)
  then obtain i where i: "i < length (srv_pending w)" "srv_pending w ! i = Session_read sid"
    by (auto simp: in_set_conv_nth)
  let ?w = "session_receive sid [] (server_finish i w)"
  have "server_step [] w (handled (server_leave [] sid ec ?w))"
    using server_step.read [OF i, of "[]" "[]" ec] assms(5) by (simp add: session_handle_read_def)
  then have "\<exists>x. server_step [] w (Some x) \<and> srv_reported x = srv_reported w @ [(sid, disconnected, ec)]"
    by (auto simp: server_leave_def server_connection_handler_def handled_def log_report_def erase_session_def
        session_receive_frame)
  with c assms(2) show ?thesis by (auto simp: closes_def)
qed

theorem server_close_reports_twice_witness:
  "\<exists>w x. server_close [] demo_two = Some (w, False) \<and> server_step [] w (Some x) \<and>
     srv_reported x = srv_reported w @ [(16, disconnected, 2)]"
proof -
  obtain w where w: "server_close [] demo_two = Some (w, False)"
    by (simp add: server_close_def session_close_def first_round_def erase_session_def demo_srv_defs)
  have "16 \<in> set (srv_sessions demo_two)" by (simp add: demo_srv_defs)
  with server_close_reports_twice [OF demo_srv_run(1) _ w, of 16 2] w show ?thesis
    by (auto simp: plain_rounds_def)
qed

text \<open>A session cannot be written to from the callback that announces it: the session is put in the map
  only after the callback has returned, so there \<^verbatim>\<open>write_to\<close> returns false and the chunk
  is dropped.\<close>

lemma server_announces_before_insert:
  assumes "unused sid v"
  shows "\<exists>w. server_handle_accept [Call_write_to sid m] 0 sid v = Some (w, False) \<and>
    sid \<in> set (srv_sessions w) \<and> sending_of sid w = [] \<and> s_accepted (srv_objects w sid) = []"
  using assms
  by (simp add: server_handle_accept_def server_connection_handler_def server_write_to_def server_defs
      log_report_def unused_def session_new_def)

end
