(* ===== verification/Tcp_Race.thy ===== *)
theory Tcp_Race
  imports Tcp_Server_Properties
begin

text \<open>
  \<^verbatim>\<open>Session::write\<close> runs in the thread of the caller and \<^verbatim>\<open>Session::handle_write\<close> in the thread of the
  \<^verbatim>\<open>io_context_\<close>; unlike the client, the session does not post its writes, and nothing keeps the two apart. Here
  the two run interleaved, one access to \<^verbatim>\<open>sending_messages_\<close> at a time, for any number of threads that call
  \<^verbatim>\<open>write\<close>. (In C++ accesses at the same time are undefined altogether; the steps here are the mildest reading.)

  Kept apart, the two keep what a session promises; interleaved freely, they lose and repeat messages. \<open>r_accepted\<close> and
  \<open>r_sent\<close> are history: the chunks put in the queue and those written successfully.
\<close>

section \<open>Steps\<close>

text \<open>A thread in \<^verbatim>\<open>write\<close>: after \<^verbatim>\<open>write_in_progress\<close> has been computed, and after \<^verbatim>\<open>emplace_back\<close>.\<close>

datatype user_pc = U_idle | U_checked bool chunk | U_pushed bool

text \<open>The thread in \<^verbatim>\<open>handle_write\<close>: before \<^verbatim>\<open>pop_front\<close>, after it, and before \<^verbatim>\<open>do_write\<close>.\<close>

datatype io_pc = I_idle | I_handler | I_popped | I_more

record race =
  r_queue :: "chunk list"
  r_inflight :: "chunk list"
  r_sent :: "chunk list"
  r_accepted :: "chunk list"
  r_users :: "user_pc list"
  r_io :: io_pc

definition set_user :: "nat \<Rightarrow> user_pc \<Rightarrow> race \<Rightarrow> race" where
  "set_user i pc s = s\<lparr>r_users := (r_users s)[i := pc]\<rparr>"

inductive race_step :: "race \<Rightarrow> race \<Rightarrow> bool" where
  write_check: "i < length (r_users s) \<Longrightarrow> r_users s ! i = U_idle \<Longrightarrow>
     race_step s (set_user i (U_checked (r_queue s \<noteq> []) chunk) s)"
| write_push: "i < length (r_users s) \<Longrightarrow> r_users s ! i = U_checked write_in_progress chunk \<Longrightarrow>
     race_step s (set_user i (U_pushed write_in_progress) 
       (s\<lparr>r_queue := r_queue s @ [chunk], r_accepted := r_accepted s @ [chunk]\<rparr>))"
| write_return: "i < length (r_users s) \<Longrightarrow> r_users s ! i = U_pushed True \<Longrightarrow>
     race_step s (set_user i U_idle s)"
| write_start: "i < length (r_users s) \<Longrightarrow> r_users s ! i = U_pushed False \<Longrightarrow> r_queue s = message # q \<Longrightarrow>
     race_step s (set_user i U_idle (s\<lparr>r_inflight := r_inflight s @ [message]\<rparr>))"
| complete: "r_io s = I_idle \<Longrightarrow> r_inflight s = as @ m # bs \<Longrightarrow>
     race_step s (s\<lparr>r_inflight := as @ bs, r_sent := r_sent s @ [m], r_io := I_handler\<rparr>)"
| pop: "r_io s = I_handler \<Longrightarrow> r_queue s = m # q \<Longrightarrow> race_step s (s\<lparr>r_queue := q, r_io := I_popped\<rparr>)"
| check_empty: "r_io s = I_popped \<Longrightarrow> r_queue s = [] \<Longrightarrow> race_step s (s\<lparr>r_io := I_idle\<rparr>)"
| check_more: "r_io s = I_popped \<Longrightarrow> r_queue s \<noteq> [] \<Longrightarrow> race_step s (s\<lparr>r_io := I_more\<rparr>)"
| io_start: "r_io s = I_more \<Longrightarrow> r_queue s = message # q \<Longrightarrow>
     race_step s (s\<lparr>r_inflight := r_inflight s @ [message], r_io := I_idle\<rparr>)"

abbreviation race_run :: "race \<Rightarrow> race \<Rightarrow> bool" where
  "race_run \<equiv> race_step\<^sup>*\<^sup>*"

text \<open>A session of a server, with \<open>k\<close> idle threads.\<close>

definition race_of :: "session_id \<Rightarrow> nat \<Rightarrow> server \<Rightarrow> race" where
  "race_of sid k v =
     \<lparr>r_queue = s_sending (srv_objects v sid), r_inflight = session_inflight sid v,
      r_sent = s_sent (srv_objects v sid), r_accepted = s_accepted (srv_objects v sid), r_users = replicate k U_idle, r_io = I_idle\<rparr>"

section \<open>One after the other\<close>

lemma set_user_sel [simp]:
  "r_queue (set_user i pc s) = r_queue s" "r_inflight (set_user i pc s) = r_inflight s"
  "r_sent (set_user i pc s) = r_sent s" "r_accepted (set_user i pc s) = r_accepted s" "r_io (set_user i pc s) = r_io s"
  "r_users (set_user i pc s) = (r_users s)[i := pc]"
  by (simp_all add: set_user_def)

text \<open>A call of \<^verbatim>\<open>write\<close> that nothing interrupts.\<close>

lemma uninterrupted_write:
  assumes "i < length (r_users s)" and "r_users s ! i = U_idle"
  shows "race_run s (s\<lparr>r_queue := r_queue s @ [m], r_accepted := r_accepted s @ [m],
    r_inflight := r_inflight s @ (if r_queue s = [] then [m] else [])\<rparr>)"
proof -
  let ?t = "set_user i (U_checked (r_queue s \<noteq> []) m) s"
  let ?u = "set_user i (U_pushed (r_queue s \<noteq> [])) (?t\<lparr>r_queue := r_queue ?t @ [m], r_accepted := r_accepted ?t @ [m]\<rparr>)"
  have 1: "race_step s ?t" by (rule race_step.write_check [OF assms])
  have 2: "race_step ?t ?u" using assms(1) by (intro race_step.write_push) simp_all
  have same: "(r_users s)[i := U_idle] = r_users s" using assms by (metis list_update_id)
  have "race_step ?u (s\<lparr>r_queue := r_queue s @ [m], r_accepted := r_accepted s @ [m],
      r_inflight := r_inflight s @ (if r_queue s = [] then [m] else [])\<rparr>)"
  proof (cases "r_queue s")
    case Nil
    then show ?thesis
      using race_step.write_start [of i ?u m "[]"] assms(1) same by (simp add: set_user_def)
  next
    case Cons
    then show ?thesis
      using race_step.write_return [of i ?u] assms(1) same by (simp add: set_user_def)
  qed
  with 1 2 show ?thesis by (meson rtranclp.intros)
qed

text \<open>
  The runs in which the two are kept apart, as a mutex around them would: in every state at most one thread is
  inside \<^verbatim>\<open>write\<close> or the handler.
\<close>

definition alone :: "race \<Rightarrow> bool" where
  "alone s \<longleftrightarrow>
     (\<forall>i < length (r_users s). \<forall>j < length (r_users s).
        r_users s ! i \<noteq> U_idle \<longrightarrow> r_users s ! j \<noteq> U_idle \<longrightarrow> i = j) \<and>
     (r_io s \<noteq> I_idle \<longrightarrow> (\<forall>i < length (r_users s). r_users s ! i = U_idle))"

abbreviation alone_run :: "race \<Rightarrow> race \<Rightarrow> bool" where
  "alone_run \<equiv> (\<lambda>s t. race_step s t \<and> alone t)\<^sup>*\<^sup>*"

text \<open>
  What holds while a thread is inside \<^verbatim>\<open>write\<close>, and while the handler runs. Until the handler has taken the message off the
  queue, it counts as sent and is still the first one queued.
\<close>

fun user_ok :: "race \<Rightarrow> user_pc \<Rightarrow> bool" where
  "user_ok s U_idle = True"
| "user_ok s (U_checked b m) = (b = (r_queue s \<noteq> []) \<and> r_inflight s = take 1 (r_queue s))"
| "user_ok s (U_pushed True) = (r_queue s \<noteq> [] \<and> r_inflight s = take 1 (r_queue s))"
| "user_ok s (U_pushed False) = (length (r_queue s) = 1 \<and> r_inflight s = [])"

fun io_ok :: "race \<Rightarrow> io_pc \<Rightarrow> bool" where
  "io_ok s I_idle = True"
| "io_ok s I_handler = (r_queue s \<noteq> [] \<and> r_inflight s = [] \<and> r_accepted s = r_sent s @ tl (r_queue s))"
| "io_ok s I_popped = (r_inflight s = [])"
| "io_ok s I_more = (r_queue s \<noteq> [] \<and> r_inflight s = [])"

definition nobody_inside :: "race \<Rightarrow> bool" where
  "nobody_inside s \<longleftrightarrow> (\<forall>i < length (r_users s). r_users s ! i = U_idle) \<and> r_io s = I_idle"

definition alone_inv :: "race \<Rightarrow> bool" where
  "alone_inv s \<longleftrightarrow> alone s \<and> (\<forall>i < length (r_users s). user_ok s (r_users s ! i)) \<and> io_ok s (r_io s) \<and>
     (nobody_inside s \<longrightarrow> r_inflight s = take 1 (r_queue s)) \<and>
     (r_io s \<noteq> I_handler \<longrightarrow> r_accepted s = r_sent s @ r_queue s)"

lemma user_ok_cong:
  "r_queue t = r_queue s \<Longrightarrow> r_inflight t = r_inflight s \<Longrightarrow> user_ok t u = user_ok s u"
  by (cases "(s, u)" rule: user_ok.cases) simp_all

text \<open>A thread whose place changes is the only one inside, before and after.\<close>

lemma alone_others:
  assumes "alone s" and "i < length (r_users s)" and "r_users s ! i \<noteq> U_idle"
  shows "r_io s = I_idle" and "j < length (r_users s) \<Longrightarrow> j \<noteq> i \<Longrightarrow> r_users s ! j = U_idle"
  using assms unfolding alone_def by blast+

lemma alone_io:
  assumes "alone s" and "r_io s \<noteq> I_idle" and "j < length (r_users s)"
  shows "r_users s ! j = U_idle"
  using assms unfolding alone_def by blast

lemma alone_step_inv:
  assumes "race_step s t" and "alone t" and inv: "alone_inv s"
  shows "alone_inv t"
  using assms(1)
proof cases
  case (write_check i chunk)
  have i: "i < length (r_users t)" "r_users t ! i \<noteq> U_idle" using write_check by simp_all
  note t = alone_others [OF assms(2) i]
  have users: "r_users t = (r_users s)[i := U_checked (r_queue s \<noteq> []) chunk]" using write_check(1) by simp
  have "r_users s ! j = U_idle" if "j < length (r_users s)" for j
  proof (cases "j = i")
    case False
    with that t(2) [of j] show ?thesis unfolding users by simp
  qed (simp add: write_check(3))
  then have "nobody_inside s" using t(1) write_check(1) by (simp add: nobody_inside_def)
  with inv have s: "r_inflight s = take 1 (r_queue s)" "r_accepted s = r_sent s @ r_queue s"
    by (auto simp: alone_inv_def nobody_inside_def)
  have "user_ok t (r_users t ! j)" if "j < length (r_users t)" for j
    using t(2) [OF that] s write_check by (cases "j = i") simp_all
  moreover have "\<not> nobody_inside t" using i by (auto simp: nobody_inside_def)
  ultimately show ?thesis using assms(2) s t(1) write_check(1) by (simp add: alone_inv_def)
next
  case (write_push i b chunk)
  have i: "i < length (r_users t)" "r_users t ! i \<noteq> U_idle" using write_push by simp_all
  note t = alone_others [OF assms(2) i]
  have "user_ok s (U_checked b chunk)" using inv write_push(2,3) by (metis alone_inv_def)
  moreover have "r_accepted s = r_sent s @ r_queue s" using inv t(1) write_push(1) by (simp add: alone_inv_def)
  ultimately have t': "user_ok t (U_pushed b)" "r_accepted t = r_sent t @ r_queue t"
    using write_push(1) by (cases b; cases "r_queue s"; simp)+
  have "user_ok t (r_users t ! j)" if "j < length (r_users t)" for j
    using t(2) [OF that] t'(1) write_push(1,2) by (cases "j = i") simp_all
  moreover have "\<not> nobody_inside t" using i by (auto simp: nobody_inside_def)
  ultimately show ?thesis using assms(2) t' t(1) by (simp add: alone_inv_def)
next
  case (write_return i)
  have s: "alone s" "user_ok s (U_pushed True)" using inv write_return(2,3) by (metis alone_inv_def)+
  note o = alone_others [OF s(1) write_return(2)]
  have idle: "r_users t ! j = U_idle" if "j < length (r_users t)" for j
    using o(2) [of j] that write_return by (cases "j = i") simp_all
  have "r_io s = I_idle" using o(1) write_return(3) by simp
  then show ?thesis using assms(2) idle inv s(2) write_return(1) by (simp add: alone_inv_def)
next
  case (write_start i message q)
  have s: "alone s" "user_ok s (U_pushed False)" using inv write_start(2,3) by (metis alone_inv_def)+
  note o = alone_others [OF s(1) write_start(2)]
  have idle: "r_users t ! j = U_idle" if "j < length (r_users t)" for j
    using o(2) [of j] that write_start by (cases "j = i") simp_all
  have "r_io s = I_idle" using o(1) write_start(3) by simp
  then show ?thesis using assms(2) idle inv s(2) write_start(1,4) by (simp add: alone_inv_def)
next
  case (complete as m bs)
  have idle: "r_users s ! j = U_idle" if "j < length (r_users s)" for j
    using alone_io [OF assms(2), of j] that complete(1) by simp
  with inv complete(2) have "r_inflight s = take 1 (r_queue s)" "r_accepted s = r_sent s @ r_queue s"
    by (auto simp: alone_inv_def nobody_inside_def)
  with complete(3) have "\<exists>q. r_queue s = m # q \<and> as @ bs = [] \<and> r_accepted s = r_sent s @ m # q"
    by (cases "r_queue s") (auto simp: Cons_eq_append_conv)
  then show ?thesis using assms(2) idle complete(1) by (auto simp: alone_inv_def nobody_inside_def)
next
  case (pop m q)
  have idle: "r_users s ! j = U_idle" if "j < length (r_users s)" for j
    using alone_io [OF assms(2), of j] that pop(1) by simp
  then show ?thesis using assms(2) inv pop by (auto simp: alone_inv_def nobody_inside_def)
next
  case check_empty
  have "alone s" using inv by (simp add: alone_inv_def)
  with alone_io [OF this] check_empty assms(2) inv show ?thesis by (auto simp: alone_inv_def nobody_inside_def)
next
  case check_more
  have idle: "r_users s ! j = U_idle" if "j < length (r_users s)" for j
    using alone_io [OF assms(2), of j] that check_more(1) by simp
  then show ?thesis using assms(2) inv check_more by (auto simp: alone_inv_def nobody_inside_def)
next
  case (io_start message q)
  have "alone s" using inv by (simp add: alone_inv_def)
  with alone_io [OF this] io_start assms(2) inv show ?thesis by (auto simp: alone_inv_def nobody_inside_def)
qed

lemma alone_more: "alone_run s t \<Longrightarrow> race_step t u \<Longrightarrow> alone u \<Longrightarrow> alone_run s u"
  by (rule rtranclp.rtrancl_into_rtrancl) simp_all

lemma alone_run_inv: "alone_run s t \<Longrightarrow> alone_inv s \<Longrightarrow> alone_inv t"
  by (induction rule: rtranclp_induct) (auto intro: alone_step_inv)

lemma alone_inv_of:
  assumes "server_run (server_new p) v" and "session_inflight sid v = take 1 (s_sending (srv_objects v sid))"
  shows "alone_inv (race_of sid k v)"
proof -
  have "session_ok sid v" using server_reachable_inv [OF assms(1)] by (simp add: server_inv_def sessions_ok_def)
  with assms(2) show ?thesis by (simp add: alone_inv_def alone_def race_of_def session_ok_def)
qed

text \<open>C25: If \<^verbatim>\<open>write\<close> and the handler were kept apart, as by a mutex, a session would keep what it promises, with any
  number of threads that call \<^verbatim>\<open>write\<close> and as long as no write fails: \<^verbatim>\<open>front\<close> and \<^verbatim>\<open>pop_front\<close> are never called on an empty
  queue, never more than one write is outstanding, and whenever no thread is inside the two functions, the
  chunks accepted are those sent and then those queued, in order, with the write of the first queued one
  outstanding. (Left to interleave freely they keep none of this, as the last section shows.)\<close>

theorem session_exclusion_suffices:
  assumes "server_run (server_new p) v" and "session_inflight sid v = take 1 (s_sending (srv_objects v sid))"
    and "alone_run (race_of sid k v) s"
  shows "(r_io s = I_handler \<or> r_io s = I_more \<or> U_pushed False \<in> set (r_users s) \<longrightarrow> r_queue s \<noteq> []) \<and>
    length (r_inflight s) \<le> 1 \<and>
    (nobody_inside s \<longrightarrow> r_accepted s = r_sent s @ r_queue s \<and> r_inflight s = take 1 (r_queue s))"
proof -
  note inv = alone_run_inv [OF assms(3) alone_inv_of [OF assms(1,2)]]
  have user: "user_ok s u" if "u \<in> set (r_users s)" for u
    using inv that by (auto simp: alone_inv_def in_set_conv_nth)
  have io: "io_ok s (r_io s)" using inv by (simp add: alone_inv_def)
  have "r_queue s \<noteq> []" if "r_io s = I_handler \<or> r_io s = I_more \<or> U_pushed False \<in> set (r_users s)"
    using that io user [of "U_pushed False"] by auto
  moreover have "length (r_inflight s) \<le> 1"
  proof (cases "nobody_inside s")
    case True
    with inv show ?thesis by (simp add: alone_inv_def)
  next
    case False
    then consider "r_io s \<noteq> I_idle" | u where "u \<in> set (r_users s)" "u \<noteq> U_idle"
      unfolding nobody_inside_def by (meson nth_mem)
    then show ?thesis
    proof cases
      case 1
      with io show ?thesis by (cases "r_io s") simp_all
    next
      case 2
      with user [OF 2(1)] show ?thesis by (cases "(s, u)" rule: user_ok.cases) simp_all
    qed
  qed
  moreover have "r_accepted s = r_sent s @ r_queue s \<and> r_inflight s = take 1 (r_queue s)" if "nobody_inside s"
    using inv that by (simp add: alone_inv_def nobody_inside_def)
  ultimately show ?thesis by blast
qed

theorem session_exclusion_suffices_witness:
  "\<exists>s. alone_run (race_of 16 1 demo_sent) s \<and> nobody_inside s \<and> r_sent s = [[7]] \<and> r_queue s = [] \<and>
     r_accepted s = [[7]]"
proof -
  let ?s = "\<lambda>q f d io. \<lparr>r_queue = q, r_inflight = f, r_sent = d, r_accepted = [[7]], r_users = [U_idle], r_io = io\<rparr>"
  have start: "session_inflight 16 demo_sent = take 1 (s_sending (srv_objects demo_sent 16))"
      "race_of 16 1 demo_sent = ?s [[7]] [[7]] [] I_idle"
    by (simp_all add: race_of_def session_inflight_def demo_srv_defs)
  have "alone (?s q f d io)" for q f d io by (simp add: alone_def)
  moreover have "race_step (?s [[7]] [[7]] [] I_idle) (?s [[7]] [] [[7]] I_handler)"
      "race_step (?s [[7]] [] [[7]] I_handler) (?s [] [] [[7]] I_popped)"
      "race_step (?s [] [] [[7]] I_popped) (?s [] [] [[7]] I_idle)"
    using race_step.complete [of "?s [[7]] [[7]] [] I_idle" "[]" "[7]" "[]"]
      race_step.pop [of "?s [[7]] [] [[7]] I_handler" "[7]" "[]"] race_step.check_empty [of "?s [] [] [[7]] I_popped"]
    by simp_all
  ultimately have "alone_run (race_of 16 1 demo_sent) (?s [] [] [[7]] I_idle)"
    unfolding start(2) by (blast intro: alone_more)
  with session_exclusion_suffices [OF demo_srv_run(2) start(1) this] show ?thesis
    by (intro exI [of _ "?s [] [] [[7]] I_idle"]) (simp add: nobody_inside_def)
qed

section \<open>Interleaved\<close>

text \<open>
  A session is stranded when messages are queued, no write is outstanding, the handler is not running and no thread
  in \<^verbatim>\<open>write\<close> is going to start one.
\<close>

fun will_start :: "user_pc \<Rightarrow> bool" where
  "will_start (U_checked write_in_progress _) = (\<not> write_in_progress)"
| "will_start (U_pushed write_in_progress) = (\<not> write_in_progress)"
| "will_start U_idle = False"

definition stranded :: "race \<Rightarrow> bool" where
  "stranded s \<longleftrightarrow> r_queue s \<noteq> [] \<and> r_inflight s = [] \<and> r_io s = I_idle \<and>
     (\<forall>u \<in> set (r_users s). \<not> will_start u)"

lemma stranded_step: "race_step s t \<Longrightarrow> stranded s \<Longrightarrow> stranded t \<and> r_sent t = r_sent s"
proof (induction rule: race_step.induct)
  case (write_start i s message q)
  then show ?case by (metis nth_mem stranded_def will_start.simps(2))
qed (force simp: stranded_def in_set_conv_nth nth_list_update dest!: subsetD [OF set_update_subset_insert])+

lemma stranded_run: "race_run s t \<Longrightarrow> stranded s \<Longrightarrow> stranded t \<and> r_sent t = r_sent s"
  by (induction rule: rtranclp_induct) (auto dest: stranded_step)

definition race_new :: "nat \<Rightarrow> race" where
  "race_new k = \<lparr>r_queue = [], r_inflight = [], r_sent = [], r_accepted = [], r_users = replicate k U_idle, r_io = I_idle\<rparr>"

text \<open>
  The states of one interleaving: \<open>race_at q f d a us io\<close> has the queue \<open>q\<close>, the outstanding writes \<open>f\<close>, the sent
  messages \<open>d\<close> and the accepted ones \<open>a\<close>.
\<close>

abbreviation race_at :: "chunk list \<Rightarrow> chunk list \<Rightarrow> chunk list \<Rightarrow> chunk list \<Rightarrow> user_pc list \<Rightarrow> io_pc \<Rightarrow> race" where
  "race_at q f d a us io \<equiv> \<lparr>r_queue = q, r_inflight = f, r_sent = d, r_accepted = a, r_users = us, r_io = io\<rparr>"

text \<open>One caller and the handler: the caller looks at the queue before the handler empties it.\<close>

lemma missed_message:
  "race_run (race_new 1) (race_at [m2] [] [m1] [m1, m2] [U_idle] I_idle)"
proof -
  have "race_run (race_new 1) (race_at [m1] [m1] [] [m1] [U_idle] I_idle)"
    using uninterrupted_write [of 0 "race_new 1" m1] by (simp add: race_new_def)
  also have "race_step (race_at [m1] [m1] [] [m1] [U_idle] I_idle) (race_at [m1] [m1] [] [m1] [U_checked True m2] I_idle)"
    using race_step.write_check [of 0 "race_at [m1] [m1] [] [m1] [U_idle] I_idle" m2] by (simp add: set_user_def)
  also (rtranclp.rtrancl_into_rtrancl) have "race_step \<dots> (race_at [m1] [] [m1] [m1] [U_checked True m2] I_handler)"
    using race_step.complete [of "race_at [m1] [m1] [] [m1] [U_checked True m2] I_idle" "[]" m1 "[]"] by simp
  also (rtranclp.rtrancl_into_rtrancl) have "race_step \<dots> (race_at [] [] [m1] [m1] [U_checked True m2] I_popped)"
    using race_step.pop [of "race_at [m1] [] [m1] [m1] [U_checked True m2] I_handler" m1 "[]"] by simp
  also (rtranclp.rtrancl_into_rtrancl) have "race_step \<dots> (race_at [] [] [m1] [m1] [U_checked True m2] I_idle)"
    using race_step.check_empty [of "race_at [] [] [m1] [m1] [U_checked True m2] I_popped"] by simp
  also (rtranclp.rtrancl_into_rtrancl) have "race_step \<dots> (race_at [m2] [] [m1] [m1, m2] [U_pushed True] I_idle)"
    using race_step.write_push [of 0 "race_at [] [] [m1] [m1] [U_checked True m2] I_idle" True m2]
    by (simp add: set_user_def)
  also (rtranclp.rtrancl_into_rtrancl) have "race_step \<dots> (race_at [m2] [] [m1] [m1, m2] [U_idle] I_idle)"
    using race_step.write_return [of 0 "race_at [m2] [] [m1] [m1, m2] [U_pushed True] I_idle"] by (simp add: set_user_def)
  finally (rtranclp.rtrancl_into_rtrancl) show ?thesis .
qed

text \<open>Two callers: both find the queue empty, and each starts a write, of the same message.\<close>

lemma repeated_message:
  "race_run (race_new 2) (race_at [] [] [m1, m1, m2] [m1, m2] [U_idle, U_idle] I_handler)"
proof -
  let ?A = "race_at [] [] [] []" and ?B = "race_at [m1, m2]" and ?C = "race_at [m2]"
  have "race_run (race_new 2) (?A [U_idle, U_idle] I_idle)" by (simp add: race_new_def numeral_2_eq_2)
  also have "race_step (?A [U_idle, U_idle] I_idle) (?A [U_checked False m1, U_idle] I_idle)"
    using race_step.write_check [of 0 "?A [U_idle, U_idle] I_idle" m1] by (simp add: set_user_def)
  also (rtranclp.rtrancl_into_rtrancl) have "race_step \<dots> (?A [U_checked False m1, U_checked False m2] I_idle)"
    using race_step.write_check [of 1 "?A [U_checked False m1, U_idle] I_idle" m2] by (simp add: set_user_def)
  also (rtranclp.rtrancl_into_rtrancl) have "race_step \<dots> (race_at [m1] [] [] [m1] [U_pushed False, U_checked False m2] I_idle)"
    using race_step.write_push [of 0 "?A [U_checked False m1, U_checked False m2] I_idle" False m1]
    by (simp add: set_user_def)
  also (rtranclp.rtrancl_into_rtrancl) have "race_step \<dots> (?B [] [] [m1, m2] [U_pushed False, U_pushed False] I_idle)"
    using race_step.write_push [of 1 "race_at [m1] [] [] [m1] [U_pushed False, U_checked False m2] I_idle" False m2]
    by (simp add: set_user_def)
  also (rtranclp.rtrancl_into_rtrancl) have "race_step \<dots> (?B [m1] [] [m1, m2] [U_idle, U_pushed False] I_idle)"
    using race_step.write_start [of 0 "?B [] [] [m1, m2] [U_pushed False, U_pushed False] I_idle" m1 "[m2]"]
    by (simp add: set_user_def)
  also (rtranclp.rtrancl_into_rtrancl) have "race_step \<dots> (?B [m1, m1] [] [m1, m2] [U_idle, U_idle] I_idle)"
    using race_step.write_start [of 1 "?B [m1] [] [m1, m2] [U_idle, U_pushed False] I_idle" m1 "[m2]"]
    by (simp add: set_user_def)
  also (rtranclp.rtrancl_into_rtrancl) have "race_step \<dots> (?B [m1] [m1] [m1, m2] [U_idle, U_idle] I_handler)"
    using race_step.complete [of "?B [m1, m1] [] [m1, m2] [U_idle, U_idle] I_idle" "[]" m1 "[m1]"] by simp
  also (rtranclp.rtrancl_into_rtrancl) have "race_step \<dots> (?C [m1] [m1] [m1, m2] [U_idle, U_idle] I_popped)"
    using race_step.pop [of "?B [m1] [m1] [m1, m2] [U_idle, U_idle] I_handler" m1 "[m2]"] by simp
  also (rtranclp.rtrancl_into_rtrancl) have "race_step \<dots> (?C [m1] [m1] [m1, m2] [U_idle, U_idle] I_more)"
    using race_step.check_more [of "?C [m1] [m1] [m1, m2] [U_idle, U_idle] I_popped"] by simp
  also (rtranclp.rtrancl_into_rtrancl) have "race_step \<dots> (?C [m1, m2] [m1] [m1, m2] [U_idle, U_idle] I_idle)"
    using race_step.io_start [of "?C [m1] [m1] [m1, m2] [U_idle, U_idle] I_more" m2 "[]"] by simp
  also (rtranclp.rtrancl_into_rtrancl) have "race_step \<dots> (?C [m2] [m1, m1] [m1, m2] [U_idle, U_idle] I_handler)"
    using race_step.complete [of "?C [m1, m2] [m1] [m1, m2] [U_idle, U_idle] I_idle" "[]" m1 "[m2]"] by simp
  also (rtranclp.rtrancl_into_rtrancl) have "race_step \<dots> (race_at [] [m2] [m1, m1] [m1, m2] [U_idle, U_idle] I_popped)"
    using race_step.pop [of "?C [m2] [m1, m1] [m1, m2] [U_idle, U_idle] I_handler" m2 "[]"] by simp
  also (rtranclp.rtrancl_into_rtrancl) have "race_step \<dots> (race_at [] [m2] [m1, m1] [m1, m2] [U_idle, U_idle] I_idle)"
    using race_step.check_empty [of "race_at [] [m2] [m1, m1] [m1, m2] [U_idle, U_idle] I_popped"] by simp
  also (rtranclp.rtrancl_into_rtrancl) have "race_step \<dots> (race_at [] [] [m1, m1, m2] [m1, m2] [U_idle, U_idle] I_handler)"
    using race_step.complete [of "race_at [] [m2] [m1, m1] [m1, m2] [U_idle, U_idle] I_idle" "[]" m2 "[]"] by simp
  finally (rtranclp.rtrancl_into_rtrancl) show ?thesis .
qed

text \<open>C26: The accesses of \<^verbatim>\<open>write\<close> and of the handler race, with every write successful. If \<^verbatim>\<open>write\<close> looks at the
  queue just before the handler of the last write empties it, the new message stays queued, and neither it
  nor any message handed over later is ever sent. And two threads that call \<^verbatim>\<open>write\<close> of an idle session at
  the same time can both find the queue empty: then the first message is sent twice, and in the end the
  handler calls \<^verbatim>\<open>pop_front\<close> on an empty queue.\<close>

theorem session_write_races:
  "(\<exists>s. race_run (race_new 1) s \<and> r_users s = [U_idle] \<and> r_io s = I_idle \<and>
     r_sent s = [m1] \<and> r_queue s = [m2] \<and> (\<forall>t. race_run s t \<longrightarrow> r_sent t = [m1] \<and> r_queue t \<noteq> [])) \<and>
   (\<exists>s. race_run (race_new 2) s \<and> r_sent s = [m1, m1, m2] \<and> r_io s = I_handler \<and> r_queue s = [])"
proof
  show "\<exists>s. race_run (race_new 1) s \<and> r_users s = [U_idle] \<and> r_io s = I_idle \<and>
     r_sent s = [m1] \<and> r_queue s = [m2] \<and> (\<forall>t. race_run s t \<longrightarrow> r_sent t = [m1] \<and> r_queue t \<noteq> [])"
    using missed_message [of m2 m1] stranded_run [of "race_at [m2] [] [m1] [m1, m2] [U_idle] I_idle"]
    by (intro exI [of _ "race_at [m2] [] [m1] [m1, m2] [U_idle] I_idle"]) (auto simp: stranded_def)
  show "\<exists>s. race_run (race_new 2) s \<and> r_sent s = [m1, m1, m2] \<and> r_io s = I_handler \<and> r_queue s = []"
    by (intro exI conjI, rule repeated_message) simp_all
qed

theorem session_write_races_witness:
  "\<exists>s t. race_run (race_new 1) s \<and> r_queue s = [[2]] \<and> race_run s t \<and> r_queue t = [[2], [3]] \<and>
     r_sent t = [[1]]"
proof -
  obtain s where s: "race_run (race_new 1) s" "r_users s = [U_idle]" "r_queue s = [[2]]"
      "\<And>t. race_run s t \<Longrightarrow> r_sent t = [[1]]"
    using session_write_races [of "[1]" "[2]"] by blast
  let ?t = "s\<lparr>r_queue := [[2], [3]], r_accepted := r_accepted s @ [[3]]\<rparr>"
  have "race_run s ?t" using uninterrupted_write [of 0 s "[3]"] s(2,3) by simp
  with s(1,3) s(4) [of ?t] show ?thesis by (intro exI [of _ s] exI [of _ ?t]) simp
qed

end
