(* ===== verification/Tcp_Map_Race.thy ===== *)
theory Tcp_Map_Race
  imports Tcp_Server_Properties
begin

text \<open>
  The loops of \<^verbatim>\<open>Server\<close> over \<^verbatim>\<open>sessions_\<close> (\<^verbatim>\<open>close\<close>, \<^verbatim>\<open>write_to_all\<close> and \<^verbatim>\<open>write_to_all_except\<close>) run in the thread of
  the caller, while the thread of the \<^verbatim>\<open>io_context_\<close> erases sessions in \<^verbatim>\<open>leave\<close> and adds them in \<^verbatim>\<open>handle_accept\<close>;
  nothing keeps the two apart. Here a loop runs one use of its iterator at a time, and whole steps of the
  server happen in between.

  An iterator is the session it points to, or the end; it is valid while that session is in the map. (A
  rehash, which also makes iterators invalid, and accesses at the same time are undefined altogether; the steps here
  are the mildest reading.) Alone, the loops do what \<open>Tcp_Server\<close> takes as one step; interleaved, they use an
  iterator whose session is gone.
\<close>

section \<open>Steps\<close>

definition iter_begin :: "server \<Rightarrow> session_id option" where
  "iter_begin v = (case srv_sessions v of [] \<Rightarrow> None | sid # _ \<Rightarrow> Some sid)"

fun iter_succ :: "session_id \<Rightarrow> session_id list \<Rightarrow> session_id option" where
  "iter_succ sid [] = None"
| "iter_succ sid (s # ss) = (if s = sid then (case ss of [] \<Rightarrow> None | t # _ \<Rightarrow> Some t) else iter_succ sid ss)"

text \<open>
  Where a loop is. In \<^verbatim>\<open>close\<close>: at the test of the loop, after the shutdown, and after \<^verbatim>\<open>iter++\<close> with the
  session that is leaving. In the other two: at the test and after the body; \<open>except\<close> is the session left out.
\<close>

datatype loop_pc =
    Loop_done
  | Close_at "session_id option"
  | Close_shut session_id
  | Close_leaving session_id "session_id option"
  | Write_at "session_id option" chunk "session_id option"
  | Write_past "session_id option" chunk session_id

definition close_begin :: "server \<Rightarrow> loop_pc" where
  "close_begin v = Close_at (iter_begin v)"

definition write_begin :: "session_id option \<Rightarrow> chunk \<Rightarrow> server \<Rightarrow> loop_pc" where
  "write_begin except chunk v = Write_at except chunk (iter_begin v)"

text \<open>
  The next step of the loop; \<open>ok\<close> is whether a shutdown succeeds, \<open>cb\<close> what the connection handler calls. \<open>None\<close> is
  undefined behaviour.
\<close>

fun loop_next :: "bool \<Rightarrow> server_api list \<Rightarrow> server \<times> loop_pc \<Rightarrow> (server \<times> loop_pc) option" where
  "loop_next ok cb (v, Loop_done) = Some (v, Loop_done)"
| "loop_next ok cb (v, Close_at None) = Some (v, Loop_done)"
| "loop_next ok cb (v, Close_at (Some sid)) =
     (if sid \<notin> set (srv_sessions v) then None
      else case session_close sid ok v of None \<Rightarrow> Some (v, Loop_done) | Some w \<Rightarrow> Some (w, Close_shut sid))"
| "loop_next ok cb (v, Close_shut sid) =
     (if sid \<notin> set (srv_sessions v) then None
      else Some (v, Close_leaving sid (iter_succ sid (srv_sessions v))))"
| "loop_next ok cb (v, Close_leaving sid iter) =
     map_option (\<lambda>(w, threw). (w, if threw then Loop_done else Close_at iter)) (server_leave cb sid 0 v)"
| "loop_next ok cb (v, Write_at except chunk None) = Some (v, Loop_done)"
| "loop_next ok cb (v, Write_at except chunk (Some sid)) =
     (if sid \<notin> set (srv_sessions v) then None
      else if except = Some sid then Some (v, Write_past except chunk sid)
      else map_option (\<lambda>w. (w, Write_past except chunk sid)) (session_write sid chunk v))"
| "loop_next ok cb (v, Write_past except chunk sid) =
     (if sid \<notin> set (srv_sessions v) then None
      else Some (v, Write_at except chunk (iter_succ sid (srv_sessions v))))"

text \<open>The loop makes a step, or another thread does.\<close>

inductive loop_step :: "server \<times> loop_pc \<Rightarrow> (server \<times> loop_pc) option \<Rightarrow> bool" where
  mine: "loop_step x (loop_next ok cb x)"
| other: "server_step cb v (Some w) \<Longrightarrow> loop_step (v, pc) (Some (w, pc))"

abbreviation loop_run :: "server \<times> loop_pc \<Rightarrow> server \<times> loop_pc \<Rightarrow> bool" where
  "loop_run \<equiv> (\<lambda>x y. loop_step x (Some y))\<^sup>*\<^sup>*"

text \<open>The loop alone, without steps of other threads.\<close>

definition loop_alone :: "server \<times> loop_pc \<Rightarrow> server \<times> loop_pc \<Rightarrow> bool" where
  "loop_alone x y \<longleftrightarrow> (\<exists>ok cb. loop_next ok cb x = Some y)"

section \<open>The loops alone\<close>

lemma iter_succ_split:
  "sid \<notin> set xs \<Longrightarrow> iter_succ sid (xs @ sid # ys) = (case ys of [] \<Rightarrow> None | t # _ \<Rightarrow> Some t)"
  by (induction xs) auto

lemma loop_alone_step: "loop_next ok cb x = Some y \<Longrightarrow> loop_alone\<^sup>*\<^sup>* y z \<Longrightarrow> loop_alone\<^sup>*\<^sup>* x z"
  by (rule converse_rtranclp_into_rtranclp) (auto simp: loop_alone_def)

text \<open>The writing loops go through the map and leave its keys alone.\<close>

lemma session_write_sessions: "session_write sid m v = Some w \<Longrightarrow> srv_sessions w = srv_sessions v"
  by (auto simp: server_defs Let_def split: if_splits list.splits)

lemma write_loop_alone:
  assumes "distinct (srv_sessions v)" and "srv_sessions v = xs @ ys"
    and "write_each (filter (\<lambda>s. except \<noteq> Some s) ys) m v = Some w"
  shows "loop_alone\<^sup>*\<^sup>* (v, Write_at except m (case ys of [] \<Rightarrow> None | t # _ \<Rightarrow> Some t)) (w, Loop_done)"
  using assms
proof (induction ys arbitrary: xs v)
  case Nil
  then have "loop_next True [] (v, Write_at except m None) = Some (w, Loop_done)" by simp
  then show ?case by (auto intro: loop_alone_step)
next
  case (Cons sid ys)
  obtain v1 where v1: "v1 = v \<and> except = Some sid \<or> except \<noteq> Some sid \<and> session_write sid m v = Some v1"
      "write_each (filter (\<lambda>s. except \<noteq> Some s) ys) m v1 = Some w"
    using Cons.prems(3) by (cases "except = Some sid") (auto split: bind_splits)
  then have s: "srv_sessions v1 = (xs @ [sid]) @ ys" using Cons.prems(2) session_write_sessions by auto
  let ?next = "case ys of [] \<Rightarrow> None | t # _ \<Rightarrow> Some t"
  have "loop_alone\<^sup>*\<^sup>* (v1, Write_at except m ?next) (w, Loop_done)"
    using Cons.IH [of v1 "xs @ [sid]"] Cons.prems(1,2) s v1(2) by simp
  moreover have "loop_next True [] (v1, Write_past except m sid) = Some (v1, Write_at except m ?next)"
    using s Cons.prems(1,2) by (simp add: iter_succ_split)
  ultimately have "loop_alone\<^sup>*\<^sup>* (v1, Write_past except m sid) (w, Loop_done)" by (blast intro: loop_alone_step)
  moreover have "loop_next True [] (v, Write_at except m (Some sid)) = Some (v1, Write_past except m sid)"
    using v1(1) Cons.prems(2) by auto
  ultimately show ?case by (auto intro: loop_alone_step)
qed

text \<open>\<^verbatim>\<open>close\<close>, when its callbacks do not close the server as well.\<close>

lemma close_loop_alone:
  assumes "sessions_ok v" and "distinct sids" and "srv_sessions v = sids" and "plain_rounds rounds"
    and "server_close_loop rounds sids v = Some (w, t)"
  shows "loop_alone\<^sup>*\<^sup>* (v, Close_at (case sids of [] \<Rightarrow> None | sid # _ \<Rightarrow> Some sid)) (w, Loop_done)"
  using assms
proof (induction sids arbitrary: v rounds)
  case Nil
  then have "loop_next True [] (v, Close_at None) = Some (w, Loop_done)" by simp
  then show ?case by (auto intro: loop_alone_step)
next
  case (Cons sid sids)
  have sid: "sid \<in> set (srv_sessions v)" using Cons.prems(3) by simp
  let ?ok = "fst (first_round rounds)" and ?cb = "snd (first_round rounds)"
  let ?next = "case sids of [] \<Rightarrow> None | s # _ \<Rightarrow> Some s"
  note unfolded = Cons.prems(5) [unfolded server_close_loop_Cons [OF sid]]
  show ?case
  proof (cases ?ok)
    case True
    let ?v1 = "v\<lparr>srv_shut := srv_shut v @ [sid]\<rparr>"
    have shut: "loop_next ?ok ?cb (v, Close_at (Some sid)) = Some (?v1, Close_shut sid)"
      using sid True by (simp add: session_close_def)
    have advance: "loop_next ?ok ?cb (?v1, Close_shut sid) = Some (?v1, Close_leaving sid ?next)"
      using Cons.prems(3) iter_succ_split [of sid "[]" sids] by simp
    let ?left = "log_report sid disconnected 0 (erase_session sid ?v1)"
    have "sessions_ok ?left" using Cons.prems(1) by (simp add: sessions_ok_frame)
    then obtain v2 where v2: "server_leave ?cb sid 0 ?v1 = Some (v2, False)" "sessions_ok v2" "same_structure ?left v2"
      using plain_calls_total [OF plain_rounds_simps(1) [OF Cons.prems(4)], of ?left]
      by (auto simp: server_leave_def server_connection_handler_def)
    then have "srv_sessions v2 = sids"
      using Cons.prems(2,3) by (auto simp: same_structure_def log_report_def erase_session_def filter_id_conv)
    moreover have "server_close_loop (tl rounds) sids v2 = Some (w, t)"
      using unfolded v2(1) True by (simp add: session_close_def)
    ultimately have "loop_alone\<^sup>*\<^sup>* (v2, Close_at ?next) (w, Loop_done)"
      using Cons.IH [OF v2(2) _ _ plain_rounds_simps(2) [OF Cons.prems(4)]] Cons.prems(2) by simp
    moreover have leave: "loop_next ?ok ?cb (?v1, Close_leaving sid ?next) = Some (v2, Close_at ?next)"
      using v2(1) by simp
    ultimately have "loop_alone\<^sup>*\<^sup>* (v, Close_at (Some sid)) (w, Loop_done)"
      using loop_alone_step [OF shut loop_alone_step [OF advance loop_alone_step [OF leave]]] by blast
    then show ?thesis by simp
  next
    case False
    then have "loop_next ?ok ?cb (v, Close_at (Some sid)) = Some (w, Loop_done)"
      using sid unfolded by (auto simp: session_close_def)
    then show ?thesis by (auto intro: loop_alone_step)
  qed
qed

section \<open>Interleaved\<close>

text \<open>
  A session whose read ends with an error, as it does after the shutdown, is gone from the map when the
  handler has run.
\<close>

lemma read_error_erases:
  assumes "structure_ok v" and "sid \<in> set (srv_sessions v)" and "ec \<noteq> 0"
  shows "\<exists>w. server_step [] v (Some w) \<and> sid \<notin> set (srv_sessions w) \<and>
    srv_reported w = srv_reported v @ [(sid, disconnected, ec)]"
proof -
  have "Session_read sid \<in> set (srv_pending v)"
    using assms(1,2) count_list_0_iff [of "srv_pending v" "Session_read sid"] by (auto simp: structure_ok_def)
  then obtain i where i: "i < length (srv_pending v)" "srv_pending v ! i = Session_read sid"
    by (auto simp: in_set_conv_nth)
  from server_step.read [OF i, of "[]" "[]" ec] assms(3) show ?thesis
    by (auto simp: session_handle_read_def server_leave_def server_connection_handler_def handled_def
        log_report_def erase_session_def session_receive_frame)
qed

text \<open>One step of the loop, the read handler of the session it is at, and the loop's iterator is invalid.\<close>

lemma loop_loses_iterator:
  assumes "loop_next ok [] (v, pc) = Some (v1, pc1)" and "structure_ok v1" and "sid \<in> set (srv_sessions v1)"
    and "\<And>w. sid \<notin> set (srv_sessions w) \<Longrightarrow> loop_next True [] (w, pc1) = None"
  shows "\<exists>x. loop_run (v, pc) x \<and> loop_step x None"
proof -
  obtain w where w: "server_step [] v1 (Some w)" "sid \<notin> set (srv_sessions w)"
    using read_error_erases [OF assms(2,3), of 1] by auto
  have "loop_step (v, pc) (Some (v1, pc1))" using loop_step.mine [of "(v, pc)" ok "[]"] assms(1) by simp
  moreover have "loop_step (v1, pc1) (Some (w, pc1))" by (rule loop_step.other [OF w(1)])
  moreover have "loop_step (w, pc1) None" using loop_step.mine [of "(w, pc1)" True "[]"] assms(4) w(2) by simp
  ultimately show ?thesis by (meson rtranclp.intros)
qed

text \<open>C27: The loops over the sessions are right only as long as no handler runs meanwhile. Alone, \<^verbatim>\<open>close\<close> (with
  callbacks that do not close the server), \<^verbatim>\<open>write_to_all\<close> and \<^verbatim>\<open>write_to_all_except\<close> go through the map and end where the
  model of the server takes them in one step. But in every reachable state with a session, \<^verbatim>\<open>close\<close> and \<^verbatim>\<open>write_to_all\<close> have
  an interleaving with the read handler of the first session that is undefined: the handler erases the
  session the iterator is at, and it is then advanced.\<close>

theorem server_loops_need_exclusion:
  assumes "server_run (server_new p) v"
  shows "(\<forall>rounds w t. plain_rounds rounds \<longrightarrow> server_close rounds v = Some (w, t) \<longrightarrow>
      loop_alone\<^sup>*\<^sup>* (v, close_begin v) (w, Loop_done)) \<and>
    (\<forall>m w. server_write_to_all m v = Some w \<longrightarrow> loop_alone\<^sup>*\<^sup>* (v, write_begin None m v) (w, Loop_done)) \<and>
    (\<forall>sid m w. server_write_to_all_except sid m v = Some w \<longrightarrow>
      loop_alone\<^sup>*\<^sup>* (v, write_begin (Some sid) m v) (w, Loop_done)) \<and>
    (srv_sessions v \<noteq> [] \<longrightarrow>
      (\<exists>x. loop_run (v, close_begin v) x \<and> loop_step x None) \<and>
      (\<forall>m. \<exists>x. loop_run (v, write_begin None m v) x \<and> loop_step x None))"
proof (intro conjI allI impI)
  have ok: "sessions_ok v" and st: "structure_ok v" and dist: "distinct (srv_sessions v)"
    using server_reachable_inv [OF assms] by (simp_all add: server_inv_def structure_ok_def)
  show "loop_alone\<^sup>*\<^sup>* (v, close_begin v) (w, Loop_done)"
    if "plain_rounds rounds" "server_close rounds v = Some (w, t)" for rounds w t
    using close_loop_alone [OF ok dist HOL.refl that(1)] that(2)
    by (simp add: server_close_def close_begin_def iter_begin_def)
  show "loop_alone\<^sup>*\<^sup>* (v, write_begin None m v) (w, Loop_done)" if "server_write_to_all m v = Some w" for m w
    using write_loop_alone [OF dist, of "[]" _ None m w] that
    by (simp add: server_write_to_all_def write_begin_def iter_begin_def)
  show "loop_alone\<^sup>*\<^sup>* (v, write_begin (Some sid) m v) (w, Loop_done)"
    if "server_write_to_all_except sid m v = Some w" for sid m w
    using write_loop_alone [OF dist, of "[]" _ "Some sid" m w] that
    by (simp add: server_write_to_all_except_def write_begin_def iter_begin_def)
  assume "srv_sessions v \<noteq> []"
  then obtain sid sids where v: "srv_sessions v = sid # sids" by (cases "srv_sessions v") auto
  have "loop_next True [] (v, close_begin v) = Some (v\<lparr>srv_shut := srv_shut v @ [sid]\<rparr>, Close_shut sid)"
    using v by (simp add: close_begin_def iter_begin_def session_close_def)
  then show "\<exists>x. loop_run (v, close_begin v) x \<and> loop_step x None"
    by (rule loop_loses_iterator [where sid = sid]) (use st v in \<open>simp_all add: structure_ok_def\<close>)
  show "\<exists>x. loop_run (v, write_begin None m v) x \<and> loop_step x None" for m
  proof -
    obtain v1 where v1: "session_write sid m v = Some v1" using session_write_total [OF ok] by blast
    then have "loop_next True [] (v, write_begin None m v) = Some (v1, Write_past None m sid)"
      using v by (simp add: write_begin_def iter_begin_def)
    moreover have "structure_ok v1"
      using keeps_inv [OF session_write_keeps [OF v1]] server_reachable_inv [OF assms] by (simp add: server_inv_def)
    ultimately show ?thesis
      by (rule loop_loses_iterator [where sid = sid]) (use v session_write_sessions [OF v1] in simp_all)
  qed
qed

theorem server_loops_need_exclusion_witness:
  "srv_sessions demo_two = [16, 32] \<and> loop_alone\<^sup>*\<^sup>* (demo_two, write_begin None [7] demo_two) (demo_sent, Loop_done) \<and>
   (\<exists>x. loop_run (demo_two, close_begin demo_two) x \<and> loop_step x None)"
proof -
  have "srv_sessions demo_two = [16, 32]" "server_write_to_all [7] demo_two = Some demo_sent"
    by (simp_all add: demo_srv_defs)
  with server_loops_need_exclusion [OF demo_srv_run(1)] show ?thesis by auto
qed

end
