(* ===== verification/Net_Stream.thy ===== *)
theory Net_Stream
  imports Net_Base "HOL-Library.Sublist"
begin

text \<open>
  One direction of a connection, in the abstract: a sender with its queue of chunks, the bytes under way,
  and the packets the other end has given to its user. The network (TCP, or a serial line) is the environment and
  appears by what it guarantees: the bytes of an outstanding write are taken in order, a write ends successfully only when all its
  bytes have been taken, and a reader gets the bytes that were taken, in order and each once,
  in pieces of any size. Chunk boundaries are not preserved.

  The locale \<open>stream_steps\<close> is the contract of a system in which such a direction can be seen: each of its steps
  is one of the abstract effects, and the steps that the network owes a connection that is up are possible. Its
  extensions \<open>byte_stream\<close> and \<open>posting_stream\<close> say how the sender fills its queue.
\<close>

section \<open>The bytes under way\<close>

text \<open>
  \<open>p_sent\<close> are all bytes taken from the sender, \<open>p_off\<close> of them from the write that is outstanding;
  \<open>p_read\<close> are the bytes handed to the reader.
\<close>

record pipe =
  p_sent :: bytes
  p_off :: nat
  p_read :: bytes

definition pipe_new :: pipe where
  "pipe_new = \<lparr>p_sent = [], p_off = 0, p_read = []\<rparr>"

definition pipe_transmit :: "nat \<Rightarrow> chunk \<Rightarrow> pipe \<Rightarrow> pipe" where
  "pipe_transmit n m p =
     p\<lparr>p_sent := p_sent p @ take n (drop (p_off p) m), p_off := p_off p + n\<rparr>"

definition pipe_next :: "pipe \<Rightarrow> pipe" where
  "pipe_next p = p\<lparr>p_off := 0\<rparr>"

definition pipe_deliver :: "bytes \<Rightarrow> pipe \<Rightarrow> pipe" where
  "pipe_deliver data p = p\<lparr>p_read := p_read p @ data\<rparr>"

lemma pipe_simps [simp]:
  "p_sent pipe_new = []" "p_off pipe_new = 0" "p_read pipe_new = []"
  "p_sent (pipe_transmit n m p) = p_sent p @ take n (drop (p_off p) m)"
  "p_off (pipe_transmit n m p) = p_off p + n" "p_read (pipe_transmit n m p) = p_read p"
  "p_sent (pipe_next p) = p_sent p" "p_off (pipe_next p) = 0" "p_read (pipe_next p) = p_read p"
  "p_sent (pipe_deliver data p) = p_sent p" "p_off (pipe_deliver data p) = p_off p"
  "p_read (pipe_deliver data p) = p_read p @ data"
  by (simp_all add: pipe_new_def pipe_transmit_def pipe_next_def pipe_deliver_def)

section \<open>The abstract stream\<close>

record stream =
  sm_queue :: "chunk list"
  sm_sent :: "chunk list"
  sm_pipe :: pipe
  sm_packets :: "chunk list"

inductive stream_effect :: "stream \<Rightarrow> stream \<Rightarrow> bool" where
  grow: "stream_effect w (w\<lparr>sm_queue := sm_queue w @ ms\<rparr>)"
| transmit: "sm_queue w = m # q \<Longrightarrow> p_off (sm_pipe w) + n \<le> length m \<Longrightarrow>
     stream_effect w (w\<lparr>sm_pipe := pipe_transmit n m (sm_pipe w)\<rparr>)"
| complete: "sm_queue w = m # q \<Longrightarrow> p_off (sm_pipe w) = length m \<Longrightarrow>
     stream_effect w (w\<lparr>sm_queue := q, sm_sent := sm_sent w @ [m], sm_pipe := pipe_next (sm_pipe w)\<rparr>)"
| deliver: "prefix (p_read (sm_pipe w) @ data) (p_sent (sm_pipe w)) \<Longrightarrow>
     stream_effect w (w\<lparr>sm_pipe := pipe_deliver data (sm_pipe w), sm_packets := sm_packets w @ [data]\<rparr>)"

lemma stream_idle:
  assumes "sm_queue w' = sm_queue w @ ms" "sm_sent w' = sm_sent w" "sm_pipe w' = sm_pipe w"
    "sm_packets w' = sm_packets w"
  shows "stream_effect w w'"
proof -
  have "w' = w\<lparr>sm_queue := sm_queue w @ ms\<rparr>" using assms by (intro stream.equality) simp_all
  with stream_effect.grow [of w ms] show ?thesis by simp
qed

text \<open>What has been taken are the chunks sent and the first bytes of the chunk at the front.\<close>

definition stream_inv :: "stream \<Rightarrow> bool" where
  "stream_inv w \<longleftrightarrow>
     p_sent (sm_pipe w) = concat (sm_sent w) @ take (p_off (sm_pipe w)) (concat (take 1 (sm_queue w))) \<and>
     p_off (sm_pipe w) \<le> length (concat (take 1 (sm_queue w))) \<and>
     p_read (sm_pipe w) = concat (sm_packets w) \<and> prefix (p_read (sm_pipe w)) (p_sent (sm_pipe w))"

lemma stream_inv_read:
  "stream_inv w \<Longrightarrow> p_read (sm_pipe w) = concat (sm_packets w)"
  "stream_inv w \<Longrightarrow> \<exists>rest. p_sent (sm_pipe w) = p_read (sm_pipe w) @ rest"
  by (simp add: stream_inv_def) (metis prefixE stream_inv_def)

lemma stream_effect_inv:
  assumes "stream_effect w w'" and inv: "stream_inv w"
  shows "stream_inv w'"
  using assms(1)
proof cases
  case (grow ms)
  then show ?thesis using inv by (cases "sm_queue w") (auto simp: stream_inv_def)
next
  case (transmit m q n)
  then have "prefix (p_sent (sm_pipe w)) (p_sent (sm_pipe w'))" by simp
  then have "prefix (p_read (sm_pipe w')) (p_sent (sm_pipe w'))"
    using inv transmit by (auto simp: stream_inv_def intro: prefix_order.trans)
  then show ?thesis using inv transmit by (simp add: stream_inv_def take_add)
next
  case (complete m q)
  then show ?thesis using inv by (auto simp: stream_inv_def)
next
  case (deliver data)
  then show ?thesis using inv by (auto simp: stream_inv_def)
qed

lemma stream_packets_prefix:
  assumes "stream_inv w"
  shows "prefix (concat (sm_packets w)) (concat (sm_sent w @ sm_queue w))"
proof -
  have "prefix (take n (concat (take 1 (sm_queue w)))) (concat (sm_queue w))" for n
    by (cases "sm_queue w") (auto intro: prefix_order.trans [OF take_is_prefix])
  then have "prefix (p_sent (sm_pipe w)) (concat (sm_sent w @ sm_queue w))"
    using assms by (auto simp: stream_inv_def)
  with assms show ?thesis by (auto simp: stream_inv_def intro: prefix_order.trans)
qed

text \<open>
  \<open>accepted\<close> is what the sender has promised its user; \<open>ready\<close> that both ends and the network are still up.
  Then the bytes of an outstanding write can be taken, a write that is through can end, and the reader can be
  given bytes that are under way.
\<close>

locale stream_steps =
  fixes view :: "'l \<Rightarrow> stream" and accepted :: "'l \<Rightarrow> chunk list" and inv :: "'l \<Rightarrow> bool"
    and step :: "'l \<Rightarrow> 'l \<Rightarrow> bool" and ready :: "'l \<Rightarrow> bool"
  assumes step_effect: "inv l \<Longrightarrow> step l l' \<Longrightarrow> inv l' \<and> stream_effect (view l) (view l')"
    and promised: "inv l \<Longrightarrow> prefix (sm_sent (view l) @ sm_queue (view l)) (accepted l)"
    and can_transmit: "inv l \<Longrightarrow> ready l \<Longrightarrow> sm_queue (view l) = m # q \<Longrightarrow>
      p_off (sm_pipe (view l)) + n \<le> length m \<Longrightarrow>
      \<exists>l'. step l l' \<and> ready l' \<and> accepted l' = accepted l \<and>
        view l' = (view l)\<lparr>sm_pipe := pipe_transmit n m (sm_pipe (view l))\<rparr>"
    and can_complete: "inv l \<Longrightarrow> ready l \<Longrightarrow> sm_queue (view l) = m # q \<Longrightarrow>
      p_off (sm_pipe (view l)) = length m \<Longrightarrow>
      \<exists>l'. step l l' \<and> ready l' \<and> accepted l' = accepted l \<and>
        view l' = (view l)\<lparr>sm_queue := q, sm_sent := sm_sent (view l) @ [m],
          sm_pipe := pipe_next (sm_pipe (view l))\<rparr>"
    and can_deliver: "inv l \<Longrightarrow> ready l \<Longrightarrow> length data \<le> max_buffer_size \<Longrightarrow>
      prefix (p_read (sm_pipe (view l)) @ data) (p_sent (sm_pipe (view l))) \<Longrightarrow>
      \<exists>l'. step l l' \<and> ready l' \<and> accepted l' = accepted l \<and>
        view l' = (view l)\<lparr>sm_pipe := pipe_deliver data (sm_pipe (view l)),
          sm_packets := sm_packets (view l) @ [data]\<rparr>"
begin

definition good :: "'l \<Rightarrow> bool" where
  "good l \<longleftrightarrow> inv l \<and> stream_inv (view l)"

lemma good_step: "good l \<Longrightarrow> step l l' \<Longrightarrow> good l'"
  using step_effect stream_effect_inv unfolding good_def by blast

lemma run_inv: "step\<^sup>*\<^sup>* l l' \<Longrightarrow> inv l \<Longrightarrow> inv l'"
  by (induction rule: rtranclp_induct) (use step_effect in auto)

lemma good_run: "step\<^sup>*\<^sup>* l l' \<Longrightarrow> good l \<Longrightarrow> good l'"
  by (induction rule: rtranclp_induct) (auto intro: good_step)

lemma delivers_prefix:
  assumes "good l"
  shows "prefix (concat (sm_packets (view l))) (concat (accepted l))"
proof -
  obtain ms where "accepted l = (sm_sent (view l) @ sm_queue (view l)) @ ms"
    using promised assms unfolding good_def by (blast elim: prefixE)
  then have "prefix (concat (sm_sent (view l) @ sm_queue (view l))) (concat (accepted l))"
    by simp
  with stream_packets_prefix assms show ?thesis
    unfolding good_def by (blast intro: prefix_order.trans)
qed

text \<open>The outstanding write can be brought to its end, and so can all that are queued.\<close>

lemma complete_one:
  assumes "good l" and "ready l" and q: "sm_queue (view l) = m # q"
  shows "\<exists>l'. step\<^sup>*\<^sup>* l l' \<and> good l' \<and> ready l' \<and> accepted l' = accepted l \<and>
    sm_queue (view l') = q \<and> sm_sent (view l') = sm_sent (view l) @ [m]"
proof -
  have off: "p_off (sm_pipe (view l)) \<le> length m" using assms by (auto simp: good_def stream_inv_def)
  obtain l1 where l1: "step l l1" "ready l1" "accepted l1 = accepted l"
      "view l1 = (view l)\<lparr>sm_pipe := pipe_transmit (length m - p_off (sm_pipe (view l))) m (sm_pipe (view l))\<rparr>"
    using can_transmit [OF _ assms(2) q, of "length m - p_off (sm_pipe (view l))"] assms(1) off
    by (auto simp: good_def)
  have good1: "good l1" by (rule good_step [OF assms(1) l1(1)])
  have "sm_queue (view l1) = m # q" "p_off (sm_pipe (view l1)) = length m"
    using l1(4) q off by simp_all
  then obtain l2 where l2: "step l1 l2" "ready l2" "accepted l2 = accepted l1"
      "view l2 = (view l1)\<lparr>sm_queue := q, sm_sent := sm_sent (view l1) @ [m],
        sm_pipe := pipe_next (sm_pipe (view l1))\<rparr>"
    using can_complete [OF _ l1(2)] good1 by (auto simp: good_def)
  have "step\<^sup>*\<^sup>* l l2" using l1(1) l2(1) by (auto intro: converse_rtranclp_into_rtranclp)
  moreover have "good l2" by (rule good_step [OF good1 l2(1)])
  ultimately show ?thesis using l1 l2 by auto
qed

lemma complete_queue:
  "good l \<Longrightarrow> ready l \<Longrightarrow> \<exists>l'. step\<^sup>*\<^sup>* l l' \<and> good l' \<and> ready l' \<and> accepted l' = accepted l \<and>
     sm_queue (view l') = [] \<and> sm_sent (view l') = sm_sent (view l) @ sm_queue (view l)"
proof (induction "sm_queue (view l)" arbitrary: l)
  case Nil
  then show ?case by (intro exI [of _ l]) simp
next
  case (Cons m q)
  obtain l1 where l1: "step\<^sup>*\<^sup>* l l1" "good l1" "ready l1" "accepted l1 = accepted l"
      "sm_queue (view l1) = q" "sm_sent (view l1) = sm_sent (view l) @ [m]"
    using complete_one [OF Cons.prems Cons.hyps(2) [symmetric]] by blast
  then obtain l2 where "step\<^sup>*\<^sup>* l1 l2" "good l2" "ready l2" "accepted l2 = accepted l1"
      "sm_queue (view l2) = []" "sm_sent (view l2) = sm_sent (view l1) @ sm_queue (view l1)"
    using Cons.hyps(1) [of l1] by auto
  with l1 Cons.hyps(2) [symmetric] show ?case by (auto intro: rtranclp_trans)
qed

text \<open>Reading at most a buffer at a time, the reader gets everything that was taken.\<close>

lemma deliver_taken:
  "good l \<Longrightarrow> ready l \<Longrightarrow> p_sent (sm_pipe (view l)) = p_read (sm_pipe (view l)) @ rest \<Longrightarrow>
   \<exists>l'. step\<^sup>*\<^sup>* l l' \<and> accepted l' = accepted l \<and> concat (sm_packets (view l')) = p_sent (sm_pipe (view l))"
proof (induction rest arbitrary: l rule: length_induct)
  case (1 rest)
  show ?case
  proof (cases "rest = []")
    case True
    with "1.prems" stream_inv_read(1) show ?thesis unfolding good_def by fastforce
  next
    case False
    let ?data = "take max_buffer_size rest" and ?p = "sm_pipe (view l)"
    have "prefix (p_read ?p @ ?data) (p_sent ?p)" using "1.prems"(3) by (simp add: take_is_prefix)
    then obtain l1 where l1: "step l l1" "ready l1" "accepted l1 = accepted l"
        "view l1 = (view l)\<lparr>sm_pipe := pipe_deliver ?data ?p, sm_packets := sm_packets (view l) @ [?data]\<rparr>"
      using can_deliver [of l ?data] "1.prems" by (auto simp: good_def)
    have good1: "good l1" by (rule good_step [OF "1.prems"(1) l1(1)])
    have less: "length (drop max_buffer_size rest) < length rest"
      using False by (simp add: max_buffer_size_def)
    have "p_sent (sm_pipe (view l1)) = p_read (sm_pipe (view l1)) @ drop max_buffer_size rest"
      using "1.prems"(3) l1(4) by simp
    then obtain l2 where "step\<^sup>*\<^sup>* l1 l2" "accepted l2 = accepted l1"
        "concat (sm_packets (view l2)) = p_sent (sm_pipe (view l1))"
      using "1.IH" less good1 l1(2) by blast
    with l1 show ?thesis by (auto intro: converse_rtranclp_into_rtranclp)
  qed
qed

end

text \<open>A \<open>byte_stream\<close> can also put everything promised in the queue of the sender.\<close>

locale byte_stream = stream_steps +
  assumes can_flush: "inv l \<Longrightarrow> ready l \<Longrightarrow>
      \<exists>l'. step\<^sup>*\<^sup>* l l' \<and> ready l' \<and> accepted l' = accepted l \<and>
        accepted l' = sm_sent (view l') @ sm_queue (view l')"
begin

lemma delivers_all:
  assumes "good l" and "ready l"
  shows "\<exists>l'. step\<^sup>*\<^sup>* l l' \<and> accepted l' = accepted l \<and> concat (sm_packets (view l')) = concat (accepted l)"
proof -
  obtain l1 where l1: "step\<^sup>*\<^sup>* l l1" "ready l1" "accepted l1 = accepted l"
      "accepted l1 = sm_sent (view l1) @ sm_queue (view l1)"
    using can_flush assms unfolding good_def by blast
  have "good l1" by (rule good_run [OF l1(1) assms(1)])
  then obtain l2 where l2: "step\<^sup>*\<^sup>* l1 l2" "good l2" "ready l2" "accepted l2 = accepted l1"
      "sm_queue (view l2) = []" "sm_sent (view l2) = accepted l1"
    using complete_queue l1 by metis
  then have sent: "p_sent (sm_pipe (view l2)) = concat (accepted l1)" by (simp add: good_def stream_inv_def)
  obtain rest where "p_sent (sm_pipe (view l2)) = p_read (sm_pipe (view l2)) @ rest"
    using stream_inv_read(2) l2(2) unfolding good_def by blast
  from deliver_taken [OF l2(2,3) this] obtain l3 where "step\<^sup>*\<^sup>* l2 l3" "accepted l3 = accepted l2"
      "concat (sm_packets (view l3)) = concat (accepted l1)"
    unfolding sent by blast
  with l1 l2 show ?thesis by (metis rtranclp_trans)
qed

end

text \<open>
  A sender that posts its writes: \<open>posted\<close> are the tasks that wait, of which the first can be run, and when none is
  left everything promised is in the queue. Running them all makes it a \<open>byte_stream\<close>.
\<close>

locale posting_stream = stream_steps view accepted inv step ready
  for view :: "'l \<Rightarrow> stream" and accepted :: "'l \<Rightarrow> chunk list" and inv :: "'l \<Rightarrow> bool"
    and step :: "'l \<Rightarrow> 'l \<Rightarrow> bool" and ready :: "'l \<Rightarrow> bool" +
  fixes posted :: "'l \<Rightarrow> 't list"
  assumes can_enqueue: "ready l \<Longrightarrow> posted l = t # ts \<Longrightarrow>
      \<exists>l'. step l l' \<and> ready l' \<and> posted l' = ts \<and> accepted l' = accepted l"
    and nothing_posted: "inv l \<Longrightarrow> posted l = [] \<Longrightarrow> accepted l = sm_sent (view l) @ sm_queue (view l)"
begin

lemma can_empty:
  "ready l \<Longrightarrow> \<exists>l'. step\<^sup>*\<^sup>* l l' \<and> ready l' \<and> posted l' = [] \<and> accepted l' = accepted l"
proof (induction "posted l" arbitrary: l)
  case Nil
  then show ?case by (intro exI [of _ l]) simp
next
  case (Cons t ts)
  obtain l1 where l1: "step l l1" "ready l1" "posted l1 = ts" "accepted l1 = accepted l"
    using can_enqueue [OF Cons.prems Cons.hyps(2) [symmetric]] by blast
  then obtain l' where "step\<^sup>*\<^sup>* l1 l'" "ready l'" "posted l' = []" "accepted l' = accepted l1"
    using Cons.hyps(1) [of l1] by auto
  with l1 show ?case by (metis converse_rtranclp_into_rtranclp)
qed

end

sublocale posting_stream \<subseteq> byte_stream view accepted inv step ready
proof unfold_locales
  fix l
  assume "inv l" and "ready l"
  then obtain l1 where "step\<^sup>*\<^sup>* l l1" "ready l1" "posted l1 = []" "accepted l1 = accepted l" and "inv l1"
    using can_empty run_inv by meson
  with nothing_posted show "\<exists>l'. step\<^sup>*\<^sup>* l l' \<and> ready l' \<and> accepted l' = accepted l \<and>
      accepted l' = sm_sent (view l') @ sm_queue (view l')"
    by metis
qed

end
