(* ===== verification/Tcp_Connection.thy ===== *)
theory Tcp_Connection
  imports Tcp_Client_Properties Tcp_Server_Properties Net_Stream
begin

text \<open>
  A \<^verbatim>\<open>Client\<close> and the \<^verbatim>\<open>Session\<close> of a \<^verbatim>\<open>Server\<close> at the two ends of one TCP connection. A step of the link is a
  step of one end, with TCP between them: a read gets bytes that the other end's writes have put under way, and a
  write ends successfully when all its bytes have been taken. Everything else an end does (calls of its
  user, posted tasks, other sessions, errors) is a step of its own. The link describes one
  connection, so the client does not replace its socket and the address of the session is not given
  to a new one.
\<close>

section \<open>The link\<close>

record tcp_link =
  l_client :: client
  l_server :: server
  l_up :: pipe
  l_down :: pipe

definition link_new :: "client \<Rightarrow> server \<Rightarrow> tcp_link" where
  "link_new c v = \<lparr>l_client = c, l_server = v, l_up = pipe_new, l_down = pipe_new\<rparr>"

definition packets_of :: "session_id \<Rightarrow> server \<Rightarrow> chunk list" where
  "packets_of sid v = map snd (filter (\<lambda>p. fst p = sid) (srv_packets v))"

abbreviation sent_of :: "session_id \<Rightarrow> server \<Rightarrow> chunk list" where
  "sent_of sid v \<equiv> s_sent (srv_objects v sid)"

abbreviation client_reads :: "client_api list \<Rightarrow> nat \<Rightarrow> bytes \<Rightarrow> client \<Rightarrow> client" where
  "client_reads cb i data c \<equiv>
     client_handle_read cb 0 (length data) (client_receive data (client_finish i c))"

abbreviation client_writes :: "client_api list \<Rightarrow> nat \<Rightarrow> nat \<Rightarrow> chunk \<Rightarrow> client \<Rightarrow> client option" where
  "client_writes cb i s m c \<equiv>
     client_handle_write cb 0 ((client_finish i c)\<lparr>c_wire := c_wire c @ [(s, m)]\<rparr>)"

abbreviation session_reads :: "server_api list \<Rightarrow> nat \<Rightarrow> bytes \<Rightarrow> session_id \<Rightarrow> server \<Rightarrow> server option" where
  "session_reads cb i data sid v \<equiv>
     handled (session_handle_read cb 0 (length data) sid (session_receive sid data (server_finish i v)))"

abbreviation session_writes :: "server_api list \<Rightarrow> nat \<Rightarrow> chunk \<Rightarrow> session_id \<Rightarrow> server \<Rightarrow> server option" where
  "session_writes cb i m sid v \<equiv>
     handled (session_handle_write cb 0 sid (session_log_sent sid m (server_finish i v)))"

text \<open>A socket that has been closed or shut down transmits nothing more.\<close>

inductive link_step :: "session_id \<Rightarrow> tcp_link \<Rightarrow> tcp_link \<Rightarrow> bool" for sid where
  client_transmits: "m \<in> set (client_inflight (l_client l)) \<Longrightarrow>
     c_socket (l_client l) \<notin> set (c_closed (l_client l)) \<Longrightarrow> p_off (l_up l) + n \<le> length m \<Longrightarrow>
     link_step sid l (l\<lparr>l_up := pipe_transmit n m (l_up l)\<rparr>)"
| client_written: "i < length (c_pending (l_client l)) \<Longrightarrow> c_pending (l_client l) ! i = Write_op s m \<Longrightarrow>
     p_off (l_up l) = length m \<Longrightarrow> client_writes cb i s m (l_client l) = Some d \<Longrightarrow>
     link_step sid l (l\<lparr>l_client := d, l_up := pipe_next (l_up l)\<rparr>)"
| client_read: "i < length (c_pending (l_client l)) \<Longrightarrow> c_pending (l_client l) ! i = Read_op s \<Longrightarrow>
     length data \<le> max_buffer_size \<Longrightarrow> prefix (p_read (l_down l) @ data) (p_sent (l_down l)) \<Longrightarrow>
     d = client_reads cb i data (l_client l) \<Longrightarrow> c_socket d = c_socket (l_client l) \<Longrightarrow>
     link_step sid l (l\<lparr>l_client := d, l_down := pipe_deliver data (l_down l)\<rparr>)"
| client_works: "client_goes (l_client l) d \<Longrightarrow> c_socket d = c_socket (l_client l) \<Longrightarrow>
     c_wire d = c_wire (l_client l) \<Longrightarrow> c_packets d = c_packets (l_client l) \<Longrightarrow>
     link_step sid l (l\<lparr>l_client := d\<rparr>)"
| session_transmits: "m \<in> set (session_inflight sid (l_server l)) \<Longrightarrow>
     sid \<notin> set (srv_shut (l_server l)) \<Longrightarrow> p_off (l_down l) + n \<le> length m \<Longrightarrow>
     link_step sid l (l\<lparr>l_down := pipe_transmit n m (l_down l)\<rparr>)"
| session_written: "i < length (srv_pending (l_server l)) \<Longrightarrow> srv_pending (l_server l) ! i = Session_write sid m \<Longrightarrow>
     p_off (l_down l) = length m \<Longrightarrow> session_writes cb i m sid (l_server l) = Some w \<Longrightarrow>
     link_step sid l (l\<lparr>l_server := w, l_down := pipe_next (l_down l)\<rparr>)"
| session_read: "i < length (srv_pending (l_server l)) \<Longrightarrow> srv_pending (l_server l) ! i = Session_read sid \<Longrightarrow>
     length data \<le> max_buffer_size \<Longrightarrow> prefix (p_read (l_up l) @ data) (p_sent (l_up l)) \<Longrightarrow>
     session_reads cb i data sid (l_server l) = Some w \<Longrightarrow>
     link_step sid l (l\<lparr>l_server := w, l_up := pipe_deliver data (l_up l)\<rparr>)"
| server_works: "server_step cb (l_server l) (Some w) \<Longrightarrow>
     (sid \<in> set (srv_sessions w) \<Longrightarrow> sid \<in> set (srv_sessions (l_server l))) \<Longrightarrow>
     sent_of sid w = sent_of sid (l_server l) \<Longrightarrow> packets_of sid w = packets_of sid (l_server l) \<Longrightarrow>
     link_step sid l (l\<lparr>l_server := w\<rparr>)"

text \<open>
  Where a link starts: the first connection of the client, on which nothing has been written or read yet, and a
  session to which the same applies.
\<close>

definition link_start :: "session_id \<Rightarrow> client \<Rightarrow> server \<Rightarrow> bool" where
  "link_start sid c v \<longleftrightarrow>
     c_socket c = 1 \<and> c_wire c = [] \<and> c_packets c = [] \<and>
     sid \<in> set (srv_sessions v) \<and> sent_of sid v = [] \<and> packets_of sid v = [] \<and> sid \<notin> set (srv_shut v)"

section \<open>What the client does to its queue\<close>

lemma client_queue_effect:
  assumes "client_goes c d" and "client_sent d = client_sent c"
  shows "\<exists>ms. c_sending d = c_sending c @ ms"
  using client_step_effect [OF assms(1)] assms(2)
  by (auto simp: client_view_def elim!: writer_effectE)

lemma client_calls_frame [simp]:
  "c_sending (client_calls cb c) = c_sending c" "client_inflight (client_calls cb c) = client_inflight c"
  "c_wire (client_calls cb c) = c_wire c" "c_packets (client_calls cb c) = c_packets c"
proof -
  have call: "c_wire (client_call u c) = c_wire c \<and> c_packets (client_call u c) = c_packets c" for u c
    by (cases u) (simp_all add: client_defs)
  then have "c_wire (client_calls cb c) = c_wire c \<and> c_packets (client_calls cb c) = c_packets c"
    unfolding client_calls_def by (induction cb arbitrary: c) simp_all
  then show "c_wire (client_calls cb c) = c_wire c" "c_packets (client_calls cb c) = c_packets c" by simp_all
  show "c_sending (client_calls cb c) = c_sending c" "client_inflight (client_calls cb c) = client_inflight c"
    using accepts_calls [of c cb] by (auto simp: accepts_def client_view_def)
qed

lemma client_reads_effect:
  "c_sending (client_reads cb i data c) = c_sending c" "c_wire (client_reads cb i data c) = c_wire c"
  "c_packets (client_reads cb i data c) = c_packets c @ [data]"
  by (simp_all add: client_handle_read_def client_do_read_def client_receive_def client_finish_def)

lemma client_reads_step:
  "i < length (c_pending c) \<Longrightarrow> c_pending c ! i = Read_op s \<Longrightarrow> length data \<le> max_buffer_size \<Longrightarrow>
   client_goes c (client_reads cb i data c)"
  by (rule client_step.read)

lemma client_writes_step:
  "i < length (c_pending c) \<Longrightarrow> c_pending c ! i = Write_op s m \<Longrightarrow> client_writes cb i s m c = Some d \<Longrightarrow>
   client_goes c d"
  using client_step.written [of i c s m cb] by (simp add: running_def)

lemma client_writes_effect:
  "client_writes cb i s m c = Some d \<Longrightarrow>
   \<exists>x q. c_sending c = x # q \<and> c_sending d = q \<and> client_sent d = client_sent c @ [m] \<and>
     c_packets d = c_packets c"
  by (auto simp: client_handle_write_def client_do_write_def client_finish_def Let_def
      split: list.splits if_splits)

section \<open>What the server does to the queue of a session\<close>

definition grows :: "session_id \<Rightarrow> server \<Rightarrow> server \<Rightarrow> bool" where
  "grows sid v w \<longleftrightarrow>
     (\<exists>ms. sending_of sid w = sending_of sid v @ ms) \<and> sent_of sid w = sent_of sid v \<and>
     srv_packets w = srv_packets v"

lemma grows_same [intro]:
  "srv_objects w = srv_objects v \<Longrightarrow> srv_packets w = srv_packets v \<Longrightarrow> grows sid v w"
  by (simp add: grows_def)

lemma grows_trans: "grows sid u v \<Longrightarrow> grows sid v w \<Longrightarrow> grows sid u w"
  by (auto simp: grows_def)

lemma session_write_grows: "session_write s m v = Some w \<Longrightarrow> grows sid v w"
  by (auto simp: grows_def server_defs Let_def split: if_splits list.splits)

interpretation grown: call_relation "grows sid" for sid
proof unfold_locales
  show "grows sid v (log_report s disconnected 0 (erase_session s (v\<lparr>srv_shut := srv_shut v @ [s]\<rparr>)))" for s v
    by (rule grows_same) (simp_all add: log_report_def erase_session_def)
qed (auto intro: grows_trans session_write_grows)

lemmas calls_grow = grown.calls

lemma leave_grows: "server_leave cb s ec v = Some (w, t) \<Longrightarrow> grows sid v w"
  using calls_grow(2) [of cb "log_report s disconnected ec (erase_session s v)" w t sid]
  by (auto simp: server_leave_def server_connection_handler_def grows_def log_report_def erase_session_def)

lemma handle_read_effect:
  assumes "session_handle_read cb ec n s v = Some (w, False)"
  shows "\<exists>ms. sending_of sid w = sending_of sid v @ ms" and "sent_of sid w = sent_of sid v"
    and "ec = 0 \<Longrightarrow> srv_packets w = srv_packets v @ [(s, take n (s_received (srv_objects v s)))]"
proof -
  let ?p = "v\<lparr>srv_packets := srv_packets v @ [(s, take n (s_received (srv_objects v s)))]\<rparr>"
  have "\<exists>v1. sending_of sid v1 = sending_of sid v \<and> sent_of sid v1 = sent_of sid v \<and> grows sid v1 w \<and>
      (ec = 0 \<longrightarrow> srv_packets v1 = srv_packets ?p)"
  proof (cases "ec = 0")
    case True
    with assms obtain w0 where w0: "server_calls cb ?p = Some (w0, False)" "w = session_do_read s w0"
      by (auto simp: session_handle_read_def unless_thrown_Some)
    have "grows sid ?p w" using calls_grow(2) [OF w0(1), of sid] w0(2)
      by (simp add: grows_def session_do_read_def)
    then show ?thesis by (intro exI [of _ ?p]) simp
  next
    case False
    with assms leave_grows show ?thesis by (auto simp: session_handle_read_def)
  qed
  then show "\<exists>ms. sending_of sid w = sending_of sid v @ ms" "sent_of sid w = sent_of sid v"
      "ec = 0 \<Longrightarrow> srv_packets w = srv_packets v @ [(s, take n (s_received (srv_objects v s)))]"
    by (auto simp: grows_def)
qed

lemma session_reads_effect:
  assumes "session_reads cb i data sid v = Some w"
  shows "\<exists>ms. sending_of sid w = sending_of sid v @ ms" and "sent_of sid w = sent_of sid v"
    and "packets_of sid w = packets_of sid v @ [data]"
  using handle_read_effect(1,2) [OF assms [unfolded handled_Some], of sid]
    handle_read_effect(3) [OF assms [unfolded handled_Some]]
  by (simp_all add: packets_of_def server_defs)

lemma session_writes_effect:
  assumes "session_writes cb i m sid v = Some w"
  shows "\<exists>x q. sending_of sid v = x # q \<and> sending_of sid w = q" and "sent_of sid w = sent_of sid v @ [m]"
    and "packets_of sid w = packets_of sid v"
  using assms
  by (auto simp: handled_Some session_handle_write_def packets_of_def server_defs Let_def
      split: list.splits if_splits)

lemma accept_grows:
  assumes "server_handle_accept cb ec s v = Some (w, False)" and "ec \<noteq> 0 \<or> s \<noteq> sid"
  shows "grows sid v w"
proof (cases "ec = 0")
  case True
  let ?v = "log_report s connected ec (upd_session s (\<lambda>_. session_new) v)"
  from assms(1) True obtain w0 where "server_calls cb ?v = Some (w0, False)"
      "w = server_do_accept (session_start s (w0\<lparr>srv_sessions := srv_sessions w0 @ [s]\<rparr>))"
    by (auto simp: server_handle_accept_def server_connection_handler_def unless_thrown_Some Let_def)
  with calls_grow(2) [of cb ?v w0 False sid] assms(2) True show ?thesis
    by (simp add: grows_def server_defs log_report_def)
next
  case False
  then show ?thesis using assms(1) by (auto simp: server_handle_accept_def server_do_accept_def)
qed

text \<open>
  A step that neither sends a chunk of the session nor hands out a packet of it, and does not replace the
  session, can only add to its queue.
\<close>

lemma server_queue_effect:
  assumes "server_step cb v (Some w)" and "sid \<in> set (srv_sessions w) \<Longrightarrow> sid \<in> set (srv_sessions v)"
    and "sent_of sid w = sent_of sid v"
  shows "\<exists>ms. sending_of sid w = sending_of sid v @ ms"
  using assms(1)
proof cases
  case (user u)
  then obtain t where "server_call u v = Some (w, t)" by (auto simp: map_option_case split: option.splits)
  then have "grows sid v w" by (rule calls_grow)
  then show ?thesis by (simp add: grows_def)
next
  case (accept i s ec)
  have "s \<in> set (srv_sessions w)" if "ec = 0"
    using accept(1) [symmetric] that
    by (auto simp: handled_Some server_handle_accept_def unless_thrown_Some Let_def server_defs)
  moreover have "s \<notin> set (srv_sessions v)" using accept(4) by (simp add: unused_def)
  ultimately have "ec \<noteq> 0 \<or> s \<noteq> sid" using assms(2) by blast
  then have "grows sid (server_finish i v) w"
    using accept(1) [symmetric] accept_grows by (simp add: handled_Some)
  then show ?thesis by (simp add: grows_def)
next
  case (read i s data ec)
  from read(1) [symmetric] show ?thesis
    using handle_read_effect(1) [of cb ec "length data" s "session_receive s data (server_finish i v)" w sid]
    by (cases "s = sid") (simp_all add: handled_Some session_receive_def upd_session_def)
next
  case (written i s m)
  from written(1) [symmetric] show ?thesis using assms(3)
    by (cases "s = sid") (auto simp: handled_Some session_handle_write_def server_defs Let_def
      split: list.splits if_splits)
next
  case (write_failed i s m ec)
  from write_failed(1) [symmetric] write_failed(4) have "grows sid (server_finish i v) w"
    using leave_grows by (simp add: handled_Some session_handle_write_def)
  then show ?thesis by (simp add: grows_def)
qed auto

section \<open>The two directions of the link\<close>

definition link_inv :: "tcp_link \<Rightarrow> bool" where
  "link_inv l \<longleftrightarrow> cs.sender_inv (l_client l) \<and> server_inv (l_server l)"

definition up_view :: "session_id \<Rightarrow> tcp_link \<Rightarrow> stream" where
  "up_view sid l = \<lparr>sm_queue = c_sending (l_client l), sm_sent = client_sent (l_client l), sm_pipe = l_up l,
     sm_packets = packets_of sid (l_server l)\<rparr>"

definition down_view :: "session_id \<Rightarrow> tcp_link \<Rightarrow> stream" where
  "down_view sid l = \<lparr>sm_queue = sending_of sid (l_server l), sm_sent = sent_of sid (l_server l),
     sm_pipe = l_down l, sm_packets = c_packets (l_client l)\<rparr>"

text \<open>
  When a direction is up: no write has failed, the socket of the sender is open and will not be shut down by a task
  already posted, and the other end is reading.
\<close>

definition up_ready :: "session_id \<Rightarrow> tcp_link \<Rightarrow> bool" where
  "up_ready sid l \<longleftrightarrow>
     client_inflight (l_client l) = take 1 (c_sending (l_client l)) \<and>
     c_socket (l_client l) \<notin> set (c_closed (l_client l)) \<and> Shutdown_task \<notin> set (c_posted (l_client l)) \<and>
     sid \<in> set (srv_sessions (l_server l))"

definition down_ready :: "session_id \<Rightarrow> tcp_link \<Rightarrow> bool" where
  "down_ready sid l \<longleftrightarrow>
     session_inflight sid (l_server l) = take 1 (sending_of sid (l_server l)) \<and>
     sid \<notin> set (srv_shut (l_server l)) \<and> Read_op (c_socket (l_client l)) \<in> set (c_pending (l_client l))"

lemma link_step_inv:
  assumes "link_step sid l l'" and inv: "link_inv l"
  shows "link_inv l'"
  using assms(1)
proof cases
  case (client_written i s m cb d)
  then show ?thesis using inv cs.step_inv [OF client_writes_step] by (auto simp: link_inv_def)
next
  case (client_read i s data d cb)
  then show ?thesis using inv cs.step_inv [OF client_reads_step] by (auto simp: link_inv_def)
next
  case (client_works d)
  then show ?thesis using inv cs.step_inv by (auto simp: link_inv_def)
next
  case (session_written i m cb w)
  then show ?thesis using inv server_step_inv [of cb _ w] server_step.written [of i "l_server l" sid m cb]
    by (auto simp: link_inv_def)
next
  case (session_read i data cb w)
  then show ?thesis using inv server_step_inv [of cb _ w] server_step.read [of i "l_server l" sid data cb 0]
    by (auto simp: link_inv_def)
next
  case (server_works cb w)
  then show ?thesis using inv server_step_inv by (auto simp: link_inv_def)
qed (use inv in \<open>auto simp: link_inv_def\<close>)

text \<open>Each step is, in each direction, an effect of the abstract stream.\<close>

lemma client_front:
  assumes "cs.sender_inv c" and "m \<in> set (client_inflight c)"
  shows "\<exists>q. c_sending c = m # q"
  using assms by (cases "c_sending c") (auto simp: cs.sender_inv_def)

lemma session_front:
  assumes "server_inv v" and "m \<in> set (session_inflight sid v)"
  shows "\<exists>q. sending_of sid v = m # q"
proof -
  have "session_ok sid v" using assms(1) by (simp add: server_inv_def sessions_ok_def)
  with assms(2) show ?thesis by (cases "sending_of sid v") (auto simp: session_ok_def)
qed

lemma up_effect:
  assumes "link_step sid l l'" and inv: "link_inv l"
  shows "stream_effect (up_view sid l) (up_view sid l')"
  using assms(1)
proof cases
  case (client_transmits m n)
  with client_front inv obtain q where "c_sending (l_client l) = m # q" unfolding link_inv_def by blast
  with client_transmits stream_effect.transmit [of "up_view sid l" m q n] show ?thesis
    by (simp add: up_view_def)
next
  case (client_written i s m cb d)
  obtain q where q: "c_sending (l_client l) = m # q"
    using write_op_front(2) [OF _ client_written(2,3)] inv by (auto simp: link_inv_def cs.sender_inv_def)
  with client_written client_writes_effect [OF client_written(5)]
    stream_effect.complete [of "up_view sid l" m q]
  show ?thesis by (auto simp: up_view_def)
next
  case (client_read i s data d cb)
  then show ?thesis
    by (intro stream_idle [where ms = "[]"]) (simp_all add: up_view_def client_reads_effect)
next
  case (client_works d)
  then obtain ms where "c_sending d = c_sending (l_client l) @ ms"
    using client_queue_effect by fastforce
  with client_works show ?thesis by (intro stream_idle [where ms = ms]) (simp_all add: up_view_def)
next
  case (session_read i data cb w)
  with session_reads_effect(3) [OF session_read(6)] stream_effect.deliver [of "up_view sid l" data]
  show ?thesis by (simp add: up_view_def)
next
  case (session_written i m cb w)
  then show ?thesis
    using session_writes_effect(3) [OF session_written(5)]
    by (intro stream_idle [where ms = "[]"]) (simp_all add: up_view_def)
qed (auto intro: stream_idle [where ms = "[]"] simp: up_view_def)

lemma down_effect:
  assumes "link_step sid l l'" and inv: "link_inv l"
  shows "stream_effect (down_view sid l) (down_view sid l')"
  using assms(1)
proof cases
  case (session_transmits m n)
  with session_front inv obtain q where "sending_of sid (l_server l) = m # q" unfolding link_inv_def by blast
  with session_transmits stream_effect.transmit [of "down_view sid l" m q n] show ?thesis
    by (simp add: down_view_def)
next
  case (session_written i m cb w)
  have "session_ok sid (l_server l)" using inv by (simp add: link_inv_def server_inv_def sessions_ok_def)
  then obtain q where q: "sending_of sid (l_server l) = m # q"
    using session_finish_write(2) session_written(2,3) by blast
  with session_written session_writes_effect [OF session_written(5)]
    stream_effect.complete [of "down_view sid l" m q]
  show ?thesis by (auto simp: down_view_def)
next
  case (session_read i data cb w)
  then show ?thesis using session_reads_effect(1,2) [OF session_read(6)]
    by (auto simp: down_view_def intro: stream_idle)
next
  case (server_works cb w)
  obtain ms where "sending_of sid w = sending_of sid (l_server l) @ ms"
    using server_queue_effect [OF server_works(2,3,4)] by blast
  with server_works show ?thesis by (intro stream_idle [where ms = ms]) (simp_all add: down_view_def)
next
  case (client_read i s data d cb)
  with client_reads_effect(3) [where c = "l_client l"] stream_effect.deliver [of "down_view sid l" data]
  show ?thesis by (simp add: down_view_def)
next
  case (client_written i s m cb d)
  then show ?thesis
    using client_writes_effect [OF client_written(5)]
    by (intro stream_idle [where ms = "[]"]) (auto simp: down_view_def)
qed (auto intro: stream_idle [where ms = "[]"] simp: down_view_def)

section \<open>What a link that is up can do\<close>

abbreviation session_accepted :: "session_id \<Rightarrow> tcp_link \<Rightarrow> chunk list" where
  "session_accepted sid l \<equiv> s_accepted (srv_objects (l_server l) sid)"

lemma up_can_transmit:
  assumes "up_ready sid l" and "sm_queue (up_view sid l) = m # q" and "p_off (sm_pipe (up_view sid l)) + n \<le> length m"
  shows "\<exists>l'. link_step sid l l' \<and> up_ready sid l' \<and> c_accepted (l_client l') = c_accepted (l_client l) \<and>
    up_view sid l' = (up_view sid l)\<lparr>sm_pipe := pipe_transmit n m (sm_pipe (up_view sid l))\<rparr>"
proof -
  let ?l = "l\<lparr>l_up := pipe_transmit n m (l_up l)\<rparr>"
  have "link_step sid l ?l"
    using assms by (intro link_step.client_transmits) (simp_all add: up_ready_def up_view_def)
  with assms(1) show ?thesis by (intro exI [of _ ?l]) (simp add: up_view_def up_ready_def)
qed

lemma up_can_complete:
  assumes "up_ready sid l" and "sm_queue (up_view sid l) = m # q" and "p_off (sm_pipe (up_view sid l)) = length m"
  shows "\<exists>l'. link_step sid l l' \<and> up_ready sid l' \<and> c_accepted (l_client l') = c_accepted (l_client l) \<and>
    up_view sid l' = (up_view sid l)\<lparr>sm_queue := q, sm_sent := sm_sent (up_view sid l) @ [m],
      sm_pipe := pipe_next (sm_pipe (up_view sid l))\<rparr>"
proof -
  let ?c = "l_client l"
  have q: "c_sending ?c = m # q" and off: "p_off (l_up l) = length m"
    using assms(2,3) by (simp_all add: up_view_def)
  have m: "client_inflight ?c = [m]" using assms(1) q by (simp add: up_ready_def)
  from extract_write [OF m] obtain i s where i: "i < length (c_pending ?c)" "c_pending ?c ! i = Write_op s m"
      and rest: "written_chunks (without_nth i (c_pending ?c)) = []" by metis
  obtain d where d: "client_writes [] i s m ?c = Some d"
    using q by (cases q) (simp_all add: client_handle_write_def client_do_write_def client_finish_def)
  let ?l = "l\<lparr>l_client := d, l_up := pipe_next (l_up l)\<rparr>"
  have "link_step sid l ?l" by (rule link_step.client_written [OF i off d])
  moreover have "c_sending d = q" "client_sent d = client_sent ?c @ [m]" "client_inflight d = take 1 q"
      "c_accepted d = c_accepted ?c" "c_posted d = c_posted ?c" "c_socket d = c_socket ?c" "c_closed d = c_closed ?c"
    using d q rest
    by (cases q; auto simp: client_handle_write_def client_do_write_def client_finish_def)+
  ultimately show ?thesis using assms(1) by (intro exI [of _ ?l]) (simp add: up_view_def up_ready_def)
qed

lemma up_can_deliver:
  assumes "link_inv l" and "up_ready sid l" and data: "length data \<le> max_buffer_size"
    and "prefix (p_read (sm_pipe (up_view sid l)) @ data) (p_sent (sm_pipe (up_view sid l)))"
  shows "\<exists>l'. link_step sid l l' \<and> up_ready sid l' \<and> c_accepted (l_client l') = c_accepted (l_client l) \<and>
    up_view sid l' = (up_view sid l)\<lparr>sm_pipe := pipe_deliver data (sm_pipe (up_view sid l)),
      sm_packets := sm_packets (up_view sid l) @ [data]\<rparr>"
proof -
  let ?v = "l_server l"
  have under_way: "prefix (p_read (l_up l) @ data) (p_sent (l_up l))" using assms(4) by (simp add: up_view_def)
  have "Session_read sid \<in> set (srv_pending ?v)"
    using assms(1,2) count_list_0_iff [of "srv_pending ?v" "Session_read sid"]
    by (auto simp: link_inv_def up_ready_def server_inv_def structure_ok_def)
  then obtain i where i: "i < length (srv_pending ?v)" "srv_pending ?v ! i = Session_read sid"
    by (auto simp: in_set_conv_nth)
  obtain w where w: "session_reads [] i data sid ?v = Some w"
    by (simp add: session_handle_read_def handled_def)
  let ?l = "l\<lparr>l_server := w, l_up := pipe_deliver data (l_up l)\<rparr>"
  have "link_step sid l ?l" by (rule link_step.session_read [OF i data under_way w])
  moreover have "srv_sessions w = srv_sessions ?v"
    using w by (auto simp: session_handle_read_def handled_def server_defs)
  ultimately show ?thesis
    using assms(2) session_reads_effect(3) [OF w] by (intro exI [of _ ?l]) (simp add: up_view_def up_ready_def)
qed

lemma down_can_transmit:
  assumes "down_ready sid l" and "sm_queue (down_view sid l) = m # q"
    and "p_off (sm_pipe (down_view sid l)) + n \<le> length m"
  shows "\<exists>l'. link_step sid l l' \<and> down_ready sid l' \<and> session_accepted sid l' = session_accepted sid l \<and>
    down_view sid l' = (down_view sid l)\<lparr>sm_pipe := pipe_transmit n m (sm_pipe (down_view sid l))\<rparr>"
proof -
  let ?l = "l\<lparr>l_down := pipe_transmit n m (l_down l)\<rparr>"
  have "link_step sid l ?l"
    using assms by (intro link_step.session_transmits) (simp_all add: down_ready_def down_view_def)
  with assms(1) show ?thesis by (intro exI [of _ ?l]) (simp add: down_view_def down_ready_def)
qed

lemma down_can_complete:
  assumes "down_ready sid l" and "sm_queue (down_view sid l) = m # q"
    and "p_off (sm_pipe (down_view sid l)) = length m"
  shows "\<exists>l'. link_step sid l l' \<and> down_ready sid l' \<and> session_accepted sid l' = session_accepted sid l \<and>
    down_view sid l' = (down_view sid l)\<lparr>sm_queue := q, sm_sent := sm_sent (down_view sid l) @ [m],
      sm_pipe := pipe_next (sm_pipe (down_view sid l))\<rparr>"
proof -
  let ?v = "l_server l"
  have q: "sending_of sid ?v = m # q" and off: "p_off (l_down l) = length m"
    using assms(2,3) by (simp_all add: down_view_def)
  have m: "written_chunks (map (as_net sid) (srv_pending ?v)) = [m]"
    using assms(1) q by (simp add: down_ready_def session_inflight_def)
  from extract_write_of [OF m] obtain as bs where ops: "srv_pending ?v = as @ Session_write sid m # bs"
      and rest: "written_chunks (map (as_net sid) (as @ bs)) = []"
    by (auto simp: extract_Some_iff)
  then have i: "length as < length (srv_pending ?v)" "srv_pending ?v ! length as = Session_write sid m"
      "without_nth (length as) (srv_pending ?v) = as @ bs"
    by (simp_all add: without_nth_def)
  obtain w where w: "session_writes [] (length as) m sid ?v = Some w"
    using q by (cases q) (simp_all add: session_handle_write_def handled_def server_defs)
  let ?l = "l\<lparr>l_server := w, l_down := pipe_next (l_down l)\<rparr>"
  have "link_step sid l ?l" by (rule link_step.session_written [OF i(1,2) off w])
  moreover have "sending_of sid w = q" "sent_of sid w = sent_of sid ?v @ [m]" "session_inflight sid w = take 1 q"
      "s_accepted (srv_objects w sid) = s_accepted (srv_objects ?v sid)" "srv_shut w = srv_shut ?v"
    using w q rest i(3)
    by (cases q; auto simp: session_handle_write_def handled_def server_defs)+
  ultimately show ?thesis using assms(1) by (intro exI [of _ ?l]) (simp add: down_view_def down_ready_def)
qed

lemma down_can_deliver:
  assumes "down_ready sid l" and data: "length data \<le> max_buffer_size"
    and "prefix (p_read (sm_pipe (down_view sid l)) @ data) (p_sent (sm_pipe (down_view sid l)))"
  shows "\<exists>l'. link_step sid l l' \<and> down_ready sid l' \<and> session_accepted sid l' = session_accepted sid l \<and>
    down_view sid l' = (down_view sid l)\<lparr>sm_pipe := pipe_deliver data (sm_pipe (down_view sid l)),
      sm_packets := sm_packets (down_view sid l) @ [data]\<rparr>"
proof -
  have under_way: "prefix (p_read (l_down l) @ data) (p_sent (l_down l))" using assms(3) by (simp add: down_view_def)
  obtain i where i: "i < length (c_pending (l_client l))"
      "c_pending (l_client l) ! i = Read_op (c_socket (l_client l))"
    using assms(1) by (auto simp: down_ready_def in_set_conv_nth)
  let ?d = "client_reads [] i data (l_client l)"
  let ?l = "l\<lparr>l_client := ?d, l_down := pipe_deliver data (l_down l)\<rparr>"
  have d: "c_socket ?d = c_socket (l_client l)" "Read_op (c_socket ?d) \<in> set (c_pending ?d)"
    by (simp_all add: client_handle_read_def client_calls_def client_defs)
  have "link_step sid l ?l" by (rule link_step.client_read [OF i data under_way HOL.refl d(1)])
  with assms(1) d(2) client_reads_effect(3) show ?thesis
    by (intro exI [of _ ?l]) (simp add: down_view_def down_ready_def)
qed

text \<open>The client's posted chunks can all be put in its queue.\<close>

lemma up_can_enqueue:
  assumes "up_ready sid l" and "c_posted (l_client l) = t # ts"
  shows "\<exists>l'. link_step sid l l' \<and> up_ready sid l' \<and> c_posted (l_client l') = ts \<and>
    c_accepted (l_client l') = c_accepted (l_client l)"
proof -
  let ?c = "l_client l"
  from assms obtain m where t: "t = Write_task m" by (cases t) (auto simp: up_ready_def)
  let ?c1 = "?c\<lparr>c_posted := ts\<rparr>"
  obtain d where d: "client_write_task m ?c1 = Some d" using cw.add_total [of m ?c1] by blast
  then have goes: "client_goes ?c d"
    using client_step.enqueue [of ?c m ts] assms(2) t by (simp add: running_def)
  have "cw.settled ?c1" using assms(1) by (simp add: up_ready_def cw.settled_def)
  then have "cw.settled d" using d by (rule cw.add_settled)
  moreover have "c_posted d = ts" "c_accepted d = c_accepted ?c" "c_socket d = c_socket ?c" "c_closed d = c_closed ?c"
      "c_wire d = c_wire ?c" "c_packets d = c_packets ?c"
    using d by (auto simp: client_write_task_def client_do_write_def Let_def split: if_splits list.splits)
  moreover from this have "link_step sid l (l\<lparr>l_client := d\<rparr>)" by (intro link_step.client_works [OF goes])
  ultimately show ?thesis
    using assms by (intro exI [of _ "l\<lparr>l_client := d\<rparr>"]) (simp add: up_ready_def cw.settled_def)
qed

section \<open>Both directions are byte streams\<close>

lemma promised_up:
  "link_inv l \<Longrightarrow> prefix (sm_sent (up_view sid l) @ sm_queue (up_view sid l)) (c_accepted (l_client l))"
  by (simp add: link_inv_def cs.sender_inv_def up_view_def)

lemma promised_down:
  "link_inv l \<Longrightarrow> prefix (sm_sent (down_view sid l) @ sm_queue (down_view sid l)) (session_accepted sid l)"
  "link_inv l \<Longrightarrow> session_accepted sid l = sm_sent (down_view sid l) @ sm_queue (down_view sid l)"
  by (simp_all add: link_inv_def server_inv_def sessions_ok_def session_ok_def down_view_def)

lemma nothing_posted_up:
  "link_inv l \<Longrightarrow> c_posted (l_client l) = [] \<Longrightarrow>
   c_accepted (l_client l) = sm_sent (up_view sid l) @ sm_queue (up_view sid l)"
  by (simp add: link_inv_def cs.sender_inv_def up_view_def)

interpretation up: posting_stream "up_view sid" "\<lambda>l. c_accepted (l_client l)" link_inv "link_step sid" "up_ready sid"
  "\<lambda>l. c_posted (l_client l)" for sid
  by (unfold_locales; intro up_can_transmit up_can_complete up_can_deliver up_can_enqueue nothing_posted_up promised_up conjI)
    (auto intro: link_step_inv up_effect)

interpretation down: byte_stream "down_view sid" "session_accepted sid" link_inv "link_step sid" "down_ready sid"
  for sid
  by (unfold_locales; (intro down_can_transmit down_can_complete down_can_deliver promised_down(1) conjI)?)
    (auto intro: link_step_inv down_effect dest: promised_down(2))

lemma link_good:
  assumes "client_new make_address r = Some c" "client_run c c0" "server_run (server_new p) v0"
    and "link_start sid c0 v0" and "(link_step sid)\<^sup>*\<^sup>* (link_new c0 v0) l"
  shows "up.good sid l" and "down.good sid l"
proof -
  have "link_inv (link_new c0 v0)"
    using cs.run_inv [OF assms(2) client_new_inv [OF assms(1)]] server_reachable_inv [OF assms(3)]
    by (simp add: link_inv_def link_new_def)
  then have "up.good sid (link_new c0 v0)" "down.good sid (link_new c0 v0)"
    using assms(4)
    by (simp_all add: up.good_def down.good_def stream_inv_def up_view_def down_view_def link_new_def
        link_start_def)
  then show "up.good sid l" "down.good sid l"
    using up.good_run [OF assms(5)] down.good_run [OF assms(5)] by blast+
qed

section \<open>A concrete link\<close>

text \<open>For the witnesses: the client has two bytes in its queue, and the server reads the first and sends it back.\<close>

definition demo_link :: tcp_link where
  "demo_link = link_new demo_writing demo_two"

definition demo_taken :: tcp_link where
  "demo_taken = demo_link\<lparr>l_up := pipe_transmit 1 [1, 2] (l_up demo_link)\<rparr>"

definition demo_echo :: tcp_link where
  "demo_echo = demo_taken\<lparr>
     l_server := the (session_reads [Call_write_to 16 [1]] 0 [1] 16 demo_two),
     l_up := pipe_deliver [1] (l_up demo_taken)\<rparr>"

lemmas demo_link_defs = demo_link_def demo_taken_def demo_echo_def link_new_def session_handle_read_def
  server_write_to_def packets_of_def demo_srv_defs

lemma demo_link_start: "link_start 16 demo_writing demo_two"
  by (simp add: link_start_def packets_of_def demo_defs demo_srv_defs)

lemma demo_link_run: "(link_step 16)\<^sup>*\<^sup>* demo_link demo_echo"
proof -
  have "link_step 16 demo_link demo_taken"
    unfolding demo_taken_def
    by (rule link_step.client_transmits) (simp_all add: demo_link_def link_new_def demo_defs)
  moreover have "link_step 16 demo_taken demo_echo"
    unfolding demo_echo_def
    by (rule link_step.session_read [where i = 0 and cb = "[Call_write_to 16 [1]]"])
      (simp_all add: demo_link_defs max_buffer_size_def pipe_new_def pipe_transmit_def)
  ultimately show ?thesis by (meson rtranclp.intros)
qed

section \<open>Properties\<close>

text \<open>C10: Over a TCP connection, each end's user gets exactly the bytes the other end's user has written, in order,
  and so far perhaps not all of them: the packets a session has handed out are a prefix of what the client
  has accepted, and the packets the client has handed out a prefix of what was written to the session;
  whatever the callbacks call, whatever else happens at the server, and also when writes fail. Where one
  chunk ends and the next begins is not kept.\<close>

theorem tcp_streams_agree:
  assumes "client_new make_address r = Some c" and "client_run c c0" and "server_run (server_new p) v0"
    and "link_start sid c0 v0" and "(link_step sid)\<^sup>*\<^sup>* (link_new c0 v0) l"
  shows "prefix (concat (packets_of sid (l_server l))) (concat (c_accepted (l_client l))) \<and>
    prefix (concat (c_packets (l_client l))) (concat (s_accepted (srv_objects (l_server l) sid)))"
  using up.delivers_prefix [OF link_good(1) [OF assms]] down.delivers_prefix [OF link_good(2) [OF assms]]
  by (simp add: up_view_def down_view_def)

theorem tcp_streams_agree_witness:
  "packets_of 16 (l_server demo_echo) = [[1]] \<and>
   prefix (concat (packets_of 16 (l_server demo_echo))) (concat (c_accepted (l_client demo_echo)))"
  using tcp_streams_agree [OF demo_new_eq demo_client_run(1) demo_srv_run(1) demo_link_start
      demo_link_run [unfolded demo_link_def]]
  by (simp add: demo_link_defs)

text \<open>C11: A connection that is up delivers everything: if none of the client's writes has failed, its socket is open with no
  shutdown posted, and the session is still in the server's map, then there is a continuation after which
  the session's user has got exactly the bytes the client has accepted; likewise for what was written
  to the session, while the client is reading.\<close>

theorem tcp_delivers_all:
  assumes "client_new make_address r = Some c" and "client_run c c0" and "server_run (server_new p) v0"
    and "link_start sid c0 v0" and "(link_step sid)\<^sup>*\<^sup>* (link_new c0 v0) l"
  shows "(up_ready sid l \<longrightarrow> (\<exists>l'. (link_step sid)\<^sup>*\<^sup>* l l' \<and>
      concat (packets_of sid (l_server l')) = concat (c_accepted (l_client l)))) \<and>
    (down_ready sid l \<longrightarrow> (\<exists>l'. (link_step sid)\<^sup>*\<^sup>* l l' \<and>
      concat (c_packets (l_client l')) = concat (s_accepted (srv_objects (l_server l) sid))))"
  using up.delivers_all [OF link_good(1) [OF assms]] down.delivers_all [OF link_good(2) [OF assms]]
  by (auto simp: up_view_def down_view_def)

theorem tcp_delivers_all_witness:
  "(\<exists>l. (link_step 16)\<^sup>*\<^sup>* demo_echo l \<and> concat (packets_of 16 (l_server l)) = [1, 2]) \<and>
   (\<exists>l. (link_step 16)\<^sup>*\<^sup>* demo_echo l \<and> concat (c_packets (l_client l)) = [1])"
proof -
  have "up_ready 16 demo_echo" "down_ready 16 demo_echo"
    by (simp_all add: up_ready_def down_ready_def demo_link_defs demo_defs)
  moreover have "concat (c_accepted (l_client demo_echo)) = [1, 2]"
      "concat (s_accepted (srv_objects (l_server demo_echo) 16)) = [1]"
    by (simp_all add: demo_link_defs demo_defs)
  ultimately show ?thesis
    using tcp_delivers_all [OF demo_new_eq demo_client_run(1) demo_srv_run(1) demo_link_start
        demo_link_run [unfolded demo_link_def]]
    by simp
qed

end
