(* ===== verification/Serial_Port.thy ===== *)
theory Serial_Port
  imports Net_Base
begin

text \<open>
  Serial communication (\<^verbatim>\<open>src/net/serial/serial.cpp\<close> and \<^verbatim>\<open>serial_params.cpp\<close>). \<open>serial\<close> is
  the object, as for the TCP client; \<open>sr_port\<close> is the number of the current port object,
  \<open>sr_open\<close> whether it is open, and \<open>sr_applied\<close> the options set on it. Opening runs on the thread
  of the \<^verbatim>\<open>io_context_\<close>, as a posted task.

  \<open>sr_accepted\<close>, \<open>sr_reported\<close>, \<open>sr_data\<close> and \<open>sr_wire\<close> are history.
\<close>

section \<open>Parameters\<close>

datatype baud_rate = br1200 | br2400 | br4800 | br9600 | br14400 | br19200 | br38400 | br57600 | br115200

datatype character_size = cs5 | cs6 | cs7 | cs8 | cs9

datatype parity = parity_none | parity_odd | parity_even

datatype stop_bits = one | onepointfive | two

datatype flow_control = flow_none | software | hardware

record serial_params =
  p_baud_rate :: baud_rate
  p_character_size :: character_size
  p_parity :: parity
  p_stop_bits :: stop_bits
  p_flow_control :: flow_control

primrec baud_value :: "baud_rate \<Rightarrow> nat" where
  "baud_value br1200 = 1200" | "baud_value br2400 = 2400" | "baud_value br4800 = 4800"
| "baud_value br9600 = 9600" | "baud_value br14400 = 14400" | "baud_value br19200 = 19200"
| "baud_value br38400 = 38400" | "baud_value br57600 = 57600" | "baud_value br115200 = 115200"

primrec size_value :: "character_size \<Rightarrow> nat" where
  "size_value cs5 = 5" | "size_value cs6 = 6" | "size_value cs7 = 7" | "size_value cs8 = 8"
| "size_value cs9 = 9"

text \<open>The options as the port gets them; the last three enumerations are Asio's own values.\<close>

datatype serial_option =
    Opt_baud_rate nat | Opt_character_size nat | Opt_parity parity
  | Opt_stop_bits stop_bits | Opt_flow_control flow_control

definition params_baud_rate :: "serial_params \<Rightarrow> serial_option" where
  "params_baud_rate p = Opt_baud_rate (baud_value (p_baud_rate p))"

definition params_character_size :: "serial_params \<Rightarrow> serial_option" where
  "params_character_size p = Opt_character_size (size_value (p_character_size p))"

definition params_parity :: "serial_params \<Rightarrow> serial_option" where
  "params_parity p = Opt_parity (p_parity p)"

definition params_stop_bits :: "serial_params \<Rightarrow> serial_option" where
  "params_stop_bits p = Opt_stop_bits (p_stop_bits p)"

definition params_flow_control :: "serial_params \<Rightarrow> serial_option" where
  "params_flow_control p = Opt_flow_control (p_flow_control p)"

definition params_new :: "baud_rate \<Rightarrow> character_size \<Rightarrow> parity \<Rightarrow> stop_bits \<Rightarrow> flow_control \<Rightarrow>
    serial_params" where
  "params_new b c p s f = \<lparr>p_baud_rate = b, p_character_size = c, p_parity = p, p_stop_bits = s,
     p_flow_control = f\<rparr>"

text \<open>\<^verbatim>\<open>SerialParams8N1\<close> with its default arguments.\<close>

definition params_8n1 :: "baud_rate \<Rightarrow> serial_params" where
  "params_8n1 b = params_new b cs8 parity_none one flow_none"

section \<open>State\<close>

datatype serial_task = Close_task | Open_task | Send_task chunk

record serial =
  sr_port_name :: string
  sr_params :: serial_params
  sr_state :: conn_state
  sr_posted :: "serial_task list"
  sr_pending :: "net_op list"
  sr_port :: nat
  sr_open :: bool
  sr_applied :: "serial_option list"
  sr_received :: bytes
  sr_sending :: "chunk list"
  sr_accepted :: "chunk list"
  sr_reported :: "(conn_state \<times> error_code) list"
  sr_data :: "chunk list"
  sr_wire :: "(nat \<times> chunk) list"

datatype serial_api = Serial_write chunk | Serial_close | Serial_reopen

section \<open>Public operations\<close>

definition serial_is_opened :: "serial \<Rightarrow> bool" where
  "serial_is_opened s \<longleftrightarrow> connected = sr_state s"

definition serial_are_all_messages_sent :: "serial \<Rightarrow> bool" where
  "serial_are_all_messages_sent s \<longleftrightarrow> sr_sending s = []"

definition serial_do_open :: "serial \<Rightarrow> serial" where
  "serial_do_open s =
     s\<lparr>sr_state := disconnected, sr_port := Suc (sr_port s), sr_open := False, sr_applied := [],
       sr_posted := sr_posted s @ [Open_task]\<rparr>"

definition serial_new :: "string \<Rightarrow> serial_params \<Rightarrow> serial" where
  "serial_new port_name params =
     serial_do_open
       \<lparr>sr_port_name = port_name, sr_params = params, sr_state = disconnected, sr_posted = [],
        sr_pending = [], sr_port = 0, sr_open = False, sr_applied = [],
        sr_received = replicate max_buffer_size 0, sr_sending = [], sr_accepted = [],
        sr_reported = [], sr_data = [], sr_wire = []\<rparr>"

definition serial_close :: "serial \<Rightarrow> serial" where
  "serial_close s = s\<lparr>sr_state := disconnected, sr_posted := sr_posted s @ [Close_task]\<rparr>"

definition serial_reopen :: "serial \<Rightarrow> serial" where
  "serial_reopen s = serial_do_open (serial_close s)"

definition serial_write :: "chunk \<Rightarrow> serial \<Rightarrow> serial \<times> bool" where
  "serial_write chunk s =
     (if \<not> serial_is_opened s then (s, False)
      else (s\<lparr>sr_posted := sr_posted s @ [Send_task chunk], sr_accepted := sr_accepted s @ [chunk]\<rparr>, True))"

text \<open>The destructor: after \<^verbatim>\<open>io_context_.stop()\<close> no task and no handler runs any more.\<close>

definition serial_destroy :: "serial \<Rightarrow> serial" where
  "serial_destroy s = (serial_close s)\<lparr>sr_posted := [], sr_pending := []\<rparr>"

fun serial_call :: "serial_api \<Rightarrow> serial \<Rightarrow> serial" where
  "serial_call (Serial_write m) s = fst (serial_write m s)"
| "serial_call Serial_close s = serial_close s"
| "serial_call Serial_reopen s = serial_reopen s"

text \<open>\<^verbatim>\<open>flush\<close>: \<open>err\<close> is \<^verbatim>\<open>errno\<close> (or \<^verbatim>\<open>GetLastError\<close>) when the system call fails.\<close>

definition serial_flush :: "bool \<Rightarrow> error_code \<Rightarrow> error_code" where
  "serial_flush is_flushed err = (if \<not> is_flushed then err else 0)"

section \<open>Handlers\<close>

definition serial_calls :: "serial_api list \<Rightarrow> serial \<Rightarrow> serial" where
  "serial_calls cb s = fold serial_call cb s"

definition serial_call_back_connection_handler ::
  "serial_api list \<Rightarrow> conn_state \<Rightarrow> error_code \<Rightarrow> serial \<Rightarrow> serial" where
  "serial_call_back_connection_handler cb state ec s =
     serial_calls cb (s\<lparr>sr_state := state, sr_reported := sr_reported s @ [(state, ec)]\<rparr>)"

definition serial_do_read :: "serial \<Rightarrow> serial" where
  "serial_do_read s = s\<lparr>sr_pending := sr_pending s @ [Read_op (sr_port s)]\<rparr>"

text \<open>
  \<open>set_option\<close> throws when the port refuses an option (\<open>options_ok\<close> false): \<open>None\<close>, and the
  exception ends the program.
\<close>

definition set_options :: "bool \<Rightarrow> serial \<Rightarrow> serial option" where
  "set_options options_ok s =
     (if options_ok
      then Some (s\<lparr>sr_applied := [params_baud_rate (sr_params s), params_character_size (sr_params s),
                    params_stop_bits (sr_params s), params_parity (sr_params s),
                    params_flow_control (sr_params s)]\<rparr>)
      else None)"

definition serial_handle_open ::
  "serial_api list \<Rightarrow> error_code \<Rightarrow> bool \<Rightarrow> error_code \<Rightarrow> serial \<Rightarrow> serial option" where
  "serial_handle_open cb ec options_ok flush_ec s =
     (if ec \<noteq> 0 then Some (serial_call_back_connection_handler cb disconnected ec s)
      else do {
        s \<leftarrow> set_options options_ok s;
        if flush_ec \<noteq> 0 then Some (serial_call_back_connection_handler cb disconnected flush_ec s)
        else Some (serial_do_read (serial_call_back_connection_handler cb connected flush_ec s))
      })"

text \<open>The task posted by \<^verbatim>\<open>do_open\<close>.\<close>

definition serial_open_task ::
  "serial_api list \<Rightarrow> error_code \<Rightarrow> bool \<Rightarrow> error_code \<Rightarrow> serial \<Rightarrow> serial option" where
  "serial_open_task cb ec options_ok flush_ec s =
     serial_handle_open cb ec options_ok flush_ec (s\<lparr>sr_open := (if ec = 0 then True else sr_open s)\<rparr>)"

text \<open>The task posted by \<^verbatim>\<open>close\<close>; it throws when the port cannot be closed.\<close>

definition serial_close_task :: "bool \<Rightarrow> serial \<Rightarrow> serial option" where
  "serial_close_task ok s = (if ok then Some (s\<lparr>sr_open := False\<rparr>) else None)"

definition serial_handle_read :: "serial_api list \<Rightarrow> error_code \<Rightarrow> nat \<Rightarrow> serial \<Rightarrow> serial" where
  "serial_handle_read cb ec sz s =
     (if ec \<noteq> 0 then serial_call_back_connection_handler cb disconnected ec s
      else serial_do_read (serial_calls cb (s\<lparr>sr_data := sr_data s @ [take sz (sr_received s)]\<rparr>)))"

definition serial_do_write :: "serial \<Rightarrow> serial option" where
  "serial_do_write s =
     (case sr_sending s of
        [] \<Rightarrow> None
      | message # _ \<Rightarrow> Some (s\<lparr>sr_pending := sr_pending s @ [Write_op (sr_port s) message]\<rparr>))"

definition serial_handle_write :: "serial_api list \<Rightarrow> error_code \<Rightarrow> serial \<Rightarrow> serial option" where
  "serial_handle_write cb ec s =
     (if ec \<noteq> 0 then Some (serial_call_back_connection_handler cb disconnected ec s)
      else case sr_sending s of
        [] \<Rightarrow> None
      | _ # q \<Rightarrow>
          let s = s\<lparr>sr_sending := q\<rparr>
          in if q \<noteq> [] then serial_do_write s else Some s)"

text \<open>The task posted by \<^verbatim>\<open>write\<close>.\<close>

definition serial_send_task :: "chunk \<Rightarrow> serial \<Rightarrow> serial option" where
  "serial_send_task chunk s =
     (let write_in_progress = (sr_sending s \<noteq> []);
          s = s\<lparr>sr_sending := sr_sending s @ [chunk]\<rparr>
      in if \<not> write_in_progress then serial_do_write s else Some s)"

section \<open>Steps\<close>

text \<open>How a step ends: the object goes on, the behaviour is undefined, or an exception leaves
  \<^verbatim>\<open>io_context_.run()\<close>.\<close>

datatype serial_outcome = Goes_on serial | Is_undefined | Terminates

definition goes_on :: "serial option \<Rightarrow> serial_outcome" where
  "goes_on r = (case r of None \<Rightarrow> Is_undefined | Some s \<Rightarrow> Goes_on s)"

definition or_terminates :: "serial option \<Rightarrow> serial_outcome" where
  "or_terminates r = (case r of None \<Rightarrow> Terminates | Some s \<Rightarrow> Goes_on s)"

definition serial_finish :: "nat \<Rightarrow> serial \<Rightarrow> serial" where
  "serial_finish i s = s\<lparr>sr_pending := without_nth i (sr_pending s)\<rparr>"

definition serial_receive :: "bytes \<Rightarrow> serial \<Rightarrow> serial" where
  "serial_receive data s = s\<lparr>sr_received := data @ drop (length data) (sr_received s)\<rparr>"

text \<open>
  Operations end at any moment and with any result, also on a port that has been closed or replaced since: the operation may
  have ended before, with its handler still to run. Claims that something can be sent only use steps
  of a port that is up (\<open>serial_up\<close>).
\<close>

inductive serial_step :: "serial \<Rightarrow> serial_outcome \<Rightarrow> bool" where
  user: "serial_step s (Goes_on (serial_call u s))"
| close: "sr_posted s = Close_task # ts \<Longrightarrow>
     serial_step s (or_terminates (serial_close_task ok (s\<lparr>sr_posted := ts\<rparr>)))"
| open_port: "sr_posted s = Open_task # ts \<Longrightarrow>
     serial_step s (or_terminates (serial_open_task cb ec options_ok (serial_flush flushed err)
       (s\<lparr>sr_posted := ts\<rparr>)))"
| send: "sr_posted s = Send_task m # ts \<Longrightarrow>
     serial_step s (goes_on (serial_send_task m (s\<lparr>sr_posted := ts\<rparr>)))"
| read: "i < length (sr_pending s) \<Longrightarrow> sr_pending s ! i = Read_op p \<Longrightarrow> length data \<le> max_buffer_size \<Longrightarrow>
     serial_step s (Goes_on (serial_handle_read cb ec (length data)
       (serial_receive data (serial_finish i s))))"
| written: "i < length (sr_pending s) \<Longrightarrow> sr_pending s ! i = Write_op p m \<Longrightarrow>
     serial_step s (goes_on (serial_handle_write cb 0
       ((serial_finish i s)\<lparr>sr_wire := sr_wire s @ [(p, m)]\<rparr>)))"
| write_failed: "i < length (sr_pending s) \<Longrightarrow> sr_pending s ! i = Write_op p m \<Longrightarrow> ec \<noteq> 0 \<Longrightarrow>
     serial_step s (goes_on (serial_handle_write cb ec (serial_finish i s)))"

abbreviation serial_goes :: "serial \<Rightarrow> serial \<Rightarrow> bool" where
  "serial_goes s t \<equiv> serial_step s (Goes_on t)"

abbreviation serial_run :: "serial \<Rightarrow> serial \<Rightarrow> bool" where
  "serial_run \<equiv> serial_goes\<^sup>*\<^sup>*"

section \<open>The send queue of the port\<close>

definition serial_complete :: "serial \<Rightarrow> serial option" where
  "serial_complete s =
     (case List.extract is_write (sr_pending s) of
        Some (as, Write_op p m, bs) \<Rightarrow>
          serial_handle_write [] 0 (s\<lparr>sr_pending := as @ bs, sr_wire := sr_wire s @ [(p, m)]\<rparr>)
      | _ \<Rightarrow> None)"

abbreviation serial_inflight :: "serial \<Rightarrow> chunk list" where
  "serial_inflight s \<equiv> written_chunks (sr_pending s)"

abbreviation serial_sent :: "serial \<Rightarrow> chunk list" where
  "serial_sent s \<equiv> map snd (sr_wire s)"

interpretation pw: async_writer sr_sending serial_inflight serial_sent serial_send_task serial_complete
proof unfold_locales
  fix s :: serial and m q
  show "sr_sending s = [] \<Longrightarrow> \<exists>t. serial_send_task m s = Some t \<and> sr_sending t = [m] \<and>
      serial_inflight t = serial_inflight s @ [m] \<and> serial_sent t = serial_sent s"
    by (simp add: serial_send_task_def serial_do_write_def)
  show "sr_sending s \<noteq> [] \<Longrightarrow> \<exists>t. serial_send_task m s = Some t \<and> sr_sending t = sr_sending s @ [m] \<and>
      serial_inflight t = serial_inflight s \<and> serial_sent t = serial_sent s"
    by (simp add: serial_send_task_def)
  assume q: "sr_sending s = m # q" and "serial_inflight s = [m]"
  then obtain as p bs where "List.extract is_write (sr_pending s) = Some (as, Write_op p m, bs)"
      "written_chunks (as @ bs) = []"
    using extract_write by blast
  with q show "\<exists>t. serial_complete s = Some t \<and> sr_sending t = q \<and>
      serial_inflight t = take 1 q \<and> serial_sent t = serial_sent s @ [m]"
    by (cases q) (simp_all add: serial_complete_def serial_handle_write_def serial_do_write_def)
qed

section \<open>The port as an abstract sender\<close>

fun posted_sends :: "serial_task list \<Rightarrow> chunk list" where
  "posted_sends [] = []"
| "posted_sends (Send_task m # ts) = m # posted_sends ts"
| "posted_sends (_ # ts) = posted_sends ts"

lemma posted_sends_append [simp]: "posted_sends (xs @ ys) = posted_sends xs @ posted_sends ys"
  by (induction xs rule: posted_sends.induct) simp_all

definition serial_view :: "serial \<Rightarrow> writer" where
  "serial_view s =
     \<lparr>aw_queue = sr_sending s, aw_inflight = serial_inflight s, aw_sent = serial_sent s,
      aw_accepted = sr_accepted s, aw_backlog = posted_sends (sr_posted s)\<rparr>"

definition port_accepts :: "serial \<Rightarrow> serial \<Rightarrow> bool" where
  "port_accepts s t \<longleftrightarrow> (\<exists>ms. serial_view t = (serial_view s)
     \<lparr>aw_accepted := sr_accepted s @ ms, aw_backlog := posted_sends (sr_posted s) @ ms\<rparr>)"

named_theorems serial_defs

lemmas [serial_defs] = serial_do_open_def serial_reopen_def serial_close_def serial_write_def
  serial_do_read_def serial_finish_def serial_receive_def

lemma port_accepts_effect: "port_accepts s t \<Longrightarrow> writer_effect (serial_view s) (serial_view t)"
  using writer_effect.accept [of "serial_view s"] by (auto simp: port_accepts_def serial_view_def)

lemma port_accepts_same: "serial_view t = serial_view s \<Longrightarrow> port_accepts s t"
  by (auto simp: port_accepts_def serial_view_def intro: exI [of _ "[]"])

lemma port_accepts_trans: "port_accepts s t \<Longrightarrow> port_accepts t u \<Longrightarrow> port_accepts s u"
  by (auto simp: port_accepts_def serial_view_def)

lemma port_accepts_call: "port_accepts s (serial_call u s)"
  by (cases u) (auto simp: port_accepts_def serial_view_def serial_defs)

lemma port_accepts_calls: "port_accepts s (serial_calls cb s)"
  unfolding serial_calls_def
proof (induction cb arbitrary: s)
  case (Cons u cb)
  show ?case using port_accepts_trans [OF port_accepts_call Cons.IH] by simp
qed (simp add: port_accepts_same)

lemma port_accepts_call_back:
  "serial_view t = serial_view s \<Longrightarrow> port_accepts s (serial_call_back_connection_handler cb st ec t)"
  unfolding serial_call_back_connection_handler_def
  by (rule port_accepts_trans [OF port_accepts_same port_accepts_calls]) (simp add: serial_view_def)

lemma port_accepts_do_read: "port_accepts s t \<Longrightarrow> port_accepts s (serial_do_read t)"
  by (erule port_accepts_trans) (simp add: port_accepts_same serial_view_def serial_defs)

lemma port_accepts_read: "port_accepts s (serial_handle_read cb ec n (serial_receive data s))"
proof -
  have "port_accepts s (serial_calls cb ((serial_receive data s)\<lparr>sr_data := d\<rparr>))" for d
    by (rule port_accepts_trans [OF port_accepts_same port_accepts_calls])
      (simp add: serial_view_def serial_defs)
  moreover have "port_accepts s (serial_call_back_connection_handler cb disconnected ec (serial_receive data s))"
    by (rule port_accepts_call_back) (simp add: serial_view_def serial_defs)
  ultimately show ?thesis
    unfolding serial_handle_read_def by (auto intro: port_accepts_do_read)
qed

lemma port_accepts_open:
  "serial_open_task cb ec ok fe s = Some t \<Longrightarrow> port_accepts s t"
  by (auto simp: serial_open_task_def serial_handle_open_def set_options_def serial_view_def
      intro!: port_accepts_do_read port_accepts_call_back split: if_splits bind_splits)

lemma port_accepts_finish:
  assumes "i < length (sr_pending s)" and "\<not> (\<exists>p m. sr_pending s ! i = Write_op p m)"
  shows "port_accepts s (serial_finish i s)"
  using written_without(1) [OF assms] by (simp add: port_accepts_same serial_view_def serial_defs)

lemma port_accepts_task:
  "sr_posted s = t # ts \<Longrightarrow> \<not> (\<exists>m. t = Send_task m) \<Longrightarrow> port_accepts s (s\<lparr>sr_posted := ts\<rparr>)"
  by (cases t) (auto simp: serial_view_def intro!: port_accepts_same)

lemma serial_step_effect:
  assumes "serial_goes s t"
  shows "writer_effect (serial_view s) (serial_view t)"
  using assms
proof cases
  case (user u)
  then show ?thesis using port_accepts_effect [OF port_accepts_call] by simp
next
  case (close ts ok)
  then show ?thesis
    by (intro port_accepts_effect port_accepts_same)
      (auto simp: or_terminates_def serial_close_task_def serial_view_def split: if_splits)
next
  case (open_port ts cb ec options_ok flushed err)
  then have "serial_open_task cb ec options_ok (serial_flush flushed err) (s\<lparr>sr_posted := ts\<rparr>) = Some t"
    by (auto simp: or_terminates_def split: option.splits)
  with open_port(2) show ?thesis
    using port_accepts_effect [OF port_accepts_trans [OF port_accepts_task port_accepts_open]] by auto
next
  case (send m ts)
  then have t: "serial_send_task m (s\<lparr>sr_posted := ts\<rparr>) = Some t"
    by (auto simp: goes_on_def split: option.splits)
  have "aw_backlog (serial_view s) = m # posted_sends ts" using send(2) by (simp add: serial_view_def)
  from writer_effect.enqueue [OF this] t show ?thesis
    by (auto simp: serial_view_def serial_send_task_def serial_do_write_def split: if_splits)
next
  case (read i p data cb ec)
  then show ?thesis
    using port_accepts_effect [OF port_accepts_trans [OF port_accepts_finish port_accepts_read]] by auto
next
  case (written i p m cb)
  obtain as bs where w: "serial_inflight s = as @ m # bs" "written_chunks (without_nth i (sr_pending s)) = as @ bs"
    using written_without(2) [OF written(2,3)] by blast
  obtain x q where q: "sr_sending s = x # q"
    using written(1) by (cases "sr_sending s")
      (auto simp: goes_on_def serial_handle_write_def serial_finish_def)
  have "aw_inflight (serial_view s) = as @ m # bs" "aw_queue (serial_view s) = x # q"
    using w q by (simp_all add: serial_view_def)
  from writer_effect.written [OF this] written(1) q w show ?thesis
    by (cases q) (auto simp: serial_view_def goes_on_def serial_handle_write_def serial_do_write_def
        serial_finish_def)
next
  case (write_failed i p m ec cb)
  obtain as bs where w: "serial_inflight s = as @ m # bs" "written_chunks (without_nth i (sr_pending s)) = as @ bs"
    using written_without(2) [OF write_failed(2,3)] by blast
  have "aw_inflight (serial_view s) = as @ m # bs" using w by (simp add: serial_view_def)
  note fail = writer_effect.failed [OF this]
  have "port_accepts (serial_finish i s) t"
    using write_failed port_accepts_call_back by (auto simp: goes_on_def serial_handle_write_def)
  with fail w show ?thesis by (auto simp: port_accepts_def serial_view_def serial_finish_def)
qed

text \<open>
  When a write can succeed: the port is open, no posted task will close or open it, and the outstanding write is one on this
  port.
\<close>

definition serial_up :: "serial \<Rightarrow> bool" where
  "serial_up s \<longleftrightarrow> sr_open s \<and> Close_task \<notin> set (sr_posted s) \<and> Open_task \<notin> set (sr_posted s) \<and>
     (\<forall>op \<in> set (sr_pending s). is_write op \<longrightarrow> (\<exists>m. op = Write_op (sr_port s) m))"

abbreviation serial_up_run :: "serial \<Rightarrow> serial \<Rightarrow> bool" where
  "serial_up_run \<equiv> (\<lambda>s t. serial_goes s t \<and> serial_up s \<and> serial_up t)\<^sup>*\<^sup>*"

lemma serial_complete_step:
  assumes "serial_up s" and "serial_complete s = Some t"
  shows "serial_goes s t \<and> serial_up t \<and> sr_accepted t = sr_accepted s \<and> sr_posted t = sr_posted s"
proof -
  obtain as p m bs where e: "List.extract is_write (sr_pending s) = Some (as, Write_op p m, bs)"
      and d: "serial_handle_write [] 0 (s\<lparr>sr_pending := as @ bs, sr_wire := sr_wire s @ [(p, m)]\<rparr>) = Some t"
    using assms(2) by (auto simp: serial_complete_def split: option.splits net_op.splits)
  then have pend: "sr_pending s = as @ Write_op p m # bs" by (simp add: extract_Some_iff)
  then have i: "length as < length (sr_pending s)" "sr_pending s ! length as = Write_op p m" by simp_all
  have "(serial_finish (length as) s)\<lparr>sr_wire := sr_wire s @ [(p, m)]\<rparr> =
      s\<lparr>sr_pending := as @ bs, sr_wire := sr_wire s @ [(p, m)]\<rparr>"
    by (simp add: serial_finish_def pend without_nth_def)
  with d serial_step.written [OF i, of "[]"] have "serial_goes s t" by (simp add: goes_on_def)
  moreover have "serial_up t \<and> sr_accepted t = sr_accepted s \<and> sr_posted t = sr_posted s"
    using d assms(1) pend by (auto simp: serial_handle_write_def serial_do_write_def serial_up_def Let_def
        split: list.splits if_splits)
  ultimately show ?thesis by simp
qed

text \<open>The first task of a port that is up puts a chunk in its queue.\<close>

lemma serial_posted_step:
  assumes "serial_up s" and "sr_posted s = t # ts"
  shows "\<exists>m u. serial_send_task m (s\<lparr>sr_posted := ts\<rparr>) = Some u \<and> serial_goes s u \<and> serial_up u \<and>
    sr_accepted u = sr_accepted s \<and> sr_posted u = ts"
proof -
  from assms obtain m where t: "t = Send_task m" by (cases t) (auto simp: serial_up_def)
  obtain u where u: "serial_send_task m (s\<lparr>sr_posted := ts\<rparr>) = Some u"
    using pw.add_total [of m "s\<lparr>sr_posted := ts\<rparr>"] by blast
  have "serial_up u \<and> sr_accepted u = sr_accepted s \<and> sr_posted u = ts"
    using u assms by (auto simp: serial_send_task_def serial_do_write_def serial_up_def Let_def
        split: if_splits list.splits)
  with u assms(2) t serial_step.send [of s m ts] show ?thesis by (auto simp: goes_on_def)
qed

interpretation ps: posting_writer sr_sending serial_inflight serial_sent serial_send_task serial_complete
  sr_accepted "\<lambda>s. posted_sends (sr_posted s)" serial_goes serial_up sr_posted
proof unfold_locales
  fix s t :: serial and p ts
  show "serial_goes s t \<Longrightarrow> writer_effect
      \<lparr>aw_queue = sr_sending s, aw_inflight = serial_inflight s, aw_sent = serial_sent s, aw_accepted = sr_accepted s,
        aw_backlog = posted_sends (sr_posted s)\<rparr>
      \<lparr>aw_queue = sr_sending t, aw_inflight = serial_inflight t, aw_sent = serial_sent t, aw_accepted = sr_accepted t,
        aw_backlog = posted_sends (sr_posted t)\<rparr>"
    using serial_step_effect unfolding serial_view_def .
  show "serial_up s \<Longrightarrow> serial_complete s = Some t \<Longrightarrow> serial_goes s t \<and> serial_up t \<and>
      sr_accepted t = sr_accepted s \<and> posted_sends (sr_posted t) = posted_sends (sr_posted s)"
    using serial_complete_step by metis
  assume "serial_up s" and "sr_posted s = p # ts"
  from serial_posted_step [OF this] obtain m u where
    "serial_send_task m (s\<lparr>sr_posted := ts\<rparr>) = Some u" "serial_goes s u" "serial_up u"
    "sr_accepted u = sr_accepted s" "sr_posted u = ts"
    by blast
  then show "\<exists>m u s'. serial_send_task m s' = Some u \<and> sr_sending s' = sr_sending s \<and>
      serial_inflight s' = serial_inflight s \<and> serial_goes s u \<and> serial_up u \<and>
      sr_accepted u = sr_accepted s \<and> sr_posted u = ts"
    by (intro exI [of _ m] exI [of _ u] exI [of _ "s\<lparr>sr_posted := ts\<rparr>"]) simp
qed simp

lemma serial_up_step: "ps.up_step = (\<lambda>s t. serial_goes s t \<and> serial_up s \<and> serial_up t)"
  by (intro ext) (simp add: ps.up_step_def)

text \<open>A write that fails blocks the port.\<close>

lemma serial_failed_stuck:
  assumes "ps.sender_inv s" and "i < length (sr_pending s)" and "sr_pending s ! i = Write_op p m" and "ec \<noteq> 0"
    and "serial_handle_write cb ec (serial_finish i s) = Some t"
  shows "serial_goes s t" and "pw.stuck t" and "serial_sent t = serial_sent s"
proof -
  show "serial_goes s t"
    using serial_step.write_failed [OF assms(2,3,4), of cb] assms(5) by (simp add: goes_on_def)
  have inflight: "serial_inflight s = [] \<or> serial_inflight s = take 1 (sr_sending s)"
    using assms(1) by (auto simp: ps.sender_inv_def)
  have "port_accepts (serial_finish i s) t"
    using assms(4,5) port_accepts_call_back by (auto simp: serial_handle_write_def)
  then have t: "sr_sending t = sr_sending s" "serial_inflight t = serial_inflight (serial_finish i s)"
      "serial_sent t = serial_sent s"
    by (auto simp: port_accepts_def serial_view_def serial_finish_def)
  then show "serial_sent t = serial_sent s" by simp
  have "serial_inflight t = []" "serial_inflight s \<noteq> []"
    using write_op_front(1) [OF inflight assms(2,3)] written_without(2) [OF assms(2,3)] t(2)
    by (auto simp: serial_finish_def)
  with ps.failed_stuck [OF assms(1)] t(1) show "pw.stuck t" by simp
qed

lemma serial_new_inv: "ps.sender_inv (serial_new n p)"
  by (simp add: ps.sender_inv_def serial_new_def serial_do_open_def)

lemmas serial_reachable_inv = ps.run_inv [OF _ serial_new_inv]

lemma serial_defined:
  assumes "serial_step s r" and inv: "ps.sender_inv s"
  shows "r \<noteq> Is_undefined"
  using assms(1)
proof cases
  case (send m ts)
  then show ?thesis using pw.add_total [of m "s\<lparr>sr_posted := ts\<rparr>"] by (auto simp: goes_on_def)
next
  case (written i p m cb)
  obtain q where "sr_sending s = m # q"
    using write_op_front(2) [OF _ written(2,3)] inv by (auto simp: ps.sender_inv_def)
  with written(1) show ?thesis
    by (cases q) (simp_all add: goes_on_def serial_handle_write_def serial_do_write_def serial_finish_def)
next
  case (write_failed i p m ec cb)
  then show ?thesis by (simp add: goes_on_def serial_handle_write_def)
qed (auto simp: or_terminates_def split: option.split)

end
