(* ===== verification/Serial_Properties.thy ===== *)
theory Serial_Properties
  imports Serial_Port
begin

text \<open>What the serial port promises, and what a failed write does to it.\<close>

section \<open>A concrete port\<close>

definition sp_new :: serial where
  "sp_new = serial_new ''ttyS0'' (params_8n1 br9600)"

definition sp_opened :: serial where
  "sp_opened = the (serial_open_task [] 0 True 0 (sp_new\<lparr>sr_posted := []\<rparr>))"

definition sp_accepted :: serial where
  "sp_accepted = serial_call (Serial_write [1, 2]) sp_opened"

definition sp_writing :: serial where
  "sp_writing = the (serial_send_task [1, 2] (sp_accepted\<lparr>sr_posted := []\<rparr>))"

definition sp_failed :: serial where
  "sp_failed = the (serial_handle_write [] 5 (serial_finish 1 sp_writing))"

lemmas sp_defs = sp_new_def sp_opened_def sp_accepted_def sp_writing_def sp_failed_def serial_new_def
  params_8n1_def params_new_def serial_open_task_def serial_handle_open_def set_options_def
  serial_call_back_connection_handler_def serial_calls_def serial_send_task_def serial_do_write_def
  serial_handle_write_def serial_defs without_nth_def serial_is_opened_def

lemma sp_steps:
  "serial_step sp_new (Goes_on sp_opened)"
  "serial_step sp_opened (Goes_on sp_accepted)"
  "serial_step sp_accepted (Goes_on sp_writing)"
  "serial_step sp_writing (Goes_on sp_failed)"
proof -
  show "serial_step sp_new (Goes_on sp_opened)"
    using serial_step.open_port [of sp_new "[]" "[]" 0 True True 0]
    by (simp add: sp_defs or_terminates_def serial_flush_def)
  show "serial_step sp_opened (Goes_on sp_accepted)"
    unfolding sp_accepted_def by (rule serial_step.user)
  show "serial_step sp_accepted (Goes_on sp_writing)"
    using serial_step.send [of sp_accepted "[1, 2]" "[]"] by (simp add: sp_defs goes_on_def)
  show "serial_step sp_writing (Goes_on sp_failed)"
    using serial_step.write_failed [of 1 sp_writing 1 "[1, 2]" 5 "[]"] by (simp add: sp_defs goes_on_def)
qed

lemma sp_run: "serial_run sp_new sp_writing" "serial_run sp_new sp_failed"
  using sp_steps by (meson rtranclp.rtrancl_into_rtrancl rtranclp.rtrancl_refl)+

section \<open>Properties\<close>

text \<open>C32: Whatever the port does and whatever the callbacks call, the chunks accepted by \<^verbatim>\<open>write\<close> are the
  chunks sent, then those queued, then those posted, in the order of the calls, with at most
  one write outstanding; and no step takes the front of an empty queue.\<close>

theorem serial_sends_in_order:
  assumes "serial_run (serial_new n p) s"
  shows "sr_accepted s = map snd (sr_wire s) @ sr_sending s @ posted_sends (sr_posted s) \<and>
    length (written_chunks (sr_pending s)) \<le> 1 \<and> \<not> serial_step s Is_undefined"
  using serial_reachable_inv [OF assms] by (auto simp: ps.sender_inv_def dest: serial_defined)

theorem serial_sends_in_order_witness:
  "sr_accepted sp_writing = [[1, 2]] \<and>
   sr_accepted sp_writing = map snd (sr_wire sp_writing) @ sr_sending sp_writing @ posted_sends (sr_posted sp_writing) \<and>
   \<not> serial_step sp_writing Is_undefined"
  using serial_sends_in_order [of "''ttyS0''" "params_8n1 br9600" sp_writing] sp_run(1)
  by (simp add: sp_defs)

text \<open>C34: While the port is up (open, with no close or open posted) and no write has failed with chunks still queued,
  everything accepted so far can be sent, in order, with the port up all the time and no further calls. And a
  write that fails blocks the port for good: whatever is called then, \<^verbatim>\<open>reopen\<close> included, and whatever
  happens, nothing is ever sent again and \<^verbatim>\<open>are_all_messages_sent\<close> stays false.\<close>

theorem serial_drains_unless_failed:
  assumes "serial_run (serial_new n p) s"
  shows "(serial_up s \<and> (sr_sending s = [] \<or> written_chunks (sr_pending s) \<noteq> []) \<longrightarrow>
      (\<exists>t. serial_up_run s t \<and> sr_accepted t = sr_accepted s \<and> serial_are_all_messages_sent t \<and>
        map snd (sr_wire t) = sr_accepted s)) \<and>
    (\<forall>i q m cb ec t u. i < length (sr_pending s) \<longrightarrow> sr_pending s ! i = Write_op q m \<longrightarrow> ec \<noteq> 0 \<longrightarrow>
      serial_handle_write cb ec (serial_finish i s) = Some t \<longrightarrow> serial_run t u \<longrightarrow>
      serial_goes s t \<and> map snd (sr_wire u) = map snd (sr_wire s) \<and> \<not> serial_are_all_messages_sent u)"
proof (intro conjI [of "_ \<longrightarrow> _"] impI allI)
  note inv = serial_reachable_inv [OF assms]
  assume up: "serial_up s \<and> (sr_sending s = [] \<or> written_chunks (sr_pending s) \<noteq> [])"
  then have "pw.settled s" using ps.settled_or_stuck [OF inv] by (auto simp: pw.stuck_def)
  from ps.send_all_run [OF inv this] up show "\<exists>t. serial_up_run s t \<and> sr_accepted t = sr_accepted s \<and>
      serial_are_all_messages_sent t \<and> map snd (sr_wire t) = sr_accepted s"
    by (auto simp: serial_up_step serial_are_all_messages_sent_def)
next
  fix i q m cb ec t u
  assume "i < length (sr_pending s)" "sr_pending s ! i = Write_op q m" "ec \<noteq> 0"
    "serial_handle_write cb ec (serial_finish i s) = Some t" and run: "serial_run t u"
  note failed = serial_failed_stuck [OF serial_reachable_inv [OF assms] this(1-4)]
  from ps.run_stuck [OF run failed(2)] failed(1,3)
  show "serial_goes s t \<and> map snd (sr_wire u) = map snd (sr_wire s) \<and> \<not> serial_are_all_messages_sent u"
    by (simp add: pw.stuck_def serial_are_all_messages_sent_def)
qed

theorem serial_drains_unless_failed_witness:
  "(\<exists>t. serial_up_run sp_writing t \<and> serial_are_all_messages_sent t \<and> map snd (sr_wire t) = [[1, 2]]) \<and>
   serial_run sp_new sp_failed \<and> \<not> serial_are_all_messages_sent (serial_reopen sp_failed)"
proof -
  note both = serial_drains_unless_failed [OF sp_run(1) [unfolded sp_new_def]]
  have "serial_up sp_writing" "written_chunks (sr_pending sp_writing) \<noteq> []" "sr_accepted sp_writing = [[1, 2]]"
    by (simp_all add: serial_up_def sp_defs)
  moreover have "1 < length (sr_pending sp_writing)" "sr_pending sp_writing ! 1 = Write_op 1 [1, 2]"
      "serial_handle_write [] 5 (serial_finish 1 sp_writing) = Some sp_failed"
    by (simp_all add: sp_defs)
  moreover have "serial_run sp_failed (serial_call Serial_reopen sp_failed)"
    by (rule r_into_rtranclp [of serial_goes, OF serial_step.user])
  ultimately have "\<exists>t. serial_up_run sp_writing t \<and> serial_are_all_messages_sent t \<and> map snd (sr_wire t) = [[1, 2]]"
    "\<not> serial_are_all_messages_sent (serial_call Serial_reopen sp_failed)"
    using both [THEN conjunct1] both [THEN conjunct2, rule_format, of 1 1 "[1, 2]" 5 "[]" sp_failed] by auto
  then show ?thesis using sp_run(2) by simp
qed

section \<open>Opening\<close>

text \<open>
  Whether the tasks in the queue open the port only while it is closed, given whether it is open when the first
  of them runs.
\<close>

fun opens_ok :: "bool \<Rightarrow> serial_task list \<Rightarrow> bool" where
  "opens_ok b [] = True"
| "opens_ok b (Close_task # ts) = opens_ok False ts"
| "opens_ok b (Open_task # ts) = (\<not> b \<and> opens_ok True ts)"
| "opens_ok b (Send_task m # ts) = opens_ok b ts"

lemma opens_ok_mono: "opens_ok b ts \<Longrightarrow> opens_ok False ts"
  by (induction b ts rule: opens_ok.induct) simp_all

lemma opens_ok_append:
  "opens_ok b (ts @ [Close_task]) = opens_ok b ts" "opens_ok b (ts @ [Send_task m]) = opens_ok b ts"
  "opens_ok b (ts @ [Close_task, Open_task]) = opens_ok b ts"
  by (induction b ts rule: opens_ok.induct) simp_all

abbreviation port_opens_ok :: "serial \<Rightarrow> bool" where
  "port_opens_ok s \<equiv> opens_ok (sr_open s) (sr_posted s)"

lemma opens_ok_call: "port_opens_ok s \<Longrightarrow> port_opens_ok (serial_call u s)"
  by (cases u) (auto simp: serial_defs opens_ok_append dest: opens_ok_mono)

lemma opens_ok_calls: "port_opens_ok s \<Longrightarrow> port_opens_ok (serial_calls cb s)"
  unfolding serial_calls_def by (induction cb arbitrary: s) (simp_all add: opens_ok_call)

lemma opens_ok_call_back: "port_opens_ok s \<Longrightarrow> port_opens_ok (serial_call_back_connection_handler cb st ec s)"
  unfolding serial_call_back_connection_handler_def by (rule opens_ok_calls) simp

lemma opens_ok_do_read: "port_opens_ok (serial_do_read s) = port_opens_ok s"
  by (simp add: serial_do_read_def)

lemma opens_ok_handle_write:
  "serial_handle_write cb ec s = Some t \<Longrightarrow> port_opens_ok s \<Longrightarrow> port_opens_ok t"
  by (auto simp: serial_handle_write_def serial_do_write_def opens_ok_call_back Let_def
      split: if_splits list.splits)

lemma opens_ok_open_task:
  assumes "serial_open_task cb ec ok fe s = Some t" and "opens_ok True (sr_posted s)"
  shows "port_opens_ok t"
proof -
  have "opens_ok b (sr_posted s)" for b using assms(2) by (cases b) (simp_all add: opens_ok_mono [OF assms(2)])
  with assms(1) show ?thesis
    by (auto simp: serial_open_task_def serial_handle_open_def set_options_def opens_ok_do_read
        intro!: opens_ok_call_back split: if_splits bind_splits)
qed

lemma opens_ok_step:
  assumes "serial_goes s t" and ok: "port_opens_ok s"
  shows "port_opens_ok t"
  using assms(1)
proof cases
  case (user u)
  then show ?thesis using ok by (simp add: opens_ok_call)
next
  case (close ts ok')
  then show ?thesis using ok by (auto simp: or_terminates_def serial_close_task_def split: if_splits)
next
  case (open_port ts cb ec options_ok flushed err)
  then have "serial_open_task cb ec options_ok (serial_flush flushed err) (s\<lparr>sr_posted := ts\<rparr>) = Some t"
    by (auto simp: or_terminates_def split: option.splits)
  with opens_ok_open_task [OF this] open_port(2) ok show ?thesis by simp
next
  case (send m ts)
  then show ?thesis using ok
    by (auto simp: goes_on_def serial_send_task_def serial_do_write_def Let_def split: option.splits if_splits list.splits)
next
  case (read i p data cb ec)
  have "port_opens_ok ((serial_receive data (serial_finish i s))\<lparr>sr_data := d\<rparr>)" for d
    using ok by (simp add: serial_receive_def serial_finish_def)
  moreover have "port_opens_ok (serial_receive data (serial_finish i s))"
    using ok by (simp add: serial_receive_def serial_finish_def)
  ultimately show ?thesis
    using read by (auto simp: serial_handle_read_def opens_ok_do_read intro: opens_ok_calls opens_ok_call_back)
next
  case (written i p m cb)
  have "port_opens_ok ((serial_finish i s)\<lparr>sr_wire := w\<rparr>)" for w
    using ok by (simp add: serial_finish_def)
  with written show ?thesis using opens_ok_handle_write by (auto simp: goes_on_def split: option.splits)
next
  case (write_failed i p m ec cb)
  have "port_opens_ok (serial_finish i s)" using ok by (simp add: serial_finish_def)
  with write_failed show ?thesis using opens_ok_handle_write by (auto simp: goes_on_def split: option.splits)
qed

lemma opens_ok_run: "serial_run s t \<Longrightarrow> port_opens_ok s \<Longrightarrow> port_opens_ok t"
  by (induction rule: rtranclp_induct) (auto intro: opens_ok_step)

lemma opens_ok_new: "port_opens_ok (serial_new n p)"
  by (simp add: serial_new_def serial_do_open_def)

text \<open>What calls of a callback leave alone.\<close>

lemma serial_calls_same: "sr_reported (serial_calls cb s) = sr_reported s \<and> sr_pending (serial_calls cb s) = sr_pending s"
proof -
  have "sr_reported (serial_call u s) = sr_reported s \<and> sr_pending (serial_call u s) = sr_pending s" for u s
    by (cases u) (simp_all add: serial_defs)
  then show ?thesis unfolding serial_calls_def by (induction cb arbitrary: s) simp_all
qed

text \<open>C33: The task that opens the port only ever runs on a port that is closed, whatever has been called before, in
  whatever order and from whatever callback: \<^verbatim>\<open>reopen\<close> posts a close ahead of it. And on every path it does what it
  should: it throws exactly if the port has been opened and refuses an option; otherwise the user is told once, connected
  with no error if opening and flushing both succeeded and disconnected with the error of the first that failed
  if not; a read is started in the first case only; and, if the callback calls nothing, the port
  is then open exactly if opening succeeded, with all five options set in order, and \<^verbatim>\<open>is_opened\<close> says whether
  the user was told connected.\<close>

theorem serial_opens_closed_port:
  assumes "serial_run (serial_new n p) s" and "sr_posted s = Open_task # ts"
  shows "\<not> sr_open s \<and>
    (case serial_open_task cb ec options_ok fe (s\<lparr>sr_posted := ts\<rparr>) of
       None \<Rightarrow> ec = 0 \<and> \<not> options_ok
     | Some t \<Rightarrow> \<not> (ec = 0 \<and> \<not> options_ok) \<and>
         sr_reported t = sr_reported s @
           [if ec = 0 \<and> fe = 0 then (connected, 0) else (disconnected, if ec \<noteq> 0 then ec else fe)] \<and>
         sr_pending t = sr_pending s @ (if ec = 0 \<and> fe = 0 then [Read_op (sr_port t)] else []) \<and>
         (cb = [] \<longrightarrow> sr_open t = (ec = 0) \<and> serial_is_opened t = (ec = 0 \<and> fe = 0) \<and>
           (ec = 0 \<longrightarrow> sr_applied t = [params_baud_rate (sr_params s), params_character_size (sr_params s),
              params_stop_bits (sr_params s), params_parity (sr_params s), params_flow_control (sr_params s)])))"
proof
  show closed: "\<not> sr_open s" using opens_ok_run [OF assms(1) opens_ok_new] assms(2) by simp
  then show "case serial_open_task cb ec options_ok fe (s\<lparr>sr_posted := ts\<rparr>) of
       None \<Rightarrow> ec = 0 \<and> \<not> options_ok
     | Some t \<Rightarrow> \<not> (ec = 0 \<and> \<not> options_ok) \<and>
         sr_reported t = sr_reported s @
           [if ec = 0 \<and> fe = 0 then (connected, 0) else (disconnected, if ec \<noteq> 0 then ec else fe)] \<and>
         sr_pending t = sr_pending s @ (if ec = 0 \<and> fe = 0 then [Read_op (sr_port t)] else []) \<and>
         (cb = [] \<longrightarrow> sr_open t = (ec = 0) \<and> serial_is_opened t = (ec = 0 \<and> fe = 0) \<and>
           (ec = 0 \<longrightarrow> sr_applied t = [params_baud_rate (sr_params s), params_character_size (sr_params s),
              params_stop_bits (sr_params s), params_parity (sr_params s), params_flow_control (sr_params s)]))"
    by (auto simp: serial_open_task_def serial_handle_open_def set_options_def serial_do_read_def
        serial_call_back_connection_handler_def serial_is_opened_def serial_calls_same)
      (simp_all add: serial_calls_def)
qed

theorem serial_opens_closed_port_witness:
  "sr_open sp_opened \<and> (\<exists>s. serial_run sp_opened s \<and> sr_posted s = [Open_task] \<and> \<not> sr_open s \<and>
     (\<exists>t. serial_open_task [] 0 True 0 (s\<lparr>sr_posted := []\<rparr>) = Some t \<and> sr_open t \<and> serial_is_opened t))"
proof -
  let ?s = "(serial_reopen sp_opened)\<lparr>sr_posted := [Open_task], sr_open := False\<rparr>"
  have "sr_posted (serial_reopen sp_opened) = [Close_task, Open_task]" by (simp add: sp_defs)
  from serial_step.close [OF this, of True] have "serial_goes (serial_reopen sp_opened) ?s"
    by (simp add: or_terminates_def serial_close_task_def)
  moreover have "serial_goes sp_opened (serial_call Serial_reopen sp_opened)" by (rule serial_step.user)
  ultimately have run: "serial_run sp_opened ?s"
    by (simp add: converse_rtranclp_into_rtranclp r_into_rtranclp)
  have "serial_run sp_new sp_opened" using sp_steps(1) by blast
  with run have "serial_run sp_new ?s" by (meson rtranclp_trans)
  from serial_opens_closed_port [OF this [unfolded sp_new_def], where cb = "[]" and ts = "[]" and ec = 0 and fe = 0 and options_ok = True] run
  have "\<exists>t. serial_open_task [] 0 True 0 (?s\<lparr>sr_posted := []\<rparr>) = Some t \<and> sr_open t \<and> serial_is_opened t"
    by (auto split: option.splits)
  moreover have "sr_open sp_opened" by (simp add: sp_defs)
  ultimately show ?thesis using run by (intro conjI [OF _ exI [of _ ?s]]) simp_all
qed

end
