(* ===== verification/Serial_Line.thy ===== *)
theory Serial_Line
  imports Serial_Properties Net_Stream
begin

text \<open>
  Two \<^verbatim>\<open>Serial\<close> ports at the ends of one cable. The line appears by what is asked of one that works: the bytes of an
  outstanding write go out in order, a write ends successfully only when all its bytes have gone out, and the
  other port reads the bytes that went out, in order and each once, in pieces of any size. Everything else a port
  does (calls of its user, posted tasks, errors) is a step of its own. The line describes the time from the opening of
  both ports until one of them is opened again, when \<^verbatim>\<open>flush\<close> throws away what is under way.

  Each direction is an instance of the locale \<open>posting_stream\<close>, as the direction from the client to the server is.
\<close>

section \<open>The line\<close>

datatype line_end = Left_end | Right_end

fun opposite :: "line_end \<Rightarrow> line_end" where
  "opposite Left_end = Right_end" | "opposite Right_end = Left_end"

lemma opposite_simps [simp]: "opposite (opposite e) = e" "opposite e \<noteq> e" "e \<noteq> opposite e"
  by (cases e; simp)+

text \<open>\<open>ln_pipe e\<close> are the bytes that go from the end \<open>e\<close> to the opposite one.\<close>

record serial_line =
  ln_port :: "line_end \<Rightarrow> serial"
  ln_pipe :: "line_end \<Rightarrow> pipe"

definition line_new :: "serial \<Rightarrow> serial \<Rightarrow> serial_line" where
  "line_new a b = \<lparr>ln_port = (\<lambda>e. case e of Left_end \<Rightarrow> a | Right_end \<Rightarrow> b), ln_pipe = (\<lambda>_. pipe_new)\<rparr>"

abbreviation set_port :: "line_end \<Rightarrow> serial \<Rightarrow> serial_line \<Rightarrow> serial_line" where
  "set_port e s l \<equiv> l\<lparr>ln_port := (ln_port l)(e := s)\<rparr>"

abbreviation upd_pipe :: "line_end \<Rightarrow> (pipe \<Rightarrow> pipe) \<Rightarrow> serial_line \<Rightarrow> serial_line" where
  "upd_pipe e f l \<equiv> l\<lparr>ln_pipe := (ln_pipe l)(e := f (ln_pipe l e))\<rparr>"

abbreviation serial_reads :: "serial_api list \<Rightarrow> nat \<Rightarrow> bytes \<Rightarrow> serial \<Rightarrow> serial" where
  "serial_reads cb i data s \<equiv>
     serial_handle_read cb 0 (length data) (serial_receive data (serial_finish i s))"

abbreviation serial_writes :: "serial_api list \<Rightarrow> nat \<Rightarrow> nat \<Rightarrow> chunk \<Rightarrow> serial \<Rightarrow> serial option" where
  "serial_writes cb i p m s \<equiv>
     serial_handle_write cb 0 ((serial_finish i s)\<lparr>sr_wire := sr_wire s @ [(p, m)]\<rparr>)"

text \<open>A port that is not open puts nothing on the line.\<close>

inductive line_step :: "serial_line \<Rightarrow> serial_line \<Rightarrow> bool" where
  port_transmits: "m \<in> set (serial_inflight (ln_port l e)) \<Longrightarrow> sr_open (ln_port l e) \<Longrightarrow>
     p_off (ln_pipe l e) + n \<le> length m \<Longrightarrow> line_step l (upd_pipe e (pipe_transmit n m) l)"
| port_written: "i < length (sr_pending (ln_port l e)) \<Longrightarrow> sr_pending (ln_port l e) ! i = Write_op p m \<Longrightarrow>
     p_off (ln_pipe l e) = length m \<Longrightarrow> serial_writes cb i p m (ln_port l e) = Some s \<Longrightarrow>
     line_step l (set_port e s (upd_pipe e pipe_next l))"
| port_read: "i < length (sr_pending (ln_port l e)) \<Longrightarrow> sr_pending (ln_port l e) ! i = Read_op p \<Longrightarrow>
     length data \<le> max_buffer_size \<Longrightarrow>
     prefix (p_read (ln_pipe l (opposite e)) @ data) (p_sent (ln_pipe l (opposite e))) \<Longrightarrow>
     s = serial_reads cb i data (ln_port l e) \<Longrightarrow> sr_port s = sr_port (ln_port l e) \<Longrightarrow>
     line_step l (set_port e s (upd_pipe (opposite e) (pipe_deliver data) l))"
| port_works: "serial_goes (ln_port l e) s \<Longrightarrow> sr_port s = sr_port (ln_port l e) \<Longrightarrow>
     sr_wire s = sr_wire (ln_port l e) \<Longrightarrow> sr_data s = sr_data (ln_port l e) \<Longrightarrow>
     line_step l (set_port e s l)"

text \<open>Where a line starts: a port that has been opened and through which nothing has gone yet.\<close>

definition line_start :: "serial \<Rightarrow> bool" where
  "line_start s \<longleftrightarrow> sr_wire s = [] \<and> sr_data s = [] \<and> Open_task \<notin> set (sr_posted s)"

section \<open>What the ports do to their queues\<close>

lemma serial_queue_effect:
  assumes "serial_goes s t" and "sr_wire t = sr_wire s"
  shows "\<exists>ms. sr_sending t = sr_sending s @ ms"
  using serial_step_effect [OF assms(1)] assms(2)
  by (auto simp: serial_view_def elim!: writer_effectE)

lemma serial_calls_frame [simp]:
  "sr_sending (serial_calls cb s) = sr_sending s" "serial_inflight (serial_calls cb s) = serial_inflight s"
  "sr_wire (serial_calls cb s) = sr_wire s" "sr_data (serial_calls cb s) = sr_data s"
proof -
  have call: "sr_wire (serial_call u s) = sr_wire s \<and> sr_data (serial_call u s) = sr_data s" for u s
    by (cases u) (simp_all add: serial_defs)
  then have "sr_wire (serial_calls cb s) = sr_wire s \<and> sr_data (serial_calls cb s) = sr_data s"
    unfolding serial_calls_def by (induction cb arbitrary: s) simp_all
  then show "sr_wire (serial_calls cb s) = sr_wire s" "sr_data (serial_calls cb s) = sr_data s" by simp_all
  show "sr_sending (serial_calls cb s) = sr_sending s" "serial_inflight (serial_calls cb s) = serial_inflight s"
    using port_accepts_calls [of s cb] by (auto simp: port_accepts_def serial_view_def)
qed

lemma serial_reads_effect:
  "sr_sending (serial_reads cb i data s) = sr_sending s" "sr_wire (serial_reads cb i data s) = sr_wire s"
  "sr_data (serial_reads cb i data s) = sr_data s @ [data]"
  by (simp_all add: serial_handle_read_def serial_defs)

lemma serial_reads_step:
  "i < length (sr_pending s) \<Longrightarrow> sr_pending s ! i = Read_op p \<Longrightarrow> length data \<le> max_buffer_size \<Longrightarrow>
   serial_goes s (serial_reads cb i data s)"
  by (rule serial_step.read)

lemma serial_writes_step:
  "i < length (sr_pending s) \<Longrightarrow> sr_pending s ! i = Write_op p m \<Longrightarrow> serial_writes cb i p m s = Some t \<Longrightarrow>
   serial_goes s t"
  using serial_step.written [of i s p m cb] by (simp add: goes_on_def)

lemma serial_writes_effect:
  "serial_writes cb i p m s = Some t \<Longrightarrow>
   \<exists>x q. sr_sending s = x # q \<and> sr_sending t = q \<and> serial_sent t = serial_sent s @ [m] \<and> sr_data t = sr_data s"
  by (auto simp: serial_handle_write_def serial_do_write_def serial_finish_def Let_def
      split: list.splits if_splits)

section \<open>The directions of the line\<close>

definition line_inv :: "serial_line \<Rightarrow> bool" where
  "line_inv l \<longleftrightarrow> (\<forall>e. ps.sender_inv (ln_port l e))"

definition line_view :: "line_end \<Rightarrow> serial_line \<Rightarrow> stream" where
  "line_view e l = \<lparr>sm_queue = sr_sending (ln_port l e), sm_sent = serial_sent (ln_port l e), sm_pipe = ln_pipe l e,
     sm_packets = sr_data (ln_port l (opposite e))\<rparr>"

abbreviation line_accepted :: "line_end \<Rightarrow> serial_line \<Rightarrow> chunk list" where
  "line_accepted e l \<equiv> sr_accepted (ln_port l e)"

text \<open>
  When a direction is up: no write has failed, the port that sends is open and no posted task will
  close or reopen it, and the other port is reading.
\<close>

definition line_ready :: "line_end \<Rightarrow> serial_line \<Rightarrow> bool" where
  "line_ready e l \<longleftrightarrow>
     serial_inflight (ln_port l e) = take 1 (sr_sending (ln_port l e)) \<and> sr_open (ln_port l e) \<and>
     Close_task \<notin> set (sr_posted (ln_port l e)) \<and> Open_task \<notin> set (sr_posted (ln_port l e)) \<and>
     Read_op (sr_port (ln_port l (opposite e))) \<in> set (sr_pending (ln_port l (opposite e)))"

lemma line_step_inv:
  assumes "line_step l l'" and "line_inv l"
  shows "line_inv l'"
  using assms(1)
proof cases
  case (port_written i e p m cb s)
  then show ?thesis using assms(2) ps.step_inv [OF serial_writes_step] by (auto simp: line_inv_def)
next
  case (port_read i e p data s cb)
  then show ?thesis using assms(2) ps.step_inv [OF serial_reads_step] by (auto simp: line_inv_def)
next
  case (port_works e s)
  then show ?thesis using assms(2) ps.step_inv by (auto simp: line_inv_def)
qed (use assms(2) in \<open>auto simp: line_inv_def\<close>)

lemma port_front:
  assumes "line_inv l" and "m \<in> set (serial_inflight (ln_port l e))"
  shows "\<exists>q. sr_sending (ln_port l e) = m # q"
proof -
  have "ps.sender_inv (ln_port l e)" using assms(1) by (simp add: line_inv_def)
  with assms(2) show ?thesis by (cases "sr_sending (ln_port l e)") (auto simp: ps.sender_inv_def)
qed

text \<open>Each step is, in each direction, an effect of the abstract stream.\<close>

lemma line_effect:
  assumes "line_step l l'" and inv: "line_inv l"
  shows "stream_effect (line_view d l) (line_view d l')"
  using assms(1)
proof cases
  case (port_transmits m e n)
  obtain q where "sr_sending (ln_port l e) = m # q" using port_front [OF inv port_transmits(2)] by blast
  with port_transmits stream_effect.transmit [of "line_view e l" m q n]
    stream_idle [of "line_view d l'" "line_view d l" "[]"]
  show ?thesis by (cases "d = e") (simp_all add: line_view_def)
next
  case (port_written i e p m cb s)
  have "serial_inflight (ln_port l e) = [] \<or> serial_inflight (ln_port l e) = take 1 (sr_sending (ln_port l e))"
    using inv by (auto simp: line_inv_def ps.sender_inv_def)
  then obtain q where q: "sr_sending (ln_port l e) = m # q" using write_op_front(2) port_written(2,3) by blast
  then have s: "sr_sending s = q" "serial_sent s = serial_sent (ln_port l e) @ [m]" "sr_data s = sr_data (ln_port l e)"
    using serial_writes_effect [OF port_written(5)] by auto
  show ?thesis
  proof (cases "d = e")
    case True
    with q s port_written(1,4) stream_effect.complete [of "line_view e l" m q] show ?thesis
      by (simp add: line_view_def)
  next
    case False
    with s port_written(1) show ?thesis by (intro stream_idle [where ms = "[]"]) (simp_all add: line_view_def)
  qed
next
  case (port_read i e p data s cb)
  note r = serial_reads_effect [where s = "ln_port l e" and cb = cb and i = i and data = data]
  show ?thesis
  proof (cases "d = e")
    case True
    with port_read r show ?thesis by (intro stream_idle [where ms = "[]"]) (simp_all add: line_view_def)
  next
    case False
    then have "d = opposite e" by (cases d; cases e) simp_all
    with port_read r stream_effect.deliver [of "line_view d l" data] show ?thesis by (simp add: line_view_def)
  qed
next
  case (port_works e s)
  obtain ms where "sr_sending s = sr_sending (ln_port l e) @ ms"
    using serial_queue_effect [OF port_works(2,4)] by blast
  with port_works show ?thesis
    by (intro stream_idle [where ms = "if d = e then ms else []"]) (simp_all add: line_view_def)
qed

section \<open>What a line that is up can do\<close>

lemma line_can_transmit:
  assumes "line_ready e l" and "sm_queue (line_view e l) = m # q" and "p_off (sm_pipe (line_view e l)) + n \<le> length m"
  shows "\<exists>l'. line_step l l' \<and> line_ready e l' \<and> line_accepted e l' = line_accepted e l \<and>
    line_view e l' = (line_view e l)\<lparr>sm_pipe := pipe_transmit n m (sm_pipe (line_view e l))\<rparr>"
proof -
  let ?l = "upd_pipe e (pipe_transmit n m) l"
  have "line_step l ?l"
    using assms by (intro line_step.port_transmits) (simp_all add: line_ready_def line_view_def)
  with assms(1) show ?thesis by (intro exI [of _ ?l]) (simp add: line_view_def line_ready_def)
qed

lemma line_can_complete:
  assumes "line_ready e l" and "sm_queue (line_view e l) = m # q" and "p_off (sm_pipe (line_view e l)) = length m"
  shows "\<exists>l'. line_step l l' \<and> line_ready e l' \<and> line_accepted e l' = line_accepted e l \<and>
    line_view e l' = (line_view e l)\<lparr>sm_queue := q, sm_sent := sm_sent (line_view e l) @ [m],
      sm_pipe := pipe_next (sm_pipe (line_view e l))\<rparr>"
proof -
  let ?s = "ln_port l e"
  have q: "sr_sending ?s = m # q" and off: "p_off (ln_pipe l e) = length m"
    using assms(2,3) by (simp_all add: line_view_def)
  have m: "serial_inflight ?s = [m]" using assms(1) q by (simp add: line_ready_def)
  from extract_write [OF m] obtain i p where i: "i < length (sr_pending ?s)" "sr_pending ?s ! i = Write_op p m"
      and rest: "written_chunks (without_nth i (sr_pending ?s)) = []" by metis
  obtain t where t: "serial_writes [] i p m ?s = Some t"
    using q by (cases q) (simp_all add: serial_handle_write_def serial_do_write_def serial_finish_def)
  let ?l = "set_port e t (upd_pipe e pipe_next l)"
  have "line_step l ?l" by (rule line_step.port_written [OF i off t])
  moreover have "sr_sending t = q" "serial_sent t = serial_sent ?s @ [m]" "serial_inflight t = take 1 q"
      "sr_accepted t = sr_accepted ?s" "sr_posted t = sr_posted ?s" "sr_open t = sr_open ?s"
    using t q rest
    by (cases q; auto simp: serial_handle_write_def serial_do_write_def serial_finish_def)+
  ultimately show ?thesis using assms(1) by (intro exI [of _ ?l]) (simp add: line_view_def line_ready_def)
qed

lemma line_can_deliver:
  assumes "line_ready e l" and data: "length data \<le> max_buffer_size"
    and "prefix (p_read (sm_pipe (line_view e l)) @ data) (p_sent (sm_pipe (line_view e l)))"
  shows "\<exists>l'. line_step l l' \<and> line_ready e l' \<and> line_accepted e l' = line_accepted e l \<and>
    line_view e l' = (line_view e l)\<lparr>sm_pipe := pipe_deliver data (sm_pipe (line_view e l)),
      sm_packets := sm_packets (line_view e l) @ [data]\<rparr>"
proof -
  let ?o = "opposite e" let ?s = "ln_port l ?o"
  have under_way: "prefix (p_read (ln_pipe l (opposite ?o)) @ data) (p_sent (ln_pipe l (opposite ?o)))"
    using assms(3) by (simp add: line_view_def)
  obtain i where i: "i < length (sr_pending ?s)" "sr_pending ?s ! i = Read_op (sr_port ?s)"
    using assms(1) by (auto simp: line_ready_def in_set_conv_nth)
  let ?t = "serial_reads [] i data ?s"
  let ?l = "set_port ?o ?t (upd_pipe (opposite ?o) (pipe_deliver data) l)"
  have t: "sr_port ?t = sr_port ?s" "Read_op (sr_port ?t) \<in> set (sr_pending ?t)"
    by (simp_all add: serial_handle_read_def serial_calls_def serial_defs)
  have "line_step l ?l" by (rule line_step.port_read [OF i data under_way HOL.refl t(1)])
  with assms(1) t(2) serial_reads_effect(3) show ?thesis
    by (intro exI [of _ ?l]) (simp add: line_view_def line_ready_def)
qed

text \<open>The chunks a port has posted can all be put in its queue.\<close>

lemma line_can_enqueue:
  assumes "line_ready e l" and "sr_posted (ln_port l e) = t # ts"
  shows "\<exists>l'. line_step l l' \<and> line_ready e l' \<and> sr_posted (ln_port l' e) = ts \<and>
    line_accepted e l' = line_accepted e l"
proof -
  let ?s = "ln_port l e"
  from assms obtain m where t: "t = Send_task m" by (cases t) (auto simp: line_ready_def)
  let ?s1 = "?s\<lparr>sr_posted := ts\<rparr>"
  obtain s where s: "serial_send_task m ?s1 = Some s" using pw.add_total [of m ?s1] by blast
  then have goes: "serial_goes ?s s"
    using serial_step.send [of ?s m ts] assms(2) t by (simp add: goes_on_def)
  have "pw.settled ?s1" using assms(1) by (simp add: line_ready_def pw.settled_def)
  then have "pw.settled s" using s by (rule pw.add_settled)
  moreover have "sr_posted s = ts" "sr_accepted s = sr_accepted ?s" "sr_port s = sr_port ?s" "sr_open s = sr_open ?s"
      "sr_wire s = sr_wire ?s" "sr_data s = sr_data ?s"
    using s by (auto simp: serial_send_task_def serial_do_write_def Let_def split: if_splits list.splits)
  moreover from this have "line_step l (set_port e s l)" by (intro line_step.port_works [OF goes])
  ultimately show ?thesis
    using assms by (intro exI [of _ "set_port e s l"]) (simp add: line_ready_def pw.settled_def)
qed

section \<open>Each direction is a byte stream\<close>

lemma promised_line:
  "line_inv l \<Longrightarrow> prefix (sm_sent (line_view e l) @ sm_queue (line_view e l)) (line_accepted e l)"
  by (auto simp: line_inv_def ps.sender_inv_def line_view_def)

lemma nothing_posted_line:
  "line_inv l \<Longrightarrow> sr_posted (ln_port l e) = [] \<Longrightarrow>
   line_accepted e l = sm_sent (line_view e l) @ sm_queue (line_view e l)"
  by (simp add: line_inv_def ps.sender_inv_def line_view_def)

interpretation line: posting_stream "line_view e" "line_accepted e" line_inv line_step "line_ready e"
  "\<lambda>l. sr_posted (ln_port l e)" for e
  by (unfold_locales; intro line_can_transmit line_can_complete line_can_deliver line_can_enqueue nothing_posted_line
      promised_line conjI)
    (auto intro: line_step_inv line_effect)

lemma line_good:
  assumes "serial_run (serial_new n p) a" "serial_run (serial_new n' p') b" "line_start a" "line_start b"
    and "line_step\<^sup>*\<^sup>* (line_new a b) l"
  shows "line.good e l"
proof -
  have "ps.sender_inv a" "ps.sender_inv b" using serial_reachable_inv assms(1,2) by blast+
  then have "line.good e (line_new a b)"
    using assms(3,4)
    by (cases e) (auto simp: line.good_def line_inv_def stream_inv_def line_view_def line_new_def line_start_def
        split: line_end.splits)
  then show ?thesis using line.good_run [OF assms(5)] by blast
qed

section \<open>A concrete line\<close>

text \<open>For the witness: the left port has two bytes in its queue, and the right one reads the first of them.\<close>

definition sp_line :: serial_line where
  "sp_line = line_new sp_writing sp_opened"

definition sp_line_taken :: serial_line where
  "sp_line_taken = upd_pipe Left_end (pipe_transmit 1 [1, 2]) sp_line"

definition sp_line_read :: serial_line where
  "sp_line_read = set_port Right_end (serial_reads [] 0 [1] sp_opened) (upd_pipe Left_end (pipe_deliver [1]) sp_line_taken)"

lemmas sp_line_defs = sp_line_def sp_line_taken_def sp_line_read_def line_new_def serial_handle_read_def sp_defs

lemma sp_line_start: "line_start sp_writing" "line_start sp_opened"
  by (simp_all add: line_start_def sp_defs)

lemma sp_line_run: "line_step\<^sup>*\<^sup>* sp_line sp_line_read"
proof -
  have "line_step sp_line sp_line_taken"
    unfolding sp_line_taken_def
    by (rule line_step.port_transmits) (simp_all add: sp_line_def line_new_def sp_defs)
  moreover have "line_step sp_line_taken sp_line_read"
    using line_step.port_read [of 0 sp_line_taken Right_end 1 "[1]" "serial_reads [] 0 [1] sp_opened" "[]"]
    by (simp add: sp_line_defs max_buffer_size_def pipe_new_def pipe_transmit_def)
  ultimately show ?thesis by (meson rtranclp.intros)
qed

section \<open>Properties\<close>

text \<open>C31: Over a line that loses nothing, the data a port hands to its user are the bytes the other port has accepted,
  in order, and so far perhaps not all of them; whatever the callbacks call, and also when writes fail. And as
  long as no write of the sender has failed, it is open with no close or reopen posted, and the receiver is
  reading, there is a continuation after which the user has got exactly those bytes.\<close>

theorem serial_line_delivers:
  assumes "serial_run (serial_new n p) a" and "serial_run (serial_new n' p') b"
    and "line_start a" and "line_start b" and "line_step\<^sup>*\<^sup>* (line_new a b) l"
  shows "prefix (concat (sr_data (ln_port l (opposite e)))) (concat (sr_accepted (ln_port l e))) \<and>
    (line_ready e l \<longrightarrow> (\<exists>l'. line_step\<^sup>*\<^sup>* l l' \<and>
      concat (sr_data (ln_port l' (opposite e))) = concat (sr_accepted (ln_port l e))))"
  using line.delivers_prefix [OF line_good [OF assms, of e]] line.delivers_all [OF line_good [OF assms, of e]]
  by (auto simp: line_view_def)

theorem serial_line_delivers_witness:
  "sr_data (ln_port sp_line_read Right_end) = [[1]] \<and>
   prefix (concat (sr_data (ln_port sp_line_read Right_end))) (concat (sr_accepted (ln_port sp_line_read Left_end))) \<and>
   (\<exists>l. line_step\<^sup>*\<^sup>* sp_line_read l \<and> concat (sr_data (ln_port l Right_end)) = [1, 2])"
proof -
  have "serial_run sp_new sp_opened" using sp_steps(1) by blast
  moreover have "line_ready Left_end sp_line_read" by (simp add: line_ready_def sp_line_defs)
  moreover have "concat (sr_accepted (ln_port sp_line_read Left_end)) = [1, 2]"
      "sr_data (ln_port sp_line_read Right_end) = [[1]]"
    by (simp_all add: sp_line_defs)
  ultimately show ?thesis
    using serial_line_delivers [OF sp_run(1) [unfolded sp_new_def] _ sp_line_start sp_line_run [unfolded sp_line_def],
        of "''ttyS0''" "params_8n1 br9600" Left_end]
    by (simp add: sp_new_def)
qed

end
