(* ===== verification/Udp_Socket.thy ===== *)
theory Udp_Socket
  imports Net_Base
begin

text \<open>
  UDP (\<^verbatim>\<open>src/net/udp/udp.cpp\<close>). The kernel's queue of received datagrams is \<open>u_inbox\<close>; the bytes
  of the caller's chunks are in the store \<open>u_memory\<close>, by address, since \<^verbatim>\<open>write_to\<close> and
  \<^verbatim>\<open>broadcast\<close> hand Asio a reference to the chunk and do not copy it. \<open>u_delivered\<close>, \<open>u_errors\<close>,
  \<open>u_sent\<close> and \<open>u_arrived\<close> are history: what the two handlers of the user were called with, the
  datagrams that left, and those the system put in the queue.

  Outside the sources are \<open>parse\<close> (\<^verbatim>\<open>make_address\<close>, \<open>None\<close> its exception), \<open>all\<close> (the broadcast
  address of Asio's default network) and \<open>avail\<close> (\<^verbatim>\<open>available\<close>, the system's answer for a queue of
  datagrams); the record \<open>udp_env\<close> holds them.
\<close>

section \<open>State\<close>

type_synonym endpoint = "string \<times> u16"
type_synonym datagram = "endpoint \<times> bytes"

record udp_env =
  parse :: "string \<Rightarrow> string option"
  all :: string
  avail :: "datagram list \<Rightarrow> nat"

datatype udp_op = Receive_op | Send_op endpoint nat nat

record udp =
  u_port :: u16
  u_sender_ep :: endpoint
  u_pending :: "udp_op list"
  u_posted :: nat
  u_inbox :: "datagram list"
  u_memory :: "nat \<Rightarrow> bytes"
  u_delivered :: "(remote \<times> chunk) list"
  u_errors :: "(remote \<times> error_code) list"
  u_sent :: "datagram list"
  u_arrived :: "datagram list"
  u_shut :: bool

text \<open>Calls of the user: a chunk is given by the address of its bytes.\<close>

datatype udp_api = Udp_write_to remote nat | Udp_broadcast u16 nat | Udp_close

section \<open>Operations\<close>

definition to_remote :: "endpoint \<Rightarrow> remote" where
  "to_remote ep = remote_new (fst ep) (snd ep)"

definition udp_do_read :: "udp \<Rightarrow> udp" where
  "udp_do_read u = u\<lparr>u_pending := u_pending u @ [Receive_op]\<rparr>"

text \<open>The constructor, once the socket is bound; the endpoint of the sender starts as Asio's default.\<close>

definition udp_new :: "u16 \<Rightarrow> (nat \<Rightarrow> bytes) \<Rightarrow> udp" where
  "udp_new p mem =
     udp_do_read
       \<lparr>u_port = p, u_sender_ep = (''0.0.0.0'', 0), u_pending = [], u_posted = 0, u_inbox = [], u_memory = mem,
        u_delivered = [], u_errors = [], u_sent = [], u_arrived = [], u_shut = False\<rparr>"

definition udp_close :: "udp \<Rightarrow> udp" where
  "udp_close u = u\<lparr>u_posted := Suc (u_posted u)\<rparr>"

text \<open>The destructor: after \<^verbatim>\<open>io_context_.stop()\<close> no task and no handler runs any more.\<close>

definition udp_destroy :: "udp \<Rightarrow> udp" where
  "udp_destroy u = u\<lparr>u_posted := 0, u_pending := []\<rparr>"

definition udp_write_to :: "udp_env \<Rightarrow> remote \<Rightarrow> nat \<Rightarrow> udp \<Rightarrow> udp option" where
  "udp_write_to env r chunk u =
     do {
       a \<leftarrow> parse env (address r);
       let ep = (a, port r);
       Some (u\<lparr>u_pending := u_pending u @ [Send_op ep chunk (length (u_memory u chunk))]\<rparr>)
     }"

definition udp_broadcast :: "udp_env \<Rightarrow> u16 \<Rightarrow> nat \<Rightarrow> udp \<Rightarrow> udp" where
  "udp_broadcast env p chunk u =
     (let ep = (all env, p)
      in u\<lparr>u_pending := u_pending u @ [Send_op ep chunk (length (u_memory u chunk))]\<rparr>)"

fun udp_call :: "udp_env \<Rightarrow> udp_api \<Rightarrow> udp \<Rightarrow> udp option" where
  "udp_call env (Udp_write_to r c) u = udp_write_to env r c u"
| "udp_call env (Udp_broadcast p c) u = Some (udp_broadcast env p c u)"
| "udp_call env Udp_close u = Some (udp_close u)"

fun udp_calls :: "udp_env \<Rightarrow> udp_api list \<Rightarrow> udp \<Rightarrow> udp option" where
  "udp_calls env [] u = Some u"
| "udp_calls env (c # cs) u = do { u \<leftarrow> udp_call env c u; udp_calls env cs u }"

definition udp_communication_error_handler ::
  "udp_env \<Rightarrow> udp_api list \<Rightarrow> remote \<Rightarrow> error_code \<Rightarrow> udp \<Rightarrow> udp option" where
  "udp_communication_error_handler env cb r ec u =
     udp_calls env cb (u\<lparr>u_errors := u_errors u @ [(r, ec)]\<rparr>)"

definition udp_message_handler :: "udp_env \<Rightarrow> udp_api list \<Rightarrow> remote \<Rightarrow> chunk \<Rightarrow> udp \<Rightarrow> udp option" where
  "udp_message_handler env cb r m u = udp_calls env cb (u\<lparr>u_delivered := u_delivered u @ [(r, m)]\<rparr>)"

text \<open>How the read handler ends: it blocks in \<^verbatim>\<open>receive_from\<close> when no datagram is left.\<close>

datatype udp_result = Reads udp | Throws | Blocks

definition earlier :: "nat option \<Rightarrow> nat option" where
  "earlier err = map_option (\<lambda>n. n - 1) err"

text \<open>
  The loop of \<^verbatim>\<open>handle_read\<close>. \<^verbatim>\<open>receive_from\<close> takes one datagram and cuts it to the buffer;
  \<open>cbs\<close> are the calls of the message handler, round by round, and \<open>err\<close> is the round in which \<^verbatim>\<open>receive_from\<close>
  fails, which it reports by an exception.
\<close>

fun udp_read_loop ::
  "udp_env \<Rightarrow> nat option \<Rightarrow> udp_api list list \<Rightarrow> nat \<Rightarrow> datagram list \<Rightarrow> udp \<Rightarrow> udp_result" where
  "udp_read_loop env err cbs available inbox u =
     (if available = 0 then Reads u
      else if err = Some 0 then Throws
      else case inbox of
        [] \<Rightarrow> Blocks
      | (ep, d) # rest \<Rightarrow>
          let received = take available d;
              u1 = u\<lparr>u_inbox := rest, u_sender_ep := ep\<rparr>
          in case udp_message_handler env (if cbs = [] then [] else hd cbs) (to_remote ep) received u1 of
               None \<Rightarrow> Throws
             | Some u2 \<Rightarrow> udp_read_loop env (earlier err) (tl cbs) (available - length received) rest u2)"

declare udp_read_loop.simps [simp del]

text \<open>The first system call of \<^verbatim>\<open>handle_read\<close> that can throw is \<^verbatim>\<open>available\<close>, number 0 in \<open>err\<close>.\<close>

definition udp_handle_read ::
  "udp_env \<Rightarrow> nat option \<Rightarrow> udp_api list list \<Rightarrow> error_code \<Rightarrow> udp \<Rightarrow> udp_result" where
  "udp_handle_read env err cbs ec u =
     (if ec \<noteq> 0 then
        (case udp_communication_error_handler env (concat cbs) (to_remote (u_sender_ep u)) ec u of
           None \<Rightarrow> Throws | Some u \<Rightarrow> Reads (udp_do_read u))
      else if err = Some 0 then Throws
      else
        (case udp_read_loop env (earlier err) cbs (avail env (u_inbox u)) (u_inbox u) u of
           Reads u \<Rightarrow> Reads (udp_do_read u) | r \<Rightarrow> r))"

definition udp_handle_write :: "udp_env \<Rightarrow> udp_api list \<Rightarrow> endpoint \<Rightarrow> error_code \<Rightarrow> udp \<Rightarrow> udp option" where
  "udp_handle_write env cb ep ec u =
     (if ec \<noteq> 0 then udp_communication_error_handler env cb (to_remote ep) ec u else Some u)"

section \<open>Steps\<close>

definition reads_or_throws :: "udp option \<Rightarrow> udp_result" where
  "reads_or_throws r = (case r of None \<Rightarrow> Throws | Some u \<Rightarrow> Reads u)"

definition udp_finish :: "nat \<Rightarrow> udp \<Rightarrow> udp" where
  "udp_finish i u = u\<lparr>u_pending := without_nth i (u_pending u)\<rparr>"

inductive udp_step :: "udp_env \<Rightarrow> udp \<Rightarrow> udp_result \<Rightarrow> bool" for env where
  user: "udp_step env u (reads_or_throws (udp_call env c u))"
| memory: "udp_step env u (Reads (u\<lparr>u_memory := (u_memory u)(a := bs)\<rparr>))"
| arrive: "udp_step env u (Reads (u\<lparr>u_inbox := u_inbox u @ [d], u_arrived := u_arrived u @ [d]\<rparr>))"
| shutdown: "u_posted u = Suc n \<Longrightarrow>
     udp_step env u (if ok then Reads (u\<lparr>u_posted := n, u_shut := True\<rparr>) else Throws)"
| readable: "i < length (u_pending u) \<Longrightarrow> u_pending u ! i = Receive_op \<Longrightarrow> u_inbox u \<noteq> [] \<Longrightarrow>
     udp_step env u (udp_handle_read env err cbs 0 (udp_finish i u))"
| read_error: "i < length (u_pending u) \<Longrightarrow> u_pending u ! i = Receive_op \<Longrightarrow> ec \<noteq> 0 \<Longrightarrow>
     udp_step env u (udp_handle_read env err cbs ec (udp_finish i u))"
| sent: "i < length (u_pending u) \<Longrightarrow> u_pending u ! i = Send_op ep a n \<Longrightarrow>
     udp_step env u (reads_or_throws (udp_handle_write env cb ep 0
       ((udp_finish i u)\<lparr>u_sent := u_sent u @ [(ep, take n (u_memory u a))]\<rparr>)))"
| send_error: "i < length (u_pending u) \<Longrightarrow> u_pending u ! i = Send_op ep a n \<Longrightarrow> ec \<noteq> 0 \<Longrightarrow>
     udp_step env u (reads_or_throws (udp_handle_write env cb ep ec (udp_finish i u)))"

inductive udp_run :: "udp_env \<Rightarrow> udp \<Rightarrow> udp \<Rightarrow> bool" for env where
  run_refl: "udp_run env u u"
| run_more: "udp_run env u v \<Longrightarrow> udp_step env v (Reads w) \<Longrightarrow> udp_run env u w"

section \<open>What the system answers\<close>

text \<open>
  The documented answers for a UDP socket: the size of the next datagram (Linux), or of all
  of them together (Windows).
\<close>

definition next_size :: "datagram list \<Rightarrow> nat" where
  "next_size inbox = (case inbox of [] \<Rightarrow> 0 | d # _ \<Rightarrow> length (snd d))"

definition total_size :: "datagram list \<Rightarrow> nat" where
  "total_size inbox = sum_list (map (length \<circ> snd) inbox)"

definition system_answers :: "udp_env \<Rightarrow> bool" where
  "system_answers env \<longleftrightarrow> avail env = next_size \<or> avail env = total_size"

section \<open>The loop\<close>

text \<open>What calls of the user leave alone.\<close>

definition udp_frame :: "udp \<Rightarrow> udp \<Rightarrow> bool" where
  "udp_frame u v \<longleftrightarrow> u_inbox v = u_inbox u \<and> u_delivered v = u_delivered u \<and> u_errors v = u_errors u \<and>
     u_sent v = u_sent u \<and> u_arrived v = u_arrived u \<and> u_memory v = u_memory u \<and>
     count_list (u_pending v) Receive_op = count_list (u_pending u) Receive_op"

lemma udp_frame_trans: "udp_frame u v \<Longrightarrow> udp_frame v w \<Longrightarrow> udp_frame u w"
  by (simp add: udp_frame_def)

lemma udp_call_frame: "udp_call env c u = Some v \<Longrightarrow> udp_frame u v"
  by (cases c) (auto simp: udp_frame_def udp_write_to_def udp_broadcast_def udp_close_def Let_def
      split: bind_splits)

lemma udp_calls_frame: "udp_calls env cs u = Some v \<Longrightarrow> udp_frame u v"
proof (induction cs arbitrary: u)
  case (Cons c cs)
  then obtain u1 where "udp_call env c u = Some u1" "udp_calls env cs u1 = Some v"
    by (auto split: bind_splits)
  with Cons.IH udp_call_frame show ?case by (blast intro: udp_frame_trans)
qed (simp add: udp_frame_def)

abbreviation delivered_as :: "datagram \<Rightarrow> remote \<times> chunk" where
  "delivered_as d \<equiv> (to_remote (fst d), snd d)"

text \<open>The loop reads whole datagrams as long as the count matches their sizes.\<close>

lemma read_loop_whole:
  "total_size ds = n \<Longrightarrow> (ds = [] \<or> 0 < length (snd (last ds))) \<Longrightarrow>
   udp_read_loop env err cbs n (ds @ rest) u = Throws \<or>
   (\<exists>v. udp_read_loop env err cbs n (ds @ rest) u = Reads v \<and>
     u_inbox v = (if ds = [] then u_inbox u else rest) \<and>
     u_delivered v = u_delivered u @ map delivered_as ds \<and>
     u_sent v = u_sent u \<and> u_errors v = u_errors u \<and> u_arrived v = u_arrived u \<and> u_memory v = u_memory u \<and>
     count_list (u_pending v) Receive_op = count_list (u_pending u) Receive_op)"
proof (induction ds arbitrary: n err cbs u)
  case Nil
  then show ?case by (simp add: total_size_def udp_read_loop.simps)
next
  case (Cons d ds)
  obtain ep bs where d: "d = (ep, bs)" by fastforce
  have n: "n = length bs + total_size ds" using Cons.prems(1) by (simp add: total_size_def d)
  have "0 < n"
  proof (cases "ds = []")
    case False
    then have "length (snd (last ds)) \<in> set (map (length \<circ> snd) ds)" by simp
    then have "length (snd (last ds)) \<le> total_size ds"
      unfolding total_size_def by (rule member_le_sum_list) simp
    moreover have "0 < length (snd (last ds))" using Cons.prems(2) False by simp
    ultimately show ?thesis using n by linarith
  qed (use Cons.prems(2) n d in simp)
  let ?u1 = "u\<lparr>u_inbox := ds @ rest, u_sender_ep := ep\<rparr>"
  let ?h = "udp_message_handler env (if cbs = [] then [] else hd cbs) (to_remote ep) bs ?u1"
  have take: "take n bs = bs" using n by simp
  show ?case
  proof (cases "err = Some 0")
    case True
    with \<open>0 < n\<close> show ?thesis by (subst (1) udp_read_loop.simps) simp
  next
    case err: False
    show ?thesis
    proof (cases ?h)
      case None
      with \<open>0 < n\<close> take err show ?thesis by (subst (1) udp_read_loop.simps) (simp add: d Let_def)
    next
      case (Some u2)
      have frame: "udp_frame (?u1\<lparr>u_delivered := u_delivered u @ [(to_remote ep, bs)]\<rparr>) u2"
        using udp_calls_frame Some by (fastforce simp: udp_message_handler_def)
      have eq: "udp_read_loop env err cbs n ((d # ds) @ rest) u =
          udp_read_loop env (earlier err) (tl cbs) (total_size ds) (ds @ rest) u2"
        using \<open>0 < n\<close> take Some n err by (subst udp_read_loop.simps) (auto simp: d Let_def)
      have "ds = [] \<or> 0 < length (snd (last ds))" using Cons.prems(2) by (cases "ds = []") auto
      from Cons.IH [OF refl this, of "earlier err" "tl cbs" u2] frame show ?thesis
        unfolding eq by (auto simp: udp_frame_def d)
    qed
  qed
qed

end
