(* ===== verification/Udp_Properties.thy ===== *)
theory Udp_Properties
  imports Udp_Socket
begin

text \<open>
  What the UDP socket promises: datagrams are delivered whole and in order, and it always
  listens. And two limits: an empty datagram blocks it where the system answers with the
  size of the next datagram, and a chunk is not copied before it is sent.
\<close>

section \<open>Reading\<close>

text \<open>The datagrams one call of the handler delivers.\<close>

definition readable_part :: "udp_env \<Rightarrow> datagram list \<Rightarrow> datagram list" where
  "readable_part env inbox =
     (if avail env = next_size then takeWhile (\<lambda>d. snd d \<noteq> []) (take 1 inbox)
      else rev (dropWhile (\<lambda>d. snd d = []) (rev inbox)))"

lemma readable_part_prefix: "\<exists>rest. inbox = readable_part env inbox @ rest"
proof -
  have "inbox = rev (dropWhile P (rev inbox)) @ rev (takeWhile P (rev inbox))" for P
    by (metis rev_append rev_rev_ident takeWhile_dropWhile_id)
  moreover have "\<exists>rest. inbox = takeWhile (\<lambda>d. snd d \<noteq> []) (take 1 inbox) @ rest"
    by (cases inbox) auto
  ultimately show ?thesis by (cases "avail env = next_size") (auto simp: readable_part_def)
qed

lemma readable_part_last: "readable_part env inbox = [] \<or> 0 < length (snd (last (readable_part env inbox)))"
proof (cases "avail env = next_size")
  case True
  then show ?thesis by (cases inbox) (auto simp: readable_part_def)
next
  case False
  let ?xs = "dropWhile (\<lambda>d. snd d = []) (rev inbox)"
  have "snd (hd ?xs) \<noteq> []" if "?xs \<noteq> []" using hd_dropWhile [OF that] .
  then show ?thesis using False by (simp only: readable_part_def if_False last_rev) force
qed

lemma total_size_empty: "(\<forall>d \<in> set ds. snd d = []) \<Longrightarrow> total_size ds = 0"
  by (induction ds) (auto simp: total_size_def)

lemma readable_part_size:
  assumes "system_answers env"
  shows "total_size (readable_part env inbox) = avail env inbox"
proof (cases "avail env = next_size")
  case True
  then show ?thesis by (cases inbox) (auto simp: readable_part_def next_size_def total_size_def)
next
  case False
  then have total: "avail env = total_size" using assms by (auto simp: system_answers_def)
  let ?P = "\<lambda>d. snd d = []"
  have split: "inbox = rev (dropWhile ?P (rev inbox)) @ rev (takeWhile ?P (rev inbox))"
    by (metis rev_append rev_rev_ident takeWhile_dropWhile_id)
  have "total_size (rev (takeWhile ?P (rev inbox))) = 0"
    by (rule total_size_empty) (auto dest: set_takeWhileD)
  moreover have "total_size (xs @ ys) = total_size xs + total_size ys" for xs ys :: "datagram list"
    by (simp add: total_size_def)
  ultimately have "total_size inbox = total_size (rev (dropWhile ?P (rev inbox)))"
    by (subst split) simp
  with False total show ?thesis by (simp add: readable_part_def)
qed

lemma handle_read_whole:
  assumes "system_answers env" and "u_inbox u = readable_part env (u_inbox u) @ rest"
  shows "udp_handle_read env err cbs 0 u = Throws \<or>
    (\<exists>v. udp_handle_read env err cbs 0 u = Reads v \<and> u_inbox v = rest \<and>
      u_delivered v = u_delivered u @ map delivered_as (readable_part env (u_inbox u)) \<and>
      u_sent v = u_sent u \<and> u_errors v = u_errors u \<and> u_arrived v = u_arrived u \<and> u_memory v = u_memory u \<and>
      count_list (u_pending v) Receive_op = Suc (count_list (u_pending u) Receive_op))"
proof -
  let ?ds = "readable_part env (u_inbox u)"
  have "udp_read_loop env (earlier err) cbs (avail env (u_inbox u)) (?ds @ rest) u = Throws \<or>
   (\<exists>v. udp_read_loop env (earlier err) cbs (avail env (u_inbox u)) (?ds @ rest) u = Reads v \<and>
     u_inbox v = (if ?ds = [] then u_inbox u else rest) \<and>
     u_delivered v = u_delivered u @ map delivered_as ?ds \<and>
     u_sent v = u_sent u \<and> u_errors v = u_errors u \<and> u_arrived v = u_arrived u \<and> u_memory v = u_memory u \<and>
     count_list (u_pending v) Receive_op = count_list (u_pending u) Receive_op)"
    by (rule read_loop_whole [OF readable_part_size [OF assms(1)] readable_part_last])
  moreover have "?ds = [] \<Longrightarrow> u_inbox u = rest" using assms(2) by simp
  ultimately show ?thesis
    using assms(2) by (auto simp: udp_handle_read_def udp_do_read_def split: if_splits)
qed

lemma error_handler_frame:
  "udp_communication_error_handler env cb r ec u = Some v \<Longrightarrow>
   udp_frame (u\<lparr>u_errors := u_errors u @ [(r, ec)]\<rparr>) v"
  unfolding udp_communication_error_handler_def by (rule udp_calls_frame)

text \<open>The handler throws only when a system call or a call of the user does.\<close>

fun udp_call_ok :: "udp_env \<Rightarrow> udp_api \<Rightarrow> bool" where
  "udp_call_ok env (Udp_write_to r _) \<longleftrightarrow> parse env (address r) \<noteq> None"
| "udp_call_ok env _ \<longleftrightarrow> True"

lemma udp_calls_ok: "list_all (udp_call_ok env) cb \<Longrightarrow> udp_calls env cb u \<noteq> None"
proof (induction cb arbitrary: u)
  case (Cons c cb)
  then obtain v where "udp_call env c u = Some v" by (cases c) (auto simp: udp_write_to_def)
  with Cons show ?case by simp
qed simp

lemma read_loop_ok:
  "list_all (list_all (udp_call_ok env)) cbs \<Longrightarrow> udp_read_loop env None cbs n inbox u \<noteq> Throws"
proof (induction inbox arbitrary: n cbs u)
  case (Cons d inbox)
  have "list_all (udp_call_ok env) (if cbs = [] then [] else hd cbs)" and "list_all (list_all (udp_call_ok env)) (tl cbs)"
    using Cons.prems by (cases cbs; simp)+
  then show ?case
    using Cons.IH
    by (subst udp_read_loop.simps) (auto simp: udp_calls_ok Let_def earlier_def udp_message_handler_def split: prod.splits option.splits)
qed (simp add: udp_read_loop.simps)

lemma handle_read_ok:
  "list_all (list_all (udp_call_ok env)) cbs \<Longrightarrow> udp_handle_read env None cbs 0 u \<noteq> Throws"
  using read_loop_ok by (auto simp: udp_handle_read_def earlier_def split: udp_result.splits)

section \<open>Listening\<close>

text \<open>One receive is outstanding, and what has arrived has been handed over or is still in the queue.\<close>

definition listening :: "udp \<Rightarrow> bool" where
  "listening u \<longleftrightarrow> count_list (u_pending u) Receive_op = 1 \<and>
     map delivered_as (u_arrived u) = u_delivered u @ map delivered_as (u_inbox u)"

lemma udp_finish_frame [simp]:
  "u_inbox (udp_finish i u) = u_inbox u" "u_arrived (udp_finish i u) = u_arrived u"
  "u_delivered (udp_finish i u) = u_delivered u"
  by (simp_all add: udp_finish_def)

lemma count_udp_finish:
  "i < length (u_pending u) \<Longrightarrow> count_list (u_pending (udp_finish i u)) Receive_op =
     count_list (u_pending u) Receive_op - (if u_pending u ! i = Receive_op then 1 else 0)"
  by (simp add: udp_finish_def count_without_nth)

lemma listening_step:
  assumes "udp_step env u (Reads v)" and "listening u" and "system_answers env"
  shows "listening v"
  using assms(1)
proof cases
  case (user c)
  then show ?thesis using assms(2) udp_call_frame [of env c u v]
    by (auto simp: reads_or_throws_def listening_def udp_frame_def split: option.splits)
next
  case (readable i err cbs)
  let ?ds = "readable_part env (u_inbox u)"
  obtain rest where rest: "u_inbox u = ?ds @ rest" using readable_part_prefix by metis
  then have inbox: "map delivered_as (u_inbox u) = map delivered_as ?ds @ map delivered_as rest"
    by (metis map_append)
  have "u_inbox (udp_finish i u) = readable_part env (u_inbox (udp_finish i u)) @ rest" using rest by simp
  from handle_read_whole [OF assms(3) this, of err cbs] readable(1,3) inbox count_udp_finish [OF readable(2)] assms(2)
  show ?thesis by (auto simp: listening_def)
next
  case (read_error i ec err cbs)
  then obtain w where w: "udp_communication_error_handler env (concat cbs)
        (to_remote (u_sender_ep (udp_finish i u))) ec (udp_finish i u) = Some w" "v = udp_do_read w"
    by (auto simp: udp_handle_read_def split: option.splits)
  with error_handler_frame [OF w(1)] read_error count_udp_finish [OF read_error(2)] assms(2)
  show ?thesis by (auto simp: listening_def udp_frame_def udp_do_read_def)
next
  case (sent i ep a n cb)
  then show ?thesis using assms(2) count_udp_finish [OF sent(2)]
    by (auto simp: reads_or_throws_def udp_handle_write_def listening_def)
next
  case (send_error i ep a n ec cb)
  then obtain "udp_communication_error_handler env cb (to_remote ep) ec (udp_finish i u) = Some v"
    by (auto simp: reads_or_throws_def udp_handle_write_def split: option.splits)
  with error_handler_frame [OF this] assms(2) count_udp_finish [OF send_error(2)] send_error
  show ?thesis by (auto simp: listening_def udp_frame_def)
qed (use assms(2) in \<open>auto simp: listening_def split: if_splits\<close>)

lemma listening_run: "udp_run env u v \<Longrightarrow> listening u \<Longrightarrow> system_answers env \<Longrightarrow> listening v"
proof (induction rule: udp_run.induct)
  case (run_more u v w)
  then show ?case using listening_step by blast
qed simp

section \<open>An empty datagram\<close>

definition blocked_by :: "endpoint \<Rightarrow> udp \<Rightarrow> bool" where
  "blocked_by ep u \<longleftrightarrow> (\<exists>rest. u_inbox u = (ep, []) # rest)"

lemma empty_not_read:
  assumes "avail env = next_size" and "blocked_by ep u"
  shows "udp_handle_read env err cbs 0 u = (if err = Some 0 then Throws else Reads (udp_do_read u))"
  using assms by (auto simp: udp_handle_read_def blocked_by_def next_size_def udp_read_loop.simps)

lemma blocked_step:
  assumes "udp_step env u (Reads v)" and "avail env = next_size" and "blocked_by ep u"
  shows "blocked_by ep v \<and> u_delivered v = u_delivered u"
  using assms(1)
proof cases
  case (user c)
  then show ?thesis using assms(3) udp_call_frame [of env c u v]
    by (auto simp: reads_or_throws_def udp_frame_def blocked_by_def split: option.splits)
next
  case (readable i err cbs)
  have "blocked_by ep (udp_finish i u)" using assms(3) by (simp add: blocked_by_def udp_finish_def)
  from empty_not_read [OF assms(2) this, of err cbs] readable assms(3) show ?thesis
    by (auto simp: blocked_by_def udp_do_read_def split: if_splits)
next
  case (read_error i ec err cbs)
  then obtain w where w: "udp_communication_error_handler env (concat cbs)
        (to_remote (u_sender_ep (udp_finish i u))) ec (udp_finish i u) = Some w" "v = udp_do_read w"
    by (auto simp: udp_handle_read_def split: option.splits)
  with error_handler_frame [OF w(1)] assms(3)
  show ?thesis by (auto simp: udp_frame_def udp_do_read_def blocked_by_def udp_finish_def)
next
  case (sent i ep a n cb)
  then show ?thesis using assms(3)
    by (auto simp: reads_or_throws_def udp_handle_write_def blocked_by_def udp_finish_def)
next
  case (send_error i ep' a n ec cb)
  then obtain "udp_communication_error_handler env cb (to_remote ep') ec (udp_finish i u) = Some v"
    by (auto simp: reads_or_throws_def udp_handle_write_def split: option.splits)
  with error_handler_frame [OF this] assms(3) send_error
  show ?thesis by (auto simp: udp_frame_def blocked_by_def udp_finish_def)
qed (use assms(3) in \<open>auto simp: blocked_by_def split: if_splits\<close>)

lemma blocked_run:
  "udp_run env u v \<Longrightarrow> avail env = next_size \<Longrightarrow> blocked_by ep u \<Longrightarrow>
   blocked_by ep v \<and> u_delivered v = u_delivered u"
proof (induction rule: udp_run.induct)
  case (run_more u v w)
  then show ?case using blocked_step by metis
qed simp

section \<open>Properties\<close>

definition linux_env :: udp_env where
  "linux_env = \<lparr>parse = Some, all = ''255.255.255.255'', avail = next_size\<rparr>"

definition windows_env :: udp_env where
  "windows_env = \<lparr>parse = Some, all = ''255.255.255.255'', avail = total_size\<rparr>"

text \<open>C35: When the socket is readable, the handler never blocks, and it hands over whole datagrams, each with
  its sender, in the order they arrived, skipping none; the first one at least, unless it is empty. It throws only when
  a system call fails or the callback calls \<^verbatim>\<open>write_to\<close> with an address that cannot be parsed.\<close>

theorem udp_delivers_whole:
  assumes "system_answers env"
  shows "(udp_handle_read env err cbs 0 u = Throws \<and>
      \<not> (err = None \<and> list_all (list_all (udp_call_ok env)) cbs)) \<or>
    (\<exists>v ds rest. udp_handle_read env err cbs 0 u = Reads v \<and> u_inbox u = ds @ rest \<and> u_inbox v = rest \<and>
      u_delivered v = u_delivered u @ map (\<lambda>d. (to_remote (fst d), snd d)) ds \<and>
      (u_inbox u \<noteq> [] \<and> snd (hd (u_inbox u)) \<noteq> [] \<longrightarrow> ds \<noteq> []))"
proof -
  let ?ds = "readable_part env (u_inbox u)"
  obtain rest where rest: "u_inbox u = ?ds @ rest" using readable_part_prefix by blast
  have "?ds \<noteq> []" if "u_inbox u \<noteq> []" "snd (hd (u_inbox u)) \<noteq> []"
    using that by (cases "u_inbox u") (auto simp: readable_part_def dropWhile_append)
  with handle_read_whole [OF assms rest, of err cbs] rest handle_read_ok show ?thesis by blast
qed

theorem udp_delivers_whole_witness:
  "\<exists>u v. u_inbox u = [((''10.0.0.1'', 7), [1, 2]), ((''10.0.0.2'', 8), [3])] \<and>
     udp_handle_read windows_env None [] 0 u = Reads v \<and> u_delivered v \<noteq> []"
proof -
  let ?u = "(udp_new 9 (\<lambda>_. []))
    \<lparr>u_inbox := [((''10.0.0.1'', 7), [1, 2]), ((''10.0.0.2'', 8), [3])]\<rparr>"
  have "system_answers windows_env" by (simp add: system_answers_def windows_env_def)
  then obtain v ds where "udp_handle_read windows_env None [] 0 ?u = Reads v" "ds \<noteq> []"
      "u_delivered v = u_delivered ?u @ map (\<lambda>d. (to_remote (fst d), snd d)) ds"
    using udp_delivers_whole [of windows_env None "[]" ?u] by auto
  then show ?thesis by (intro exI [of _ ?u] exI [of _ v]) simp
qed

text \<open>C36: The socket always listens and hands over everything in order: in every reachable state exactly one
  receive is outstanding, after errors too, and the datagrams that have arrived are, in their order,
  those handed to the user, whole and with their senders, and then those still in the system's queue.\<close>

theorem udp_listens_in_order:
  assumes "system_answers env" and "udp_run env (udp_new p mem) u"
  shows "count_list (u_pending u) Receive_op = 1 \<and>
    map (\<lambda>d. (to_remote (fst d), snd d)) (u_arrived u) =
      u_delivered u @ map (\<lambda>d. (to_remote (fst d), snd d)) (u_inbox u)"
  using listening_run [OF assms(2) _ assms(1)] by (simp add: listening_def udp_new_def udp_do_read_def)

theorem udp_listens_in_order_witness:
  "\<exists>u. udp_run linux_env (udp_new 9 (\<lambda>_. [])) u \<and> u_arrived u = [((''10.0.0.1'', 7), [1])] \<and>
     count_list (u_pending u) Receive_op = 1 \<and> u_inbox u = [] \<and> u_delivered u = [(remote_new ''10.0.0.1'' 7, [1])]"
proof -
  let ?u = "udp_new 9 (\<lambda>_. [])"
  let ?d = "((''10.0.0.1'', 7), [1])"
  let ?v = "?u\<lparr>u_inbox := u_inbox ?u @ [?d], u_arrived := u_arrived ?u @ [?d]\<rparr>"
  have ans: "system_answers linux_env" by (simp add: system_answers_def linux_env_def)
  have run: "udp_run linux_env ?u ?v"
    by (rule udp_run.run_more [OF udp_run.run_refl udp_step.arrive])
  have "\<exists>w. udp_step linux_env ?v (Reads w) \<and> u_inbox w = [] \<and> u_arrived w = [?d]"
    using udp_step.readable [of 0 ?v linux_env None "[]"]
    by (simp add: udp_new_def udp_do_read_def udp_finish_def without_nth_def udp_handle_read_def linux_env_def
        next_size_def udp_read_loop.simps udp_message_handler_def earlier_def) force
  then obtain w where w: "udp_step linux_env ?v (Reads w)" "u_inbox w = []" "u_arrived w = [?d]" by blast
  have run': "udp_run linux_env ?u w" by (rule udp_run.run_more [OF run w(1)])
  from udp_listens_in_order [OF ans run'] run' w(2,3) show ?thesis
    by (intro exI [of _ w]) (simp add: to_remote_def)
qed

text \<open>C37: Where the system answers with the size of the next datagram, an empty datagram blocks the socket: the
  handler never takes it out of the queue, and from then on nothing is delivered, whatever arrives after it.\<close>

theorem udp_empty_datagram_blocks:
  assumes "avail env = next_size" and "u_inbox u = (ep, []) # rest" and "udp_run env u v"
  shows "u_delivered v = u_delivered u \<and> hd (u_inbox v) = (ep, [])"
  using blocked_run [OF assms(3,1), of ep] assms(2) by (auto simp: blocked_by_def)

theorem udp_empty_datagram_blocks_witness:
  "\<exists>u v. udp_run linux_env u v \<and> u_inbox u = [((''10.0.0.1'', 7), [])] \<and>
     u_inbox v = [((''10.0.0.1'', 7), []), ((''10.0.0.2'', 8), [3])] \<and> u_delivered v = u_delivered u"
proof -
  let ?u = "(udp_new 9 (\<lambda>_. []))\<lparr>u_inbox := [((''10.0.0.1'', 7), [])]\<rparr>"
  let ?d = "((''10.0.0.2'', 8), [3])"
  let ?v = "?u\<lparr>u_inbox := u_inbox ?u @ [?d], u_arrived := u_arrived ?u @ [?d]\<rparr>"
  have run: "udp_run linux_env ?u ?v"
    by (rule udp_run.run_more [OF udp_run.run_refl udp_step.arrive])
  from udp_empty_datagram_blocks [OF _ _ run, of "(''10.0.0.1'', 7)" "[]"] run show ?thesis
    by (intro exI [of _ ?u] exI [of _ ?v]) (simp add: linux_env_def)
qed

text \<open>C38: \<^verbatim>\<open>write_to\<close> does not copy the chunk: what is sent is whatever the caller's memory holds when the
  operation is carried out, so a caller that reuses its chunk after \<^verbatim>\<open>write_to\<close> has returned sends
  other bytes.\<close>

theorem udp_write_to_not_copied:
  assumes "parse env (address r) = Some a" and "length bs = length (u_memory u chunk)"
  shows "\<exists>v w x. udp_write_to env r chunk u = Some v \<and>
    w = v\<lparr>u_memory := (u_memory v)(chunk := bs)\<rparr> \<and> udp_step env v (Reads w) \<and> udp_step env w (Reads x) \<and>
    u_sent x = u_sent u @ [((a, port r), bs)]"
proof -
  let ?n = "length (u_memory u chunk)" and ?ep = "(a, port r)"
  let ?v = "u\<lparr>u_pending := u_pending u @ [Send_op ?ep chunk ?n]\<rparr>"
  let ?w = "?v\<lparr>u_memory := (u_memory ?v)(chunk := bs)\<rparr>"
  have "udp_write_to env r chunk u = Some ?v" using assms(1) by (simp add: udp_write_to_def)
  moreover have "udp_step env ?v (Reads ?w)" by (rule udp_step.memory)
  moreover have "length (u_pending u) < length (u_pending ?w)"
      "u_pending ?w ! length (u_pending u) = Send_op ?ep chunk ?n"
    by simp_all
  from udp_step.sent [OF this, of env "[]"]
  have "udp_step env ?w (Reads ((udp_finish (length (u_pending u)) ?w)\<lparr>u_sent := u_sent u @ [(?ep, bs)]\<rparr>))"
    using assms(2) by (simp add: udp_handle_write_def reads_or_throws_def udp_finish_def)
  ultimately show ?thesis by force
qed

theorem udp_write_to_not_copied_witness:
  "\<exists>v w x. udp_write_to linux_env (remote_new ''10.0.0.1'' 7) 0 (udp_new 9 (\<lambda>_. [1])) = Some v \<and>
     udp_step linux_env v (Reads w) \<and> udp_step linux_env w (Reads x) \<and>
     u_sent x = [((''10.0.0.1'', 7), [9])]"
proof -
  have "parse linux_env (address (remote_new ''10.0.0.1'' 7)) = Some ''10.0.0.1''"
    by (simp add: linux_env_def remote_new_def)
  from udp_write_to_not_copied [OF this, of "[9]" "udp_new 9 (\<lambda>_. [1])" 0]
  show ?thesis by (auto simp: udp_new_def udp_do_read_def remote_new_def)
qed

end
