(* ===== verification/Spec2Isabelle.thy ===== *)
theory Spec2Isabelle
  imports Mq_Calls Mq_Progress Ipc_Named Ipc_Shared_Memory Sync_Event Util_Random Tcp_Client_Properties
    Tcp_Server_Properties Tcp_Race Tcp_Map_Race Tcp_Connection Serial_Line Udp_Properties
begin

text \<open>
  \<^bold>\<open>A verification of Sephi.\<close>

  Sephi is a C++ library of inter-process and network communication on top of Boost.Interprocess and
  Asio. Its parts, with the directories of \<^verbatim>\<open>src/\<close> that hold them:

  \<^item> \<^verbatim>\<open>include/sephi/ipc/mq/boost/message_queue_mod.hpp\<close>: a priority message queue in shared memory, for
    any number of processes; \<^verbatim>\<open>ipc/mq/message_queue\<close>, \<^verbatim>\<open>ipc/shm/shared_memory\<close>: the
    classes \<^verbatim>\<open>MessageQueue\<close> and \<^verbatim>\<open>SharedMemory\<close>, which give queues and memory a name.
  \<^item> \<^verbatim>\<open>sync/event\<close>, \<^verbatim>\<open>ipc/sync\<close>: events between threads and between processes.
  \<^item> \<^verbatim>\<open>net/tcp\<close>, \<^verbatim>\<open>net/serial\<close>, \<^verbatim>\<open>net/udp\<close>, \<^verbatim>\<open>net/types\<close>: a TCP client, a TCP server with its
    sessions, a serial port and a UDP socket, each an object around an \<^verbatim>\<open>io_context\<close> that one thread
    runs.
  \<^item> \<^verbatim>\<open>util/random_string\<close>: random strings for any thread.

  The IPC and the network part do not call each other. \<^verbatim>\<open>MessageQueue\<close> owns a
  \<^verbatim>\<open>message_queue_t\<close>, which places an \<^verbatim>\<open>mq_hdr_t\<close> in a shared segment; \<^verbatim>\<open>Server\<close> owns its
  \<^verbatim>\<open>Session\<close>s, which call back into it.

  \<^bold>\<open>The message queue.\<close> \<open>Mq_Header\<close> is the control block \<^verbatim>\<open>mq_hdr_t\<close> with the two index
  structures the header can be compiled with: a circular one, which moves the shorter side on
  insertion, and a linear one. All index arithmetic wraps at 64 bits, every access to the index
  and every dereference is checked, and a failed assertion is a failure too: the result \<open>None\<close>.
  \<open>Mq_Index\<close> states what the queue needs of an index as the locale \<open>message_index\<close>;
  \<open>Mq_Linear\<close> and \<open>Mq_Circular\<close> interpret it with the two implementations. \<open>Mq_Queue\<close> holds
  \<^verbatim>\<open>do_send\<close> and \<^verbatim>\<open>do_receive\<close>, cut into the sections in which the mutex is held, and proves over the
  locale that they implement a priority queue of pairs of a priority and a message, where \<open>pq_insert\<close>
  puts a message behind those of at least its priority. \<open>Mq_Concurrent\<close> is any number of threads: a
  section is a step, the notification after it is a step of its own, and condition variables may
  wake spuriously, time out and throw at any moment; its invariant counts waiting, woken and
  notifying threads. The steps that need neither a new call nor a wait that ends by itself are
  \<open>mq_work\<close>; \<open>Mq_Progress\<close> shows that they come to an end and what is true then. \<open>Mq_Layout\<close> is the layout of the queue in memory, over 64-bit words. The
  properties are in \<open>Mq_Properties\<close> (runs of threads) and \<open>Mq_Calls\<close> (single calls, the
  equivalence of the two builds, the layout).

  \<^bold>\<open>Named objects.\<close> \<open>Ipc_Named\<close> models \<^verbatim>\<open>MessageQueue\<close>, the constructors of \<^verbatim>\<open>message_queue_t\<close> it calls, and
  the names of \<^verbatim>\<open>NamedEvent\<close>; \<open>Ipc_Shared_Memory\<close> models \<^verbatim>\<open>SharedMemory\<close>. The system's table of names is a
  parameter, \<open>named_api\<close>, with its documented laws \<open>named_laws\<close>, and so is Boost's managed segment,
  \<open>managed_api\<close> with \<open>managed_laws\<close>. \<open>Util_Random\<close> models \<^verbatim>\<open>random_string\<close> over Boost's generator.

  \<^bold>\<open>Events.\<close> \<open>Sync_Event\<close> models \<^verbatim>\<open>set\<close> and \<^verbatim>\<open>wait\<close> of the three event classes for any number of
  threads; the contract of an auto-reset event is the locale \<open>flag_event\<close>, interpreted for
  \<^verbatim>\<open>sync::Event\<close> and \<^verbatim>\<open>ipc::Event\<close>, and not kept by \<^verbatim>\<open>NamedEvent\<close>.

  \<^bold>\<open>Network.\<close> \<open>Net_Base\<close> has the shared types, says how Asio appears in the models (posted
  tasks run in order, outstanding operations end at any moment with any result, user callbacks make
  any list of calls), and states two contracts. The locale \<open>async_writer\<close> is a send queue with one write
  at a time; it is interpreted for \<^verbatim>\<open>Client\<close> (\<open>Tcp_Client\<close>), \<^verbatim>\<open>Session\<close> (\<open>Tcp_Server\<close>) and \<^verbatim>\<open>Serial\<close>
  (\<open>Serial_Port\<close>). The locale \<open>posting_writer\<close> extends it with the steps of the object, which have
  to be those of an abstract sender (\<open>writer_effect\<close>: accept, enqueue, written, failed); it is
  interpreted for \<^verbatim>\<open>Client\<close> and \<^verbatim>\<open>Serial\<close>, and gives both the invariant, the progress lemma and the
  lemma on failed writes. As an operation may have ended before its socket is closed, with its handler still to run, the
  steps let it succeed at any time; what can be sent is therefore claimed only over steps between states that are
  up (\<open>client_up\<close>, \<open>serial_up\<close>: the connection open, and not to be closed by a posted task). Each class is a record with one definition per member function and a step
  relation. In \<open>Tcp_Server\<close> the callbacks may also call \<^verbatim>\<open>close\<close>, whose loop runs callbacks in turn: the calls
  and the loop are one mutual recursion, an iterator whose element is gone is undefined behaviour, and
  an exception is passed on to the caller or ends the program. What all calls respect, however nested, is
  the locale \<open>call_relation\<close>. \<open>Tcp_Race\<close> cuts \<^verbatim>\<open>Session::write\<close> and
  \<^verbatim>\<open>Session::handle_write\<close> into single accesses of the queue and runs them kept apart and interleaved; \<open>Tcp_Map_Race\<close>
  does the same with the loops of \<^verbatim>\<open>Server\<close> over its sessions. \<open>Udp_Socket\<close> models \<^verbatim>\<open>Udp\<close>, with the caller's
  buffers in a store. The theories with \<open>_Properties\<close> in their name hold what is proved of each.

  \<open>Tcp_Connection\<close> puts a \<^verbatim>\<open>Client\<close> and a \<^verbatim>\<open>Session\<close> at the two ends of a connection. TCP appears by what it
  guarantees (\<open>Net_Stream\<close>): bytes arrive in order and once, and a write ends successfully when all
  its bytes have been taken. \<open>Serial_Line\<close> puts two \<^verbatim>\<open>Serial\<close> ports at the ends of a line that loses nothing. Each direction
  of either is shown to be an instance of the locale \<open>stream_steps\<close>, whose steps are those of
  an abstract stream (\<open>stream_effect\<close>: grow, transmit, complete, deliver); what holds end to end is proved
  there and in its extension \<open>byte_stream\<close> once and used three times. A sender that posts its writes, as
  \<^verbatim>\<open>Client\<close> and \<^verbatim>\<open>Serial\<close> do, is a \<open>posting_stream\<close>, which is shown to be a \<open>byte_stream\<close>.

  \<^bold>\<open>What the theorems show.\<close>

  \<^item> Every interleaving of senders and receivers on a new queue is a run of a bounded priority queue; no
    thread reaches undefined behaviour or a failed assertion; no wake-up is lost, the queue
    cannot deadlock, and whoever waits is served as soon as there is something for him; within a priority delivery is first in, first out, and a receive takes
    the highest priority; the two builds are indistinguishable; every path of \<^verbatim>\<open>try_send\<close> and
    \<^verbatim>\<open>try_receive\<close> is as specified; the memory layout is sound unless the size computation overflows;
    what it computes is the size needed modulo 2^64.
  \<^item> A message sent through one handle of a named queue arrives through another, and an object in shared memory is found
    through every mapping until it is destructed; but every destructor removes the name, and the next to open
    or create it gets another queue or another, empty segment.
  \<^item> An event lets at most one waiter through per set and loses no set; a \<^verbatim>\<open>NamedEvent\<close> loses sets and
    lets waiters through without one.
  \<^item> \<^verbatim>\<open>Client\<close>, \<^verbatim>\<open>Session\<close> and \<^verbatim>\<open>Serial\<close> send what they accept in order and without loss or
    duplication, with one write at a time. \<^verbatim>\<open>Client\<close> and \<^verbatim>\<open>Serial\<close> can send everything while their connection is
    open and no write has failed; after a failed write they never send again. A serial port is only opened while
    it is closed, and every outcome of opening it is as specified. \<^verbatim>\<open>Server\<close> always accepts and always reads from
    its sessions, and writes reach exactly the sessions addressed; \<^verbatim>\<open>close\<close> ends and reports every session
    once, but must not be called from its own callbacks, and closed sessions are reported again when their
    read ends. Over a connection or a serial line, each end hands out a prefix of what the other has accepted, and all of
    it as long as the connection or the line is up. A session whose \<^verbatim>\<open>write\<close> is interrupted by the handler can lose and
    repeat messages, which a mutex around the two would prevent, and the loops of \<^verbatim>\<open>close\<close> and
    \<^verbatim>\<open>write_to_all\<close> use an invalid iterator when a handler erases the session they are at. \<^verbatim>\<open>Udp\<close> hands over every datagram that arrives, whole and in order, and always listens, but stops at an empty
    datagram and does not copy what it sends.

  \<^bold>\<open>Bounds.\<close> No fuel is used: loops are recursions on lists or lengths and total; the recursion of the
  server's calls ends because a call inside a callback is smaller than the call that makes it. The only bounds are
  those of the machine: fewer than 2^64 threads on a queue, so that the counters of blocked
  threads do not wrap, and sizes whose sums fit 64 bits (\<open>layout_fits\<close>).

  \<^bold>\<open>Not modelled.\<close> Boost's mutexes, conditions and segments and Asio's sockets, beyond the contracts
  above; a condition wait that throws after it has been notified, or without the mutex; accesses of two threads
  to a session or to the map of sessions at the very same time, which C++ leaves undefined (\<open>Tcp_Race\<close> and
  \<open>Tcp_Map_Race\<close> take them one after the other); a call of \<^verbatim>\<open>reconnect\<close> or \<^verbatim>\<open>reopen\<close> from another thread in the
  middle of a handler of \<^verbatim>\<open>Client\<close> or \<^verbatim>\<open>Serial\<close>, other than as a call that its callback makes; a socket that cannot be closed, of which \<^verbatim>\<open>reconnect\<close> tells
  its caller by an exception; a connection that the client replaces, of which \<open>Tcp_Connection\<close>
  describes only the part up to \<^verbatim>\<open>reconnect\<close>, and a serial port that is opened again, likewise; a mutex that cannot be locked; the allocators and deleters of
  \<^verbatim>\<open>SharedMemory\<close>, which are Boost's, and the types and contents of its objects, the empty subclasses and
  type aliases of \<^verbatim>\<open>ipc/sync\<close> and \<^verbatim>\<open>ipc/container\<close>, and the tests.
\<close>

end
